(* ===== verification/WCDB_Prelude.thy ===== *)
theory WCDB_Prelude
  imports Main "HOL-Library.Word" "HOL-Library.Monad_Syntax"
begin

unbundle bit_operations_syntax

text \<open>
  Shared vocabulary of the development: the machine types of the C++ sources, the
  conversions between them, and the generic facts about lists, options and words that
  the component theories use.

  \<^item> \<open>uint8_t\<close>, \<open>uint32_t\<close> and \<open>uint64_t\<close> are words of that width, so their
    arithmetic wraps.
  \<^item> \<open>int\<close>, \<open>int64_t\<close> and \<open>offset_t\<close> (a 64-bit \<open>off_t\<close>) are integers; a
    narrowing conversion is written where the source narrows.
  \<^item> \<open>size_t\<close> is a natural number below \<open>2 ^ 64\<close>; a signed value that the source
    converts to \<open>size_t\<close> goes through \<open>to_size\<close>, and a \<open>size_t\<close> that it converts to
    \<open>offset_t\<close> goes through \<open>to_off\<close>.
  \<^item> An operation that may touch memory outside of its allocation returns an
    \<open>option\<close>; \<open>None\<close> is that undefined behaviour.  A failure that the code itself
    reports is an ordinary value.
\<close>

type_synonym byte = "8 word"
type_synonym u32 = "32 word"
type_synonym u64 = "64 word"

named_theorems view_simps \<open>reading and restricting buffers\<close>
named_theorems size_simps \<open>conversions between int, offset_t and size_t\<close>

section \<open>Conversions between the integer types\<close>

definition size_max :: int where
  "size_max = 18446744073709551616"

definition to_size :: "int \<Rightarrow> nat" where
  "to_size i = nat (i mod size_max)"

definition to_off :: "nat \<Rightarrow> int" where
  "to_off n = (if int n < 9223372036854775808 then int n else int n - size_max)"

definition to_int32 :: "u64 \<Rightarrow> int" where
  "to_int32 v = sint (ucast v :: u32)"

text \<open>The conversion of a wider signed value to \<open>int\<close>, and an \<open>int\<close> operation, which is undefined on overflow.\<close>

definition narrow32 :: "int \<Rightarrow> int" where
  "narrow32 i = sint (word_of_int i :: u32)"

definition c_int :: "int \<Rightarrow> int option" where
  "c_int i = (if - 2147483648 \<le> i \<and> i \<le> 2147483647 then Some i else None)"

lemma narrow32_id [size_simps]: "- 2147483648 \<le> i \<Longrightarrow> i \<le> 2147483647 \<Longrightarrow> narrow32 i = i"
  by (simp add: narrow32_def signed_of_int signed_take_bit_int_eq_self)

lemma narrow32_bounds: "- 2147483648 \<le> narrow32 i" "narrow32 i \<le> 2147483647"
proof -
  have "- (2 ^ 31) \<le> sint (word_of_int i :: u32)" "sint (word_of_int i :: u32) < 2 ^ 31"
    using sint_greater_eq [of "word_of_int i :: u32"] sint_less [of "word_of_int i :: u32"] by simp_all
  then show "- 2147483648 \<le> narrow32 i" "narrow32 i \<le> 2147483647" by (simp_all add: narrow32_def)
qed

lemma c_int_SomeD: "c_int i = Some j \<Longrightarrow> j = i"
  by (simp add: c_int_def split: if_splits)

lemma c_int_id [simp]: "- 2147483648 \<le> i \<Longrightarrow> i \<le> 2147483647 \<Longrightarrow> c_int i = Some i"
  by (simp add: c_int_def)

lemma to_size_nonneg [size_simps]:
  "0 \<le> i \<Longrightarrow> i < size_max \<Longrightarrow> to_size i = nat i"
  by (simp add: to_size_def)

lemma to_size_neg [size_simps]:
  "i < 0 \<Longrightarrow> - size_max \<le> i \<Longrightarrow> to_size i = nat (size_max + i)"
proof -
  assume "i < 0" "- size_max \<le> i"
  then have "i mod size_max = (i + size_max) mod size_max" by simp
  also have "\<dots> = i + size_max" using \<open>i < 0\<close> \<open>- size_max \<le> i\<close>
    by (intro mod_pos_pos_trivial) auto
  finally show ?thesis by (simp add: to_size_def add.commute)
qed

lemma to_off_small [size_simps]:
  "n < 9223372036854775808 \<Longrightarrow> to_off n = int n"
  by (simp add: to_off_def)

lemma to_off_to_size [size_simps]:
  "0 \<le> i \<Longrightarrow> i < 9223372036854775808 \<Longrightarrow> to_off (to_size i) = i"
  by (simp add: to_size_def to_off_def size_max_def)

lemma to_size_add:
  "(to_size i + to_size j) mod nat size_max = to_size (i + j)"
proof -
  have "to_size i + to_size j = nat (i mod size_max + j mod size_max)"
    by (simp add: to_size_def size_max_def nat_add_distrib)
  also have "\<dots> mod nat size_max = nat ((i mod size_max + j mod size_max) mod size_max)"
    by (subst nat_mod_distrib) (simp_all add: size_max_def)
  finally show ?thesis by (simp add: to_size_def mod_add_eq)
qed

section \<open>Lists\<close>

lemma take_drop_nth:
  "i < n \<Longrightarrow> k + n \<le> length xs \<Longrightarrow> take n (drop k xs) ! i = xs ! (k + i)"
  by (simp add: nth_append)

lemma take_Suc_drop_nth:
  "k < length xs \<Longrightarrow> take (Suc n) (drop k xs) = xs ! k # take n (drop (Suc k) xs)"
  by (simp add: Cons_nth_drop_Suc [symmetric])

lemma drop_take_drop:
  "drop a (take b (drop c xs)) = take (b - a) (drop (c + a) xs)"
  by (simp add: drop_take add.commute)

section \<open>Bits of words\<close>

lemma bit_byte_ge_8: "8 \<le> n \<Longrightarrow> \<not> bit (p :: byte) n"
  using bit_imp_le_length [of p n] by auto

lemma and_0x80_eq_0: "(w :: 'a :: len word) AND 0x80 = 0 \<longleftrightarrow> \<not> bit w 7"
  using and_exp_eq_0_iff_not_bit [of w 7] by simp


lemma less_64E:
  assumes "(n :: nat) < 64"
  obtains "n = 0" | "n = 1" | "n = 2" | "n = 3" | "n = 4" | "n = 5" | "n = 6" | "n = 7"
    | "n = 8" | "n = 9" | "n = 10" | "n = 11" | "n = 12" | "n = 13" | "n = 14" | "n = 15"
    | "n = 16" | "n = 17" | "n = 18" | "n = 19" | "n = 20" | "n = 21" | "n = 22" | "n = 23"
    | "n = 24" | "n = 25" | "n = 26" | "n = 27" | "n = 28" | "n = 29" | "n = 30" | "n = 31"
    | "n = 32" | "n = 33" | "n = 34" | "n = 35" | "n = 36" | "n = 37" | "n = 38" | "n = 39"
    | "n = 40" | "n = 41" | "n = 42" | "n = 43" | "n = 44" | "n = 45" | "n = 46" | "n = 47"
    | "n = 48" | "n = 49" | "n = 50" | "n = 51" | "n = 52" | "n = 53" | "n = 54" | "n = 55"
    | "n = 56" | "n = 57" | "n = 58" | "n = 59" | "n = 60" | "n = 61" | "n = 62" | "n = 63"
  using assms by (auto simp: less_eq_Suc_le numeral_eq_Suc le_Suc_eq)


lemma unat_drop_bit_7: "unat (drop_bit 7 v) = unat v div 128"
  by (simp add: unat_drop_bit_eq) (simp add: drop_bit_eq_div)

lemma bit_0x7f [simp]: "bit (0x7f :: int) n \<longleftrightarrow> n < 7"
proof -
  have "(0x7f :: int) = mask 7" by (simp add: mask_eq_exp_minus_1)
  then show ?thesis by (simp only: bit_mask_iff) simp
qed

lemma bit_0x80 [simp]: "bit (0x80 :: int) n \<longleftrightarrow> n = 7"
proof -
  have "(0x80 :: int) = 2 ^ 7" by simp
  then show ?thesis by (simp only: bit_exp_iff) auto
qed

lemma word64_eq_by_bits:
  fixes v w :: u64
  assumes "\<And>n. n < 64 \<Longrightarrow> bit v n = bit w n"
  shows "v = w"
  using assms by (auto intro: bit_word_eqI)




section \<open>Option results\<close>

lemma bind_Some_conv:
  "(Option.bind m f = Some y) \<longleftrightarrow> (\<exists>x. m = Some x \<and> f x = Some y)"
  by (cases m) auto

lemma bind_not_None:
  "m = Some x \<Longrightarrow> f x \<noteq> None \<Longrightarrow> Option.bind m f \<noteq> None"
  by simp

section \<open>Ordered maps\<close>

text \<open>A \<open>std::map\<close> is the list of its elements in the order of the keys; \<open>m[k] = v\<close> is \<open>om_put\<close>.\<close>

fun om_put :: "'k :: linorder \<Rightarrow> 'v \<Rightarrow> ('k \<times> 'v) list \<Rightarrow> ('k \<times> 'v) list" where
  "om_put k v [] = [(k, v)]"
| "om_put k v ((k', v') # m) =
     (if k < k' then (k, v) # (k', v') # m
      else if k = k' then (k, v) # m
      else (k', v') # om_put k v m)"

definition om_ok :: "('k :: linorder \<times> 'v) list \<Rightarrow> bool" where
  "om_ok m \<longleftrightarrow> sorted_wrt (<) (map fst m)"

lemma om_ok_Nil [simp]: "om_ok []"
  by (simp add: om_ok_def)

lemma map_of_om_put [simp]: "map_of (om_put k v m) = (map_of m)(k \<mapsto> v)"
  by (induction k v m rule: om_put.induct) auto

lemma fst_set_om_put: "fst ` set (om_put k v m) = insert k (fst ` set m)"
  by (induction k v m rule: om_put.induct) auto

lemma om_put_not_Nil [simp]: "om_put k v m \<noteq> []"
  by (cases m) (auto split: if_splits)

lemma om_ok_om_put [simp]: "om_ok m \<Longrightarrow> om_ok (om_put k v m)"
proof (induction k v m rule: om_put.induct)
  case (2 k v k' v' m)
  have "fst ` set (om_put k v m) = insert k (fst ` set m)" by (rule fst_set_om_put)
  moreover have "k < k' \<Longrightarrow> x \<in> fst ` set m \<Longrightarrow> k < x" for x
    using 2(2) by (fastforce simp: om_ok_def)
  ultimately show ?case using 2 by (auto simp: om_ok_def)
qed (simp add: om_ok_def)

lemma om_ok_distinct: "om_ok m \<Longrightarrow> distinct (map fst m)"
  by (simp add: om_ok_def strict_sorted_iff)

lemma om_ok_in_set: "om_ok m \<Longrightarrow> map_of m k = Some v \<longleftrightarrow> (k, v) \<in> set m"
  by (simp add: om_ok_distinct)

end
