(* ===== verification/WCDB_Data.thy ===== *)
theory WCDB_Data
  imports WCDB_Prelude
begin

unbundle bit_operations_syntax

text \<open>
  Buffers: \<open>src/src/common/base/UnsafeData.cpp\<close>, \<open>Data.cpp\<close> and \<open>MappedData.cpp\<close>.

  A buffer object is a pointer and a size.  The model keeps the allocation that the
  pointer points into (\<open>ud_mem\<close>), the position of the pointer in it (\<open>ud_off\<close>, from
  \<open>m_buffer\<close>), the size (\<open>m_size\<close>) and whether the allocation is the object's shared
  buffer (\<open>m_sharedBuffer != nullptr\<close>).  A view may claim more bytes than its
  allocation has; reading or writing outside of the allocation is \<open>None\<close>.
  \<open>malloc\<close> is a parameter: \<open>None\<close> when it fails, otherwise a block with arbitrary
  contents.
\<close>

section \<open>The buffer object\<close>

record udata =
  ud_mem :: "byte list"
  ud_off :: int
  ud_size :: nat
  ud_shared :: bool

text \<open>The null object: \<open>buffer()\<close> of a null pointer is the static one-byte \<open>s_empty\<close>.\<close>

definition ud_null :: udata where
  "ud_null = \<lparr>ud_mem = [0], ud_off = 0, ud_size = 0, ud_shared = False\<rparr>"

definition ud_empty :: "udata \<Rightarrow> bool" where
  "ud_empty d \<longleftrightarrow> ud_size d = 0"

text \<open>One byte through the pointer, \<open>n\<close> bytes through the pointer, and a write.\<close>

definition ud_byte :: "udata \<Rightarrow> int \<Rightarrow> byte option" where
  "ud_byte d i =
     (let j = ud_off d + i
      in if 0 \<le> j \<and> j < int (length (ud_mem d)) then Some (ud_mem d ! nat j) else None)"

definition ud_read :: "udata \<Rightarrow> int \<Rightarrow> nat \<Rightarrow> byte list option" where
  "ud_read d i n =
     (let j = ud_off d + i
      in if n = 0 then Some []
         else if 0 \<le> j \<and> j + int n \<le> int (length (ud_mem d))
         then Some (take n (drop (nat j) (ud_mem d))) else None)"

definition ud_write :: "udata \<Rightarrow> int \<Rightarrow> byte list \<Rightarrow> udata option" where
  "ud_write d i bs =
     (let j = ud_off d + i; n = length bs
      in if n = 0 then Some d
         else if 0 \<le> j \<and> j + int n \<le> int (length (ud_mem d))
         then Some (d\<lparr>ud_mem := take (nat j) (ud_mem d) @ bs @ drop (nat j + n) (ud_mem d)\<rparr>)
         else None)"

text \<open>\<open>UnsafeData::operator==\<close>: \<open>memcmp\<close> over the common size.\<close>

definition ud_eq :: "udata \<Rightarrow> udata \<Rightarrow> bool option" where
  "ud_eq a b =
     (if ud_size a \<noteq> ud_size b then Some False
      else if ud_size a > 0 then do {
        x \<leftarrow> ud_read a 0 (ud_size a);
        y \<leftarrow> ud_read b 0 (ud_size a);
        Some (x = y)
      } else Some True)"

text \<open>\<open>UnsafeData::immutable\<close>: a view on foreign memory, not shared.\<close>

definition ud_immutable :: "udata \<Rightarrow> int \<Rightarrow> nat \<Rightarrow> udata" where
  "ud_immutable d i n =
     \<lparr>ud_mem = ud_mem d, ud_off = ud_off d + i, ud_size = n, ud_shared = False\<rparr>"

text \<open>
  \<open>UnsafeData::subdata(offset, size)\<close>: the bound is checked against the size of the
  view, in \<open>size_t\<close> arithmetic; a violated remedial assertion returns the null object.
\<close>

definition ud_subdata :: "udata \<Rightarrow> int \<Rightarrow> nat \<Rightarrow> udata" where
  "ud_subdata d offset n =
     (if n = 0 then ud_null
      else if to_size (offset + int n) \<le> ud_size d
      then d\<lparr>ud_off := ud_off d + offset, ud_size := n\<rparr>
      else ud_null)"

definition ud_subdata_prefix :: "udata \<Rightarrow> nat \<Rightarrow> udata" where
  "ud_subdata_prefix d n = (if n \<le> ud_size d then ud_subdata d 0 n else ud_null)"

section \<open>The owning buffer\<close>

type_synonym allocator = "nat \<Rightarrow> byte list option"

text \<open>What the code relies on: a block that \<open>malloc\<close> returns has the size asked for.\<close>

definition malloc_ok :: "allocator \<Rightarrow> bool" where
  "malloc_ok malloc \<longleftrightarrow> (\<forall>n b. malloc n = Some b \<longrightarrow> length b = n)"

text \<open>
  \<open>Data::reset(buffer, size, highWater)\<close>.  With size 0 only the shared buffer is
  dropped: \<open>m_buffer\<close> and \<open>m_size\<close> keep their values.
\<close>

definition data_reset :: "allocator \<Rightarrow> udata \<Rightarrow> udata option \<Rightarrow> nat \<Rightarrow> (udata \<times> bool) option" where
  "data_reset malloc d src n =
     (if n = 0 then Some (d\<lparr>ud_shared := False\<rparr>, True)
      else case malloc n of
        None \<Rightarrow> Some (d, False)
      | Some block \<Rightarrow> do {
          mem \<leftarrow> (case src of None \<Rightarrow> Some block | Some s \<Rightarrow> ud_read s 0 n);
          Some (\<lparr>ud_mem = mem, ud_off = 0, ud_size = n, ud_shared = True\<rparr>, True)
        })"

text \<open>\<open>Data(const UnsafeData&)\<close> and assignment: share the buffer or copy the bytes.\<close>

definition data_of :: "allocator \<Rightarrow> udata \<Rightarrow> udata option" where
  "data_of malloc u =
     (if ud_shared u then Some u
      else map_option fst (data_reset malloc u (Some u) (ud_size u)))"

definition data_assign :: "allocator \<Rightarrow> udata \<Rightarrow> udata \<Rightarrow> udata option" where
  "data_assign malloc d u =
     (if ud_shared u then Some u
      else map_option fst (data_reset malloc d (Some u) (ud_size u)))"

text \<open>
  \<open>Data::resize\<close>: stay in the shared buffer when it is large enough, otherwise allocate
  and copy the old bytes; copying more than the new block has is undefined.
\<close>

definition data_resize :: "allocator \<Rightarrow> udata \<Rightarrow> nat \<Rightarrow> (udata \<times> bool) option" where
  "data_resize malloc d n =
     (if ud_shared d \<and> to_size (ud_off d + int n) \<le> length (ud_mem d)
      then Some (d\<lparr>ud_size := n\<rparr>, True)
      else do {
        (d', ok) \<leftarrow> data_reset malloc d None n;
        if \<not> ok then Some (d', False)
        else if ud_size d > 0 \<and> n > 0 then do {
          old \<leftarrow> ud_read d 0 (ud_size d);
          d'' \<leftarrow> ud_write d' 0 old;
          Some (d'', True)
        } else Some (d', True)
      })"

text \<open>
  \<open>Data::subdata(offset, size)\<close>: the bound is the shared buffer, not the view; without a
  shared buffer its size reads as 0 and the remedial assertion returns the null object.
\<close>

definition data_subdata :: "udata \<Rightarrow> int \<Rightarrow> nat \<Rightarrow> udata" where
  "data_subdata d offset n =
     (if n = 0 then ud_null
      else if ud_shared d \<and> to_size (ud_off d + offset + int n) \<le> length (ud_mem d)
      then d\<lparr>ud_off := ud_off d + offset, ud_size := n\<rparr>
      else ud_null)"

section \<open>Views inside their allocation\<close>

text \<open>
  A view is well formed when the bytes it claims lie in its allocation, and the
  allocation is small enough for \<open>offset_t\<close>.
\<close>

definition view_ok :: "udata \<Rightarrow> bool" where
  "view_ok d \<longleftrightarrow> 0 \<le> ud_off d \<and> ud_off d + int (ud_size d) \<le> int (length (ud_mem d))
     \<and> length (ud_mem d) < 4611686018427387904"

definition ud_bytes :: "udata \<Rightarrow> byte list" where
  "ud_bytes d = take (ud_size d) (drop (nat (ud_off d)) (ud_mem d))"

lemma ud_null_simps [simp]:
  "ud_size ud_null = 0" "ud_bytes ud_null = []" "ud_off ud_null = 0"
  "ud_shared ud_null = False" "ud_mem ud_null = [0]"
  by (simp_all add: ud_null_def ud_bytes_def)

lemma view_ok_null [simp, intro]: "view_ok ud_null"
  by (simp add: view_ok_def)

lemma ud_empty_null [simp]: "ud_empty ud_null"
  by (simp add: ud_empty_def)

lemma length_ud_bytes [view_simps]: "view_ok d \<Longrightarrow> length (ud_bytes d) = ud_size d"
  by (auto simp: ud_bytes_def view_ok_def)

lemma view_ok_size_bound: "view_ok d \<Longrightarrow> ud_size d < 4611686018427387904"
  by (auto simp: view_ok_def)

lemma ud_byte_in_view [view_simps]:
  assumes "view_ok d" "0 \<le> i" "i < int (ud_size d)"
  shows "ud_byte d i = Some (ud_bytes d ! nat i)"
proof -
  have "nat (ud_off d + i) = nat (ud_off d) + nat i"
    using assms by (simp add: view_ok_def nat_add_distrib)
  then show ?thesis
    using assms by (auto simp: ud_byte_def ud_bytes_def view_ok_def Let_def)
qed

lemma ud_read_in_view [view_simps]:
  assumes "view_ok d" "0 \<le> i" "i + int n \<le> int (ud_size d)"
  shows "ud_read d i n = Some (take n (drop (nat i) (ud_bytes d)))"
proof -
  have "nat (ud_off d + i) = nat (ud_off d) + nat i"
    using assms by (simp add: view_ok_def nat_add_distrib)
  moreover have "n \<le> ud_size d - nat i" using assms by linarith
  ultimately show ?thesis
    using assms by (auto simp: ud_read_def ud_bytes_def view_ok_def Let_def drop_take_drop
        add.commute min_def)
qed

lemma view_ok_subdata:
  assumes "view_ok d" "0 \<le> offset" "offset < size_max - 4611686018427387904"
    "int n < 4611686018427387904"
  shows "view_ok (ud_subdata d offset n)"
  using assms by (auto simp: ud_subdata_def view_ok_def to_size_nonneg size_max_def)

lemma ud_bytes_subdata [view_simps]:
  assumes "view_ok d" "0 \<le> offset" "offset + int n \<le> int (ud_size d)"
  shows "ud_bytes (ud_subdata d offset n) = take n (drop (nat offset) (ud_bytes d))"
proof (cases "n = 0")
  case False
  have "nat (ud_off d + offset) = nat (ud_off d) + nat offset"
    using assms by (simp add: view_ok_def nat_add_distrib)
  moreover have "n \<le> ud_size d - nat offset" using assms by linarith
  moreover have "to_size (offset + int n) \<le> ud_size d"
    using assms view_ok_size_bound [OF assms(1)] by (simp add: to_size_nonneg size_max_def)
  ultimately show ?thesis using False
    by (simp add: ud_subdata_def ud_bytes_def drop_take_drop add.commute)
qed (simp add: ud_subdata_def)

end
