(* ===== verification/WCDB_Varint.thy ===== *)
theory WCDB_Varint
  imports WCDB_Data
begin

unbundle bit_operations_syntax

text \<open>
  Variable-length integers: \<open>Deserialization::getVarint\<close> and the encoding computed by
  \<open>Serialization::putVarint\<close> in \<open>src/src/common/base/Serialization.cpp\<close>.

  \<open>getVarint\<close> is the unrolled decoder with its two 32-bit accumulators \<open>a\<close> and \<open>b\<close>
  and the 64-bit \<open>s\<close>; each assignment of the source is one \<open>let\<close>.  It is shown to
  be the byte-by-byte reference decoder \<open>varint_ref\<close> on every buffer, and the encoder is
  shown to be its inverse on every 64-bit value.
\<close>

section \<open>The decoder\<close>

definition isEnough :: "udata \<Rightarrow> int \<Rightarrow> bool" where
  "isEnough d n \<longleftrightarrow> to_size n \<le> ud_size d"

definition slot_2_0 :: u32 where "slot_2_0 = 0x001fc07f"

definition slot_4_2_0 :: u32 where "slot_4_2_0 = 0xf01fc07f"

definition getVarint :: "udata \<Rightarrow> int \<Rightarrow> (nat \<times> u64) option" where
  "getVarint d offset =
     (if \<not> isEnough d (offset + 1) then Some (0, 0) else do {
      p0 \<leftarrow> ud_byte d offset;
      let a = (ucast p0 :: u32);
      if a AND 0x80 = 0 then Some (1, ucast a) else
      if \<not> isEnough d (offset + 2) then Some (0, 0) else do {
      p1 \<leftarrow> ud_byte d (offset + 1);
      let b = (ucast p1 :: u32);
      if b AND 0x80 = 0 then
        let a = a AND 0x7f; a = push_bit 7 a; a = a OR b in Some (2, ucast a) else
      if \<not> isEnough d (offset + 3) then Some (0, 0) else do {
      p2 \<leftarrow> ud_byte d (offset + 2);
      let a = push_bit 14 a;
      let a = a OR ucast p2;
      if a AND 0x80 = 0 then
        let a = a AND slot_2_0; b = b AND 0x7f; b = push_bit 7 b; a = a OR b
        in Some (3, ucast a) else do {
      let a = a AND slot_2_0;
      if \<not> isEnough d (offset + 4) then Some (0, 0) else do {
      p3 \<leftarrow> ud_byte d (offset + 3);
      let b = push_bit 14 b;
      let b = b OR ucast p3;
      if b AND 0x80 = 0 then
        let b = b AND slot_2_0; a = push_bit 7 a; a = a OR b in Some (4, ucast a) else do {
      let b = b AND slot_2_0;
      let s = (ucast a :: u64);
      if \<not> isEnough d (offset + 5) then Some (0, 0) else do {
      p4 \<leftarrow> ud_byte d (offset + 4);
      let a = push_bit 14 a;
      let a = a OR ucast p4;
      if a AND 0x80 = 0 then
        let b = push_bit 7 b; a = a OR b; s = drop_bit 18 s
        in Some (5, push_bit 32 s OR ucast a) else do {
      let s = push_bit 7 s;
      let s = s OR ucast b;
      if \<not> isEnough d (offset + 6) then Some (0, 0) else do {
      p5 \<leftarrow> ud_byte d (offset + 5);
      let b = push_bit 14 b;
      let b = b OR ucast p5;
      if b AND 0x80 = 0 then
        let a = a AND slot_2_0; a = push_bit 7 a; a = a OR b; s = drop_bit 18 s
        in Some (6, push_bit 32 s OR ucast a) else
      if \<not> isEnough d (offset + 7) then Some (0, 0) else do {
      p6 \<leftarrow> ud_byte d (offset + 6);
      let a = push_bit 14 a;
      let a = a OR ucast p6;
      if a AND 0x80 = 0 then
        let a = a AND slot_4_2_0; b = b AND slot_2_0; b = push_bit 7 b; a = a OR b;
            s = drop_bit 11 s
        in Some (7, push_bit 32 s OR ucast a) else do {
      let a = a AND slot_2_0;
      if \<not> isEnough d (offset + 8) then Some (0, 0) else do {
      p7 \<leftarrow> ud_byte d (offset + 7);
      let b = push_bit 14 b;
      let b = b OR ucast p7;
      if b AND 0x80 = 0 then
        let b = b AND slot_4_2_0; a = push_bit 7 a; a = a OR b; s = drop_bit 4 s
        in Some (8, push_bit 32 s OR ucast a) else
      if \<not> isEnough d (offset + 9) then Some (0, 0) else do {
      p8 \<leftarrow> ud_byte d (offset + 8);
      let a = push_bit 15 a;
      let a = a OR ucast p8;
      let b = b AND slot_2_0;
      let b = push_bit 8 b;
      let a = a OR b;
      let s = push_bit 4 s;
      let b = (ucast p4 :: u32);
      let b = b AND 0x7f;
      let b = drop_bit 3 b;
      let s = s OR ucast b;
      Some (9, push_bit 32 s OR ucast a)
      }}}}}}}}}}}}})"

text \<open>
  The reference: eight groups of seven bits, most significant first, each with a
  continuation bit, then a ninth byte that contributes all of its eight bits.  A buffer
  that ends before the number does gives the failure value \<open>(0, 0)\<close>.
\<close>

fun varint_ref :: "nat \<Rightarrow> u64 \<Rightarrow> byte list \<Rightarrow> nat \<times> u64" where
  "varint_ref i acc [] = (0, 0)"
| "varint_ref i acc (p # ps) =
     (if i = 8 then (9, push_bit 8 acc OR ucast p)
      else let acc' = push_bit 7 acc OR ucast (p AND 0x7f)
           in if \<not> bit p 7 then (Suc i, acc') else varint_ref (Suc i) acc' ps)"

section \<open>The encoder\<close>

function varint_groups :: "u64 \<Rightarrow> byte list" where
  "varint_groups v =
     (let b = ucast ((v AND 0x7f) OR 0x80); v' = drop_bit 7 v
      in if v' \<noteq> 0 then b # varint_groups v' else [b])"
  by pat_completeness auto
termination
proof (relation "measure unat")
  fix b :: byte and v v' :: u64
  assume "v' = drop_bit 7 v" "v' \<noteq> 0"
  then have "unat v' \<noteq> 0" by (simp only: unat_eq_0) simp
  moreover have "unat v' = unat v div 128" using \<open>v' = _\<close> by (simp only: unat_drop_bit_7)
  ultimately show "(v', v) \<in> measure unat" by simp
qed auto

declare varint_groups.simps [simp del]

fun varint_high :: "nat \<Rightarrow> u64 \<Rightarrow> byte list" where
  "varint_high 0 v = []"
| "varint_high (Suc i) v = varint_high i (drop_bit 7 v) @ [ucast ((v AND 0x7f) OR 0x80)]"

definition varint_bytes :: "u64 \<Rightarrow> byte list" where
  "varint_bytes v =
     (if v \<le> 0x7f then [ucast (v AND 0x7f)]
      else if v \<le> 0x3fff then
        [ucast (((drop_bit 7 v) AND 0x7f) OR 0x80), ucast (v AND 0x7f)]
      else if v AND push_bit 32 0xff000000 \<noteq> 0 then
        varint_high 8 (drop_bit 8 v) @ [ucast v]
      else let buf = varint_groups v
           in rev (buf[0 := (buf ! 0) AND 0x7f]))"

text \<open>One step of the reference decoder on a byte with the continuation bit.\<close>

definition varint_step :: "u64 \<Rightarrow> byte \<Rightarrow> u64" where
  "varint_step acc p = push_bit 7 acc OR ucast (p AND 0x7f)"

section \<open>Reading through a view\<close>

lemma isEnough_view:
  assumes "view_ok d" "0 \<le> offset" "offset < 9223372036854775808" "0 < k" "k < 9223372036854775808"
  shows "isEnough d (offset + k) \<longleftrightarrow> nat k \<le> length (drop (nat offset) (ud_bytes d))"
proof -
  have "isEnough d (offset + k) \<longleftrightarrow> nat (offset + k) \<le> ud_size d"
    using assms by (simp add: isEnough_def to_size_nonneg size_max_def)
  also have "\<dots> \<longleftrightarrow> nat k \<le> ud_size d - nat offset"
    using assms by (simp add: nat_add_distrib) linarith
  finally show ?thesis using assms by (simp add: length_ud_bytes)
qed

lemma ud_byte_view:
  assumes "view_ok d" "0 \<le> offset" "0 \<le> k" "nat k < length (drop (nat offset) (ud_bytes d))"
  shows "ud_byte d (offset + k) = Some (drop (nat offset) (ud_bytes d) ! nat k)"
proof -
  have "nat offset + nat k < ud_size d" using assms by (simp add: length_ud_bytes)
  then have "offset + k < int (ud_size d)" using assms by linarith
  then show ?thesis
    using assms by (simp add: ud_byte_in_view length_ud_bytes nat_add_distrib)
qed

lemma ud_byte_view_0:
  assumes "view_ok d" "0 \<le> offset" "drop (nat offset) (ud_bytes d) = p # ps"
  shows "ud_byte d offset = Some p"
  using ud_byte_view [of d offset 0] assms by simp

lemmas varint_eval = getVarint_def slot_2_0_def slot_4_2_0_def ud_byte_view ud_byte_view_0
  isEnough_view and_0x80_eq_0 Let_def

section \<open>The decoder is the reference decoder\<close>

lemma getVarint_1:
  assumes "view_ok d" "0 \<le> offset" "offset < 4611686018427387904"
    "drop (nat offset) (ud_bytes d) = p0 # ps"
     "\<not> bit p0 7"
  shows "getVarint d offset = Some (varint_ref 0 0 (p0 # ps))"
  using assms
  by (simp add: varint_eval bit_simps)
    (rule word64_eq_by_bits, simp add: bit_simps, erule less_64E; simp add: bit_byte_ge_8)

lemma getVarint_2:
  assumes "view_ok d" "0 \<le> offset" "offset < 4611686018427387904"
    "drop (nat offset) (ud_bytes d) = p0 # p1 # ps"
    "bit p0 7" "\<not> bit p1 7"
  shows "getVarint d offset = Some (varint_ref 0 0 (p0 # p1 # ps))"
  using assms
  by (simp add: varint_eval bit_simps)
    (rule word64_eq_by_bits, simp add: bit_simps, erule less_64E; simp add: bit_byte_ge_8)

lemma getVarint_3:
  assumes "view_ok d" "0 \<le> offset" "offset < 4611686018427387904"
    "drop (nat offset) (ud_bytes d) = p0 # p1 # p2 # ps"
    "bit p0 7" "bit p1 7" "\<not> bit p2 7"
  shows "getVarint d offset = Some (varint_ref 0 0 (p0 # p1 # p2 # ps))"
  using assms
  by (simp add: varint_eval bit_simps)
    (rule word64_eq_by_bits, simp add: bit_simps, erule less_64E; simp add: bit_byte_ge_8)

lemma getVarint_4:
  assumes "view_ok d" "0 \<le> offset" "offset < 4611686018427387904"
    "drop (nat offset) (ud_bytes d) = p0 # p1 # p2 # p3 # ps"
    "bit p0 7" "bit p1 7" "bit p2 7" "\<not> bit p3 7"
  shows "getVarint d offset = Some (varint_ref 0 0 (p0 # p1 # p2 # p3 # ps))"
  using assms
  by (simp add: varint_eval bit_simps)
    (rule word64_eq_by_bits, simp add: bit_simps, erule less_64E; simp add: bit_byte_ge_8)

lemma getVarint_5:
  assumes "view_ok d" "0 \<le> offset" "offset < 4611686018427387904"
    "drop (nat offset) (ud_bytes d) = p0 # p1 # p2 # p3 # p4 # ps"
    "bit p0 7" "bit p1 7" "bit p2 7" "bit p3 7" "\<not> bit p4 7"
  shows "getVarint d offset = Some (varint_ref 0 0 (p0 # p1 # p2 # p3 # p4 # ps))"
  using assms
  by (simp add: varint_eval bit_simps)
    (rule word64_eq_by_bits, simp add: bit_simps, erule less_64E; simp add: bit_byte_ge_8)

lemma getVarint_6:
  assumes "view_ok d" "0 \<le> offset" "offset < 4611686018427387904"
    "drop (nat offset) (ud_bytes d) = p0 # p1 # p2 # p3 # p4 # p5 # ps"
    "bit p0 7" "bit p1 7" "bit p2 7" "bit p3 7" "bit p4 7" "\<not> bit p5 7"
  shows "getVarint d offset = Some (varint_ref 0 0 (p0 # p1 # p2 # p3 # p4 # p5 # ps))"
  using assms
  by (simp add: varint_eval bit_simps)
    (rule word64_eq_by_bits, simp add: bit_simps, erule less_64E; simp add: bit_byte_ge_8)

lemma getVarint_7:
  assumes "view_ok d" "0 \<le> offset" "offset < 4611686018427387904"
    "drop (nat offset) (ud_bytes d) = p0 # p1 # p2 # p3 # p4 # p5 # p6 # ps"
    "bit p0 7" "bit p1 7" "bit p2 7" "bit p3 7" "bit p4 7" "bit p5 7" "\<not> bit p6 7"
  shows "getVarint d offset = Some (varint_ref 0 0 (p0 # p1 # p2 # p3 # p4 # p5 # p6 # ps))"
  using assms
  by (simp add: varint_eval bit_simps)
    (rule word64_eq_by_bits, simp add: bit_simps, erule less_64E; simp add: bit_byte_ge_8)

lemma getVarint_8:
  assumes "view_ok d" "0 \<le> offset" "offset < 4611686018427387904"
    "drop (nat offset) (ud_bytes d) = p0 # p1 # p2 # p3 # p4 # p5 # p6 # p7 # ps"
    "bit p0 7" "bit p1 7" "bit p2 7" "bit p3 7" "bit p4 7" "bit p5 7" "bit p6 7" "\<not> bit p7 7"
  shows "getVarint d offset = Some (varint_ref 0 0 (p0 # p1 # p2 # p3 # p4 # p5 # p6 # p7 # ps))"
  using assms
  by (simp add: varint_eval bit_simps)
    (rule word64_eq_by_bits, simp add: bit_simps, erule less_64E; simp add: bit_byte_ge_8)

lemma getVarint_9:
  assumes "view_ok d" "0 \<le> offset" "offset < 4611686018427387904"
    "drop (nat offset) (ud_bytes d) = p0 # p1 # p2 # p3 # p4 # p5 # p6 # p7 # p8 # ps"
    "bit p0 7" "bit p1 7" "bit p2 7" "bit p3 7" "bit p4 7" "bit p5 7" "bit p6 7" "bit p7 7" 
  shows "getVarint d offset = Some (varint_ref 0 0 (p0 # p1 # p2 # p3 # p4 # p5 # p6 # p7 # p8 # ps))"
  using assms
  by (simp add: varint_eval bit_simps)
    (rule word64_eq_by_bits, simp add: bit_simps, erule less_64E; simp add: bit_byte_ge_8)

lemma list_length_le_8E:
  assumes "length ps \<le> 8"
  obtains "ps = []" | p0 where "ps = [p0]" | p0 p1 where "ps = [p0, p1]"
    | p0 p1 p2 where "ps = [p0, p1, p2]" | p0 p1 p2 p3 where "ps = [p0, p1, p2, p3]"
    | p0 p1 p2 p3 p4 where "ps = [p0, p1, p2, p3, p4]"
    | p0 p1 p2 p3 p4 p5 where "ps = [p0, p1, p2, p3, p4, p5]"
    | p0 p1 p2 p3 p4 p5 p6 where "ps = [p0, p1, p2, p3, p4, p5, p6]"
    | p0 p1 p2 p3 p4 p5 p6 p7 where "ps = [p0, p1, p2, p3, p4, p5, p6, p7]"
  using assms by (auto simp: numeral_eq_Suc le_Suc_eq length_Suc_conv)

lemma getVarint_short:
  assumes "view_ok d" "0 \<le> offset" "offset < 4611686018427387904"
    "drop (nat offset) (ud_bytes d) = ps" "length ps \<le> 8" "\<forall>p \<in> set ps. bit p 7"
  shows "getVarint d offset = Some (varint_ref 0 0 ps)"
  using assms(5)
  by (cases ps rule: list_length_le_8E) (use assms in \<open>simp_all add: varint_eval bit_simps\<close>)

lemma continuation_cases:
  fixes ps :: "byte list"
  obtains (short) "length ps \<le> 8" "\<forall>p \<in> set ps. bit p 7"
    | (stop) qs p rs where "ps = qs @ p # rs" "\<forall>p \<in> set qs. bit p 7" "length qs < 8" "\<not> bit p 7"
    | (nine) qs p rs where "ps = qs @ p # rs" "\<forall>p \<in> set qs. bit p 7" "length qs = 8"
proof (cases "8 < length ps \<and> (\<forall>p \<in> set (take 8 ps). bit p 7)")
  case True
  then have "ps = take 8 ps @ ps ! 8 # drop 9 ps" "length (take 8 ps) = 8"
    using id_take_nth_drop [of 8 ps] by simp_all
  with True show ?thesis by (intro nine) auto
next
  case False
  show ?thesis
  proof (cases "\<exists>p \<in> set ps. \<not> bit p 7")
    case True
    then obtain qs p rs where ps: "ps = qs @ p # rs" "\<forall>q \<in> set qs. bit q 7" "\<not> bit p 7"
      using split_list_first_prop [of ps "\<lambda>p. \<not> bit p 7"] by auto
    have "length qs < 8"
    proof (rule ccontr)
      assume "\<not> length qs < 8"
      with False ps show False by (auto dest: in_set_takeD)
    qed
    with ps show ?thesis by (intro stop) auto
  next
    case none: False
    with False have "length ps \<le> 8" by (auto dest: in_set_takeD)
    with none show ?thesis by (intro short) auto
  qed
qed

lemmas getVarint_stops = getVarint_1 getVarint_2 getVarint_3 getVarint_4 getVarint_5 getVarint_6
  getVarint_7 getVarint_8

lemma getVarint_eq_ref:
  assumes "view_ok d" "0 \<le> offset" "offset < 4611686018427387904"
  shows "getVarint d offset = Some (varint_ref 0 0 (drop (nat offset) (ud_bytes d)))"
proof (cases "drop (nat offset) (ud_bytes d)" rule: continuation_cases)
  case short
  then show ?thesis using assms by (simp add: getVarint_short)
next
  case (stop qs p rs)
  then have "length qs \<le> 8" by simp
  then show ?thesis
    by (cases qs rule: list_length_le_8E)
      (use stop assms in \<open>simp_all add: getVarint_stops del: varint_ref.simps\<close>)
next
  case (nine qs p rs)
  then obtain p0 p1 p2 p3 p4 p5 p6 p7 where "qs = [p0, p1, p2, p3, p4, p5, p6, p7]"
    by (auto simp: numeral_eq_Suc length_Suc_conv)
  then show ?thesis using nine assms by (simp add: getVarint_9 del: varint_ref.simps)
qed
section \<open>The encoder is inverse to the decoder\<close>

lemma varint_ref_cont:
  "\<forall>p \<in> set cs. bit p 7 \<Longrightarrow> i + length cs \<le> 8 \<Longrightarrow>
   varint_ref i acc (cs @ ps) = varint_ref (i + length cs) (foldl varint_step acc cs) ps"
  by (induction cs arbitrary: i acc) (auto simp: Let_def varint_step_def)

lemma bit_group_7: "bit (ucast ((v AND 0x7f) OR 0x80 :: u64) :: byte) 7"
  by (simp add: bit_simps)

lemma varint_step_group: "varint_step acc (ucast ((v AND 0x7f) OR 0x80 :: u64)) = push_bit 7 acc OR (v AND 0x7f)"
  by (rule bit_word_eqI) (auto simp: varint_step_def bit_simps)

lemma low_high_7: "push_bit 7 (drop_bit 7 v) OR (v AND 0x7f) = (v :: u64)"
  by (rule bit_word_eqI) (auto simp: bit_simps)

lemma low_only_7: "drop_bit 7 v = 0 \<Longrightarrow> v AND 0x7f = (v :: u64)"
  using low_high_7 [of v] by simp

lemma low_7_byte:
  "ucast (ucast (v AND 0x7f :: u64) AND 0x7f :: byte) = v AND (0x7f :: u64)"
  "ucast (ucast ((v AND 0x7f) OR 0x80 :: u64) AND 0x7f :: byte) = v AND (0x7f :: u64)"
  by (rule bit_word_eqI, auto simp: bit_simps)+

lemma varint_groups_cont: "p \<in> set (varint_groups v) \<Longrightarrow> bit p 7"
proof (induction v rule: varint_groups.induct)
  case (1 v)
  then show ?case
    by (subst (asm) varint_groups.simps) (auto simp: bit_group_7 Let_def split: if_splits)
qed

lemma foldl_varint_groups: "foldl varint_step 0 (rev (varint_groups v)) = v"
proof (induction v rule: varint_groups.induct)
  case (1 v)
  then show ?case
    by (simp add: varint_groups.simps [of v] varint_step_group low_high_7 Let_def)
      (metis low_only_7 or.left_neutral push_bit_of_0)
qed

lemma length_varint_groups: "drop_bit (7 * Suc k) v = 0 \<Longrightarrow> length (varint_groups v) \<le> Suc k"
proof (induction k arbitrary: v)
  case 0
  then show ?case by (simp add: varint_groups.simps [of v])
next
  case (Suc k)
  then have "length (varint_groups (drop_bit 7 v)) \<le> Suc k"
    by (simp add: drop_bit_drop_bit add.commute)
  then show ?case by (simp add: varint_groups.simps [of v] Let_def)
qed

lemma varint_groups_Cons:
  "\<exists>bs. varint_groups v = ucast ((v AND 0x7f) OR 0x80) # bs \<and>
        foldl varint_step 0 (rev bs) = drop_bit 7 v \<and> set bs \<subseteq> set (varint_groups v)"
proof (cases "drop_bit 7 v = 0")
  case True
  then show ?thesis by (simp add: varint_groups.simps [of v])
next
  case False
  then show ?thesis
    using foldl_varint_groups [of "drop_bit 7 v"] by (auto simp: varint_groups.simps [of v])
qed

lemma length_varint_high [simp]: "length (varint_high k v) = k"
  by (induction k arbitrary: v) auto

lemma varint_high_cont: "p \<in> set (varint_high k v) \<Longrightarrow> bit p 7"
  by (induction k arbitrary: v) (auto simp: bit_group_7)

lemma foldl_varint_high: "drop_bit (7 * k) v = 0 \<Longrightarrow> foldl varint_step 0 (varint_high k v) = v"
proof (induction k arbitrary: v)
  case (Suc k)
  then have "foldl varint_step 0 (varint_high k (drop_bit 7 v)) = drop_bit 7 v"
    by (simp add: drop_bit_drop_bit add.commute)
  then show ?case using low_high_7 [of v] by (simp add: varint_step_group)
qed simp

lemma high_byte_zero: "v AND push_bit 32 0xff000000 = 0 \<Longrightarrow> drop_bit 56 (v :: u64) = 0"
proof (rule bit_word_eqI)
  fix n :: nat
  assume v: "v AND push_bit 32 0xff000000 = 0" and "n < LENGTH(64)"
  show "bit (drop_bit 56 v) n = bit 0 n"
  proof (cases "n < 8")
    case True
    have "\<not> bit (v AND push_bit 32 0xff000000) (56 + n)" using v by simp
    moreover from True have "n = 0 \<or> n = 1 \<or> n = 2 \<or> n = 3 \<or> n = 4 \<or> n = 5 \<or> n = 6 \<or> n = 7"
      by arith
    then have "bit (push_bit 32 0xff000000 :: u64) (56 + n)" by (elim disjE) simp_all
    ultimately show ?thesis by (simp add: bit_simps)
  qed (use bit_imp_le_length [of v "56 + n"] in \<open>auto simp: bit_simps\<close>)
qed

lemma varint_ref_bytes:
  "varint_ref 0 0 (varint_bytes v @ ps) = (length (varint_bytes v), v)"
proof -
  consider (one) "v \<le> 0x7f" | (two) "\<not> v \<le> 0x7f" "v \<le> 0x3fff"
    | (nine) "\<not> v \<le> 0x7f" "\<not> v \<le> 0x3fff" "v AND push_bit 32 0xff000000 \<noteq> 0"
    | (more) "\<not> v \<le> 0x7f" "\<not> v \<le> 0x3fff" "v AND push_bit 32 0xff000000 = 0"
    by blast
  then show ?thesis
  proof cases
    case one
    then have "drop_bit 7 v = 0" 
      by (simp add: word_le_nat_alt  unat_drop_bit_eq flip: unat_eq_0) (simp add: drop_bit_eq_div)
    then have "v AND 0x7f = v" and "\<not> bit v 7"
      using bit_drop_bit_eq [of 7 v] by (auto simp: low_only_7 fun_eq_iff dest: spec [of _ 0])
    with one show ?thesis
      using low_7_byte(1) [of v] by (simp add: varint_bytes_def bit_simps)
  next
    case two
    then have "drop_bit 14 v = 0"
      by (simp add: word_le_nat_alt  unat_drop_bit_eq flip: unat_eq_0) (simp add: drop_bit_eq_div)
    then have "drop_bit 7 v AND 0x7f = drop_bit 7 v"
      by (intro low_only_7) (simp add: drop_bit_drop_bit)
    then show ?thesis
      using two low_high_7 [of v] low_7_byte(1) [of v] low_7_byte(2) [of "drop_bit 7 v"]
      by (simp add: varint_bytes_def bit_simps)
  next
    case nine
    let ?w = "drop_bit 8 v"
    have "drop_bit (7 * 8) ?w = 0"
      by (rule bit_word_eqI) (auto simp: bit_simps dest: bit_imp_le_length)
    then have "foldl varint_step 0 (varint_high 8 ?w) = ?w" by (rule foldl_varint_high)
    moreover have "push_bit 8 ?w OR ucast (ucast v :: byte) = v"
      by (rule bit_word_eqI) (auto simp: bit_simps)
    ultimately show ?thesis using nine
      by (simp add: varint_bytes_def varint_ref_cont varint_high_cont)
  next
    case more
    obtain bs where bs: "varint_groups v = ucast ((v AND 0x7f) OR 0x80) # bs"
        "foldl varint_step 0 (rev bs) = drop_bit 7 v" "set bs \<subseteq> set (varint_groups v)"
      using varint_groups_Cons by blast
    have "drop_bit (7 * Suc 7) v = 0" using high_byte_zero [OF more(3)] by simp
    then have "length bs \<le> 7" using length_varint_groups [of 7 v] bs(1) by simp
    then show ?thesis
      using more bs varint_groups_cont [of _ v] low_high_7 [of v] low_7_byte [of v]
      by (auto simp add: varint_bytes_def varint_ref_cont bit_simps)
  qed
qed

end
