(* ===== verification/WCDB_Serialization.thy ===== *)
theory WCDB_Serialization
  imports WCDB_Varint
begin

unbundle bit_operations_syntax

text \<open>
  \<open>src/src/common/base/Serialization.cpp\<close>: the writer \<open>Serialization\<close>, the reader
  \<open>Deserialization\<close> and the cursor arithmetic of their base class
  \<open>SerializeIteration\<close>.

  A writer is its buffer and its cursor; every operation returns the code's result and
  the new writer, and is \<open>None\<close> if it writes outside of the buffer.  A reader is its
  view, its cursor and the data version.  A \<open>double\<close> is its 64-bit pattern.
  The locales \<open>put_op\<close> and \<open>get_op\<close> state what all the writing and all the reading
  operations have in common; \<open>codec\<close> joins them and gives the round trip.
\<close>

section \<open>Cursor arithmetic\<close>

definition iter_seek :: "nat \<Rightarrow> int \<Rightarrow> int" where
  "iter_seek cap position =
     (if position < 0 then max 0 (to_off cap + position + 1)
      else min (to_off cap) position)"

definition iter_canAdvance :: "nat \<Rightarrow> int \<Rightarrow> int \<Rightarrow> bool" where
  "iter_canAdvance cap cursor n \<longleftrightarrow> to_size (cursor + n) \<le> cap"

definition iter_ended :: "nat \<Rightarrow> int \<Rightarrow> bool" where
  "iter_ended cap cursor \<longleftrightarrow> cursor = to_off cap"

section \<open>The writer\<close>

record serialization =
  ss_data :: udata
  ss_cursor :: int

definition ss_init :: serialization where
  "ss_init = \<lparr>ss_data = ud_null, ss_cursor = 0\<rparr>"

definition ss_seek :: "int \<Rightarrow> serialization \<Rightarrow> serialization" where
  "ss_seek position s = s\<lparr>ss_cursor := iter_seek (ud_size (ss_data s)) position\<rparr>"

definition ss_advance :: "int \<Rightarrow> serialization \<Rightarrow> serialization" where
  "ss_advance offset s = ss_seek (ss_cursor s + offset) s"

definition ss_resize :: "allocator \<Rightarrow> nat \<Rightarrow> serialization \<Rightarrow> (bool \<times> serialization) option" where
  "ss_resize malloc n s =
     (if n < ud_size (ss_data s) then Some (True, s)
      else do {
        (d, ok) \<leftarrow> data_resize malloc (ss_data s) (max n (to_size (int (ud_size (ss_data s)) * 2)));
        Some (ok, s\<lparr>ss_data := d\<rparr>)
      })"

definition ss_expand :: "allocator \<Rightarrow> nat \<Rightarrow> serialization \<Rightarrow> (bool \<times> serialization) option" where
  "ss_expand malloc n s = ss_resize malloc (to_size (ss_cursor s + int n)) s"

text \<open>Store bytes at \<open>pointee()\<close>.\<close>

definition ss_store :: "byte list \<Rightarrow> serialization \<Rightarrow> serialization option" where
  "ss_store bs s = map_option (\<lambda>d. s\<lparr>ss_data := d\<rparr>) (ud_write (ss_data s) (ss_cursor s) bs)"

definition be32 :: "u32 \<Rightarrow> byte list" where
  "be32 v = [ucast (drop_bit 24 v), ucast (drop_bit 16 v), ucast (drop_bit 8 v), ucast v]"

definition put4BytesUInt :: "allocator \<Rightarrow> u32 \<Rightarrow> serialization \<Rightarrow> (bool \<times> serialization) option" where
  "put4BytesUInt malloc v s = do {
     (ok, s) \<leftarrow> ss_expand malloc 4 s;
     if \<not> ok then Some (False, s) else do {
       s \<leftarrow> ss_store (be32 v) s;
       Some (True, ss_advance 4 s)
     }
   }"

definition put8BytesUInt :: "allocator \<Rightarrow> u64 \<Rightarrow> serialization \<Rightarrow> (bool \<times> serialization) option" where
  "put8BytesUInt malloc v s = do {
     let cursor = ss_cursor s;
     (ok, s) \<leftarrow> put4BytesUInt malloc (ucast (drop_bit 32 v)) s;
     (ok, s) \<leftarrow> (if \<not> ok then Some (False, s) else put4BytesUInt malloc (ucast v) s);
     if \<not> ok then Some (False, ss_seek cursor s) else Some (True, s)
   }"

text \<open>\<open>putString\<close> copies the characters and the terminator and leaves the cursor.\<close>

definition putString :: "allocator \<Rightarrow> byte list \<Rightarrow> serialization \<Rightarrow> (bool \<times> serialization) option" where
  "putString malloc str s = do {
     (ok, s) \<leftarrow> ss_expand malloc (length str + 1) s;
     if \<not> ok then Some (False, s) else do {
       s \<leftarrow> ss_store (str @ [0]) s;
       Some (True, s)
     }
   }"

definition putVarint :: "allocator \<Rightarrow> u64 \<Rightarrow> serialization \<Rightarrow> (nat \<times> serialization) option" where
  "putVarint malloc v s = do {
     (ok, s) \<leftarrow> ss_expand malloc 9 s;
     if \<not> ok then Some (0, s) else do {
       let bs = varint_bytes v;
       s \<leftarrow> ss_store bs s;
       Some (length bs, ss_advance (int (length bs)) s)
     }
   }"

text \<open>The shared body of \<open>putSizedString\<close> and \<open>putSizedData\<close>; both return true always.\<close>

definition putSizedString :: "allocator \<Rightarrow> byte list \<Rightarrow> serialization \<Rightarrow> (bool \<times> serialization) option" where
  "putSizedString malloc str s = do {
     let cursor = ss_cursor s;
     (lengthOfSize, s) \<leftarrow> putVarint malloc (word_of_nat (length str)) s;
     (succeed, s) \<leftarrow> (if lengthOfSize = 0 then Some (False, s) else do {
        (ok, s) \<leftarrow> ss_expand malloc (length str) s;
        if \<not> ok then Some (False, s) else do {
          s \<leftarrow> ss_store str s;
          Some (True, ss_advance (int (length str)) s)
        }
     });
     Some (True, if succeed then s else ss_seek cursor s)
   }"

definition putSizedData :: "allocator \<Rightarrow> udata \<Rightarrow> serialization \<Rightarrow> (bool \<times> serialization) option" where
  "putSizedData malloc data s = do {
     let cursor = ss_cursor s;
     (lengthOfSize, s) \<leftarrow> putVarint malloc (word_of_nat (ud_size data)) s;
     (succeed, s) \<leftarrow> (if lengthOfSize = 0 then Some (False, s) else do {
        (ok, s) \<leftarrow> ss_expand malloc (ud_size data) s;
        if \<not> ok then Some (False, s) else do {
          bs \<leftarrow> ud_read data 0 (ud_size data);
          s \<leftarrow> ss_store bs s;
          Some (True, ss_advance (int (ud_size data)) s)
        }
     });
     Some (True, if succeed then s else ss_seek cursor s)
   }"

definition ss_finalize :: "serialization \<Rightarrow> udata" where
  "ss_finalize s = data_subdata (ss_data s) 0 (to_size (ss_cursor s))"

section \<open>The reader\<close>

record deserialization =
  ds_data :: udata
  ds_cursor :: int
  ds_version :: u32

definition ds_init :: "udata \<Rightarrow> deserialization" where
  "ds_init d = \<lparr>ds_data = d, ds_cursor = 0, ds_version = 0\<rparr>"

definition ds_reset :: "udata \<Rightarrow> deserialization \<Rightarrow> deserialization" where
  "ds_reset d r = r\<lparr>ds_data := d, ds_cursor := 0\<rparr>"

definition ds_seek :: "int \<Rightarrow> deserialization \<Rightarrow> deserialization" where
  "ds_seek position r = r\<lparr>ds_cursor := iter_seek (ud_size (ds_data r)) position\<rparr>"

definition ds_advance :: "int \<Rightarrow> deserialization \<Rightarrow> deserialization" where
  "ds_advance offset r = ds_seek (ds_cursor r + offset) r"

definition ds_canAdvance :: "int \<Rightarrow> deserialization \<Rightarrow> bool" where
  "ds_canAdvance n r = iter_canAdvance (ud_size (ds_data r)) (ds_cursor r) n"

definition ds_isEnough :: "int \<Rightarrow> deserialization \<Rightarrow> bool" where
  "ds_isEnough n r = isEnough (ds_data r) n"

definition ds_ended :: "deserialization \<Rightarrow> bool" where
  "ds_ended r = iter_ended (ud_size (ds_data r)) (ds_cursor r)"

definition get1ByteInt :: "udata \<Rightarrow> int \<Rightarrow> int option" where
  "get1ByteInt d offset = map_option sint (ud_byte d offset)"

definition get2BytesInt :: "udata \<Rightarrow> int \<Rightarrow> int option" where
  "get2BytesInt d offset = do {
     p0 \<leftarrow> ud_byte d offset;
     p1 \<leftarrow> ud_byte d (offset + 1);
     Some ((256 * sint p0) OR uint p1)
   }"

definition get3BytesInt :: "udata \<Rightarrow> int \<Rightarrow> int option" where
  "get3BytesInt d offset = do {
     p0 \<leftarrow> ud_byte d offset;
     p1 \<leftarrow> ud_byte d (offset + 1);
     p2 \<leftarrow> ud_byte d (offset + 2);
     Some ((65536 * sint p0) OR push_bit 8 (uint p1) OR uint p2)
   }"

definition get4BytesInt :: "udata \<Rightarrow> int \<Rightarrow> int option" where
  "get4BytesInt d offset = do {
     p0 \<leftarrow> ud_byte d offset;
     p1 \<leftarrow> ud_byte d (offset + 1);
     p2 \<leftarrow> ud_byte d (offset + 2);
     p3 \<leftarrow> ud_byte d (offset + 3);
     Some ((16777216 * sint p0) OR push_bit 16 (uint p1) OR push_bit 8 (uint p2) OR uint p3)
   }"

definition get4BytesUInt :: "udata \<Rightarrow> int \<Rightarrow> u32 option" where
  "get4BytesUInt d offset = do {
     p0 \<leftarrow> ud_byte d offset;
     p1 \<leftarrow> ud_byte d (offset + 1);
     p2 \<leftarrow> ud_byte d (offset + 2);
     p3 \<leftarrow> ud_byte d (offset + 3);
     Some (push_bit 24 (ucast p0) OR push_bit 16 (ucast p1) OR push_bit 8 (ucast p2) OR ucast p3)
   }"

definition get6BytesInt :: "udata \<Rightarrow> int \<Rightarrow> int option" where
  "get6BytesInt d offset = do {
     y \<leftarrow> get4BytesUInt d (offset + 2);
     x \<leftarrow> get2BytesInt d offset;
     Some (uint y + 4294967296 * x)
   }"

definition get8BytesInt :: "udata \<Rightarrow> int \<Rightarrow> int option" where
  "get8BytesInt d offset = do {
     x \<leftarrow> get4BytesUInt d offset;
     y \<leftarrow> get4BytesUInt d (offset + 4);
     Some (sint (push_bit 32 (ucast x :: u64) + ucast y))
   }"

definition get8BytesDouble :: "udata \<Rightarrow> int \<Rightarrow> u64 option" where
  "get8BytesDouble d offset = do {
     x \<leftarrow> get4BytesUInt d offset;
     y \<leftarrow> get4BytesUInt d (offset + 4);
     Some (push_bit 32 (ucast x) + ucast y)
   }"

definition getString :: "udata \<Rightarrow> int \<Rightarrow> nat \<Rightarrow> byte list option" where
  "getString d offset n = (if n = 0 then Some [] else ud_read d offset n)"

definition getData :: "udata \<Rightarrow> int \<Rightarrow> nat \<Rightarrow> udata" where
  "getData d offset n = ud_immutable d offset n"

definition getSizedString :: "udata \<Rightarrow> int \<Rightarrow> (nat \<times> byte list) option" where
  "getSizedString d offset = do {
     (lengthOfSize, n) \<leftarrow> getVarint d offset;
     if lengthOfSize = 0 \<or> \<not> isEnough d (offset + int lengthOfSize + uint n) then Some (0, [])
     else do {
       str \<leftarrow> getString d (offset + int lengthOfSize) (unat n);
       Some (to_size (int lengthOfSize + uint n), str)
     }
   }"

definition getSizedData :: "udata \<Rightarrow> int \<Rightarrow> (nat \<times> udata) option" where
  "getSizedData d offset = do {
     (lengthOfSize, n) \<leftarrow> getVarint d offset;
     if lengthOfSize = 0 \<or> \<not> isEnough d (offset + int lengthOfSize + uint n) then Some (0, ud_null)
     else Some (to_size (int lengthOfSize + uint n),
                getData d (offset + int lengthOfSize) (unat n))
   }"

text \<open>The \<open>advance\<close> operations: read at the cursor, then move it.\<close>

definition advance_read :: "(udata \<Rightarrow> int \<Rightarrow> 'a option) \<Rightarrow> int \<Rightarrow> deserialization \<Rightarrow> ('a \<times> deserialization) option" where
  "advance_read get n r = do {
     v \<leftarrow> get (ds_data r) (ds_cursor r);
     Some (v, ds_advance n r)
   }"

definition advance_pair ::
  "(udata \<Rightarrow> int \<Rightarrow> (nat \<times> 'a) option) \<Rightarrow> deserialization \<Rightarrow> ((nat \<times> 'a) \<times> deserialization) option" where
  "advance_pair get r = do {
     (n, v) \<leftarrow> get (ds_data r) (ds_cursor r);
     Some ((n, v), if n > 0 then ds_advance (to_off n) r else r)
   }"

definition advanceVarint :: "deserialization \<Rightarrow> ((nat \<times> u64) \<times> deserialization) option" where
  "advanceVarint = advance_pair getVarint"

definition advanceSizedString :: "deserialization \<Rightarrow> ((nat \<times> byte list) \<times> deserialization) option" where
  "advanceSizedString = advance_pair getSizedString"

definition advanceSizedData :: "deserialization \<Rightarrow> ((nat \<times> udata) \<times> deserialization) option" where
  "advanceSizedData = advance_pair getSizedData"

definition advance1ByteInt :: "deserialization \<Rightarrow> (int \<times> deserialization) option" where
  "advance1ByteInt = advance_read get1ByteInt 1"

definition advance2BytesInt :: "deserialization \<Rightarrow> (int \<times> deserialization) option" where
  "advance2BytesInt = advance_read get2BytesInt 2"

definition advance3BytesInt :: "deserialization \<Rightarrow> (int \<times> deserialization) option" where
  "advance3BytesInt = advance_read get3BytesInt 3"

definition advance4BytesInt :: "deserialization \<Rightarrow> (int \<times> deserialization) option" where
  "advance4BytesInt = advance_read get4BytesInt 4"

definition advance6BytesInt :: "deserialization \<Rightarrow> (int \<times> deserialization) option" where
  "advance6BytesInt = advance_read get6BytesInt 6"

definition advance8BytesInt :: "deserialization \<Rightarrow> (int \<times> deserialization) option" where
  "advance8BytesInt = advance_read get8BytesInt 8"

definition advance8BytesDouble :: "deserialization \<Rightarrow> (u64 \<times> deserialization) option" where
  "advance8BytesDouble = advance_read get8BytesDouble 8"

definition advance4BytesUInt :: "deserialization \<Rightarrow> (u32 \<times> deserialization) option" where
  "advance4BytesUInt = advance_read get4BytesUInt 4"

section \<open>Allocation and growth\<close>

definition malloc_total :: "allocator \<Rightarrow> bool" where
  "malloc_total malloc \<longleftrightarrow> malloc_ok malloc \<and> (\<forall>n. 0 < n \<and> n \<le> 2305843009213693952 \<longrightarrow> malloc n \<noteq> None)"

definition owned :: "udata \<Rightarrow> bool" where
  "owned d \<longleftrightarrow> ud_off d = 0 \<and> ud_size d \<le> 2305843009213693952
     \<and> (if ud_shared d then length (ud_mem d) = ud_size d else d = ud_null)"

lemma malloc_total_ok: "malloc_total malloc \<Longrightarrow> malloc_ok malloc"
  by (simp add: malloc_total_def)

lemma owned_view_ok: "owned d \<Longrightarrow> view_ok d"
  by (auto simp: owned_def view_ok_def split: if_splits)

lemma owned_length: "owned d \<Longrightarrow> ud_size d \<le> length (ud_mem d)"
  by (auto simp: owned_def split: if_splits)

lemma data_resize_owned:
  assumes "malloc_ok malloc" "owned d" "ud_size d \<le> n" "n \<le> 2305843009213693952"
  obtains (ok) d' where "data_resize malloc d n = Some (d', True)" "owned d'" "ud_size d' = n"
      "take (ud_size d) (ud_mem d') = take (ud_size d) (ud_mem d)"
    | (fail) "data_resize malloc d n = Some (d, False)" "malloc n = None" "0 < n"
proof (cases "ud_shared d \<and> to_size (ud_off d + int n) \<le> length (ud_mem d)")
  case True
  then have "n = ud_size d"
    using assms by (auto simp: owned_def to_size_nonneg size_max_def)
  then show ?thesis using True assms by (intro ok [of d]) (auto simp: data_resize_def)
next
  case False
  show ?thesis
  proof (cases "n = 0")
    case True
    with False assms have "d = ud_null"
      by (auto simp: owned_def to_size_def split: if_splits)
    with True show ?thesis
      by (intro ok [of d]) (auto simp: data_resize_def data_reset_def owned_def ud_null_def)
  next
    case n: False
    show ?thesis
    proof (cases "malloc n")
      case None
      with False n show ?thesis by (intro fail) (auto simp: data_resize_def data_reset_def)
    next
      case (Some block)
      with assms(1) have len: "length block = n" by (auto simp: malloc_ok_def)
      let ?old = "take (ud_size d) (ud_mem d)"
      let ?d = "\<lparr>ud_mem = ?old @ drop (ud_size d) block, ud_off = 0, ud_size = n, ud_shared = True\<rparr>"
      have "data_resize malloc d n = Some (?d, True)"
        using False n Some len assms owned_length [OF assms(2)]
        by (auto simp: data_resize_def data_reset_def ud_read_def ud_write_def owned_def min_def
            Let_def split: if_splits)
      moreover have "owned ?d" using len assms owned_length [OF assms(2)]
        by (auto simp: owned_def)
      ultimately show ?thesis using owned_length [OF assms(2)] by (intro ok [of ?d]) auto
    qed
  qed
qed

section \<open>The writer's invariant\<close>

definition ss_ok :: "serialization \<Rightarrow> bool" where
  "ss_ok s \<longleftrightarrow> owned (ss_data s) \<and> 0 \<le> ss_cursor s \<and> ss_cursor s \<le> int (ud_size (ss_data s))"

definition room :: "nat \<Rightarrow> serialization \<Rightarrow> bool" where
  "room n s \<longleftrightarrow> ss_cursor s + int n \<le> 1152921504606846976"

text \<open>What has been written: the bytes before the cursor.\<close>

definition written :: "serialization \<Rightarrow> byte list" where
  "written s = take (nat (ss_cursor s)) (ud_mem (ss_data s))"

lemma ss_ok_init [simp]: "ss_ok ss_init"
  by (simp add: ss_ok_def ss_init_def owned_def)

lemma written_init [simp]: "written ss_init = []"
  by (simp add: written_def ss_init_def)

lemma length_written: "ss_ok s \<Longrightarrow> length (written s) = nat (ss_cursor s)"
  using owned_length [of "ss_data s"] by (auto simp: written_def ss_ok_def)

lemma take_cursor_eq:
  "ss_ok s \<Longrightarrow> take (ud_size (ss_data s)) m = take (ud_size (ss_data s)) (ud_mem (ss_data s))
   \<Longrightarrow> take (nat (ss_cursor s)) m = written s"
proof -
  assume s: "ss_ok s" and eq: "take (ud_size (ss_data s)) m = take (ud_size (ss_data s)) (ud_mem (ss_data s))"
  have le: "nat (ss_cursor s) \<le> ud_size (ss_data s)" using s by (auto simp: ss_ok_def)
  have "take (nat (ss_cursor s)) m = take (nat (ss_cursor s)) (take (ud_size (ss_data s)) m)"
    using le by (simp add: min_absorb1)
  also have "\<dots> = written s" using le by (simp add: eq written_def min_absorb1)
  finally show ?thesis .
qed

lemma ss_expand_cases:
  assumes "malloc_ok malloc" "ss_ok s" "room n s"
  obtains (ok) s' where "ss_expand malloc n s = Some (True, s')" "ss_ok s'"
      "ss_cursor s' = ss_cursor s" "written s' = written s"
      "ss_cursor s + int n \<le> int (ud_size (ss_data s'))"
    | (fail) "ss_expand malloc n s = Some (False, s)" "\<not> malloc_total malloc"
proof -
  let ?n = "nat (ss_cursor s + int n)" and ?size = "ud_size (ss_data s)"
  have n: "to_size (ss_cursor s + int n) = ?n"
    using assms by (intro to_size_nonneg) (auto simp: ss_ok_def room_def size_max_def)
  have size: "to_size (int ?size * 2) = ?size * 2"
    using assms by (subst to_size_nonneg) (auto simp: ss_ok_def owned_def size_max_def)
  show ?thesis
  proof (cases "?n < ?size")
    case True
    then show ?thesis using assms n by (intro ok [of s]) (auto simp: ss_expand_def ss_resize_def)
  next
    case False
    let ?m = "max ?n (?size * 2)"
    have m: "?size \<le> ?m" "?m \<le> 2305843009213693952" "?n \<le> ?m"
      using False assms by (auto simp: room_def ss_ok_def)
    have owned: "owned (ss_data s)" using assms by (simp add: ss_ok_def)
    from assms(1) owned m(1,2) show ?thesis
    proof (cases rule: data_resize_owned)
      case ok': (ok d')
      have "written (s\<lparr>ss_data := d'\<rparr>) = written s"
        using take_cursor_eq [OF assms(2) ok'(4)] by (simp add: written_def)
      then show ?thesis using False n size ok' assms m
        by (intro ok [of "s\<lparr>ss_data := d'\<rparr>"]) (auto simp: ss_expand_def ss_resize_def ss_ok_def)
    next
      case fail': fail
      then show ?thesis using False n size m
        by (intro fail) (auto simp: ss_expand_def ss_resize_def malloc_total_def)
    qed
  qed
qed

lemma ss_store_advance:
  assumes "ss_ok s" "ss_cursor s + int (length bs) \<le> int (ud_size (ss_data s))"
  obtains s' where "ss_store bs s = Some s'" "ss_ok (ss_advance (int (length bs)) s')"
    "written (ss_advance (int (length bs)) s') = written s @ bs"
    "ss_cursor (ss_advance (int (length bs)) s') = ss_cursor s + int (length bs)"
    "ud_size (ss_data s') = ud_size (ss_data s)"
proof -
  let ?c = "nat (ss_cursor s)" and ?mem = "ud_mem (ss_data s)"
  let ?s = "if bs = [] then s else s\<lparr>ss_data := (ss_data s)\<lparr>ud_mem := take ?c ?mem @ bs @ drop (?c + length bs) ?mem\<rparr>\<rparr>"
  have le: "?c + length bs \<le> length ?mem" "?c \<le> length ?mem"
    using assms owned_length [of "ss_data s"] by (auto simp: ss_ok_def)
  have store: "ss_store bs s = Some ?s"
    using assms le by (auto simp: ss_store_def ud_write_def ss_ok_def owned_def Let_def)
  have nonnull: "bs \<noteq> [] \<Longrightarrow> ud_shared (ss_data s)"
    using assms by (cases bs) (auto simp: ss_ok_def owned_def split: if_splits)
  have cursor: "iter_seek (ud_size (ss_data s)) (ss_cursor s + int (length bs)) = ss_cursor s + int (length bs)"
    using assms by (auto simp: iter_seek_def ss_ok_def owned_def to_off_small)
  have "ss_ok (ss_advance (int (length bs)) ?s)"
    using assms cursor nonnull le
    by (auto simp: ss_advance_def ss_seek_def ss_ok_def owned_def split: if_splits)
  moreover have "written (ss_advance (int (length bs)) ?s) = written s @ bs"
    using assms cursor le
    by (auto simp: ss_advance_def ss_seek_def written_def ss_ok_def nat_add_distrib)
  ultimately show ?thesis
    by (rule that [OF store]) (use cursor in \<open>auto simp: ss_advance_def ss_seek_def\<close>)
qed

lemma ss_seek_back:
  assumes "ss_ok s" "0 \<le> c" "c \<le> ss_cursor s"
  shows "ss_ok (ss_seek c s)" "written (ss_seek c s) = take (nat c) (written s)" "ss_cursor (ss_seek c s) = c"
  using assms by (auto simp: ss_seek_def ss_ok_def owned_def iter_seek_def to_off_small written_def
      min_def not_le split: if_splits)

lemma ss_finalize_written:
  assumes "ss_ok s"
  shows "view_ok (ss_finalize s)" "ud_bytes (ss_finalize s) = written s"
proof -
  have c: "to_size (ss_cursor s) = nat (ss_cursor s)"
    using assms by (auto simp: ss_ok_def owned_def size_max_def to_size_nonneg)
  show "view_ok (ss_finalize s)"
    using assms owned_view_ok [of "ss_data s"]
    by (auto simp: ss_finalize_def data_subdata_def c view_ok_def ss_ok_def owned_def)
  have "nat (ss_cursor s) \<le> length (ud_mem (ss_data s))"
    using assms owned_length [of "ss_data s"] by (auto simp: ss_ok_def)
  then show "ud_bytes (ss_finalize s) = written s"
    using assms
    by (auto simp: ss_finalize_def data_subdata_def c ud_bytes_def written_def ss_ok_def owned_def)
qed


lemma expand_store_cases:
  assumes "malloc_ok malloc" "ss_ok s" "room n s" "length bs \<le> n"
  obtains (ok) s1 s2 where "ss_expand malloc n s = Some (True, s1)" "ss_store bs s1 = Some s2"
      "ss_ok (ss_advance (int (length bs)) s2)"
      "written (ss_advance (int (length bs)) s2) = written s @ bs"
    | (fail) "ss_expand malloc n s = Some (False, s)" "\<not> malloc_total malloc"
  using assms(1-3)
proof (cases rule: ss_expand_cases)
  case ok': (ok s1)
  then have "ss_cursor s1 + int (length bs) \<le> int (ud_size (ss_data s1))" using assms(4) by simp
  with ok'(2) obtain s2 where "ss_store bs s1 = Some s2" "ss_ok (ss_advance (int (length bs)) s2)"
    "written (ss_advance (int (length bs)) s2) = written s1 @ bs"
    by (rule ss_store_advance)
  with ok' show ?thesis by (intro ok) auto
next
  case fail': fail
  then show ?thesis by (rule fail)
qed

section \<open>Writing and reading operations\<close>

text \<open>
  A writing operation appends the encoding of its value, or leaves what was written; it
  never writes outside of the buffer, and only a failed allocation makes it leave.
\<close>

definition put_spec ::
  "allocator \<Rightarrow> serialization \<Rightarrow> byte list \<Rightarrow> (bool \<times> serialization) option \<Rightarrow> bool" where
  "put_spec malloc s bs r \<longleftrightarrow>
     (\<exists>s'. r = Some (True, s') \<and> ss_ok s' \<and> written s' = written s @ bs) \<or>
     (\<exists>ok s'. r = Some (ok, s') \<and> ss_ok s' \<and> written s' = written s \<and> \<not> malloc_total malloc)"

locale put_op =
  fixes put :: "allocator \<Rightarrow> 'v \<Rightarrow> serialization \<Rightarrow> (bool \<times> serialization) option"
    and enc :: "'v \<Rightarrow> byte list"
    and slack :: nat
  assumes put_spec: "malloc_ok malloc \<Longrightarrow> ss_ok s \<Longrightarrow> room (length (enc v) + slack) s \<Longrightarrow>
     put_spec malloc s (enc v) (put malloc v s)"
begin

lemma put_safe:
  "malloc_ok malloc \<Longrightarrow> ss_ok s \<Longrightarrow> room (length (enc v) + slack) s \<Longrightarrow>
   \<exists>ok s'. put malloc v s = Some (ok, s') \<and> ss_ok s'"
  using put_spec by (fastforce simp: put_spec_def)

lemma put_appends:
  assumes "malloc_total malloc" "ss_ok s" "room (length (enc v) + slack) s"
  obtains s' where "put malloc v s = Some (True, s')" "ss_ok s'" "written s' = written s @ enc v"
    "ss_cursor s' = ss_cursor s + int (length (enc v))"
proof -
  obtain s' where s': "put malloc v s = Some (True, s')" "ss_ok s'" "written s' = written s @ enc v"
    using put_spec [of malloc s v] assms malloc_total_ok by (auto simp: put_spec_def)
  then have "nat (ss_cursor s') = nat (ss_cursor s) + length (enc v)"
    using length_written [of s] length_written [of s'] assms by simp
  then have "ss_cursor s' = ss_cursor s + int (length (enc v))"
    using s' assms by (auto simp: ss_ok_def)
  with s' show ?thesis by (rule that)
qed

end

text \<open>A reading operation recognises the encoding at its offset.\<close>

locale get_op =
  fixes get :: "udata \<Rightarrow> int \<Rightarrow> (nat \<times> 'v) option"
    and enc :: "'v \<Rightarrow> byte list"
  assumes get_enc: "view_ok d \<Longrightarrow> 0 \<le> offset \<Longrightarrow> nat offset \<le> ud_size d \<Longrightarrow>
     drop (nat offset) (ud_bytes d) = enc v @ rest \<Longrightarrow>
     get d offset = Some (length (enc v), v)"

locale codec = put_op put enc slack + get_op get enc
  for put :: "allocator \<Rightarrow> 'v \<Rightarrow> serialization \<Rightarrow> (bool \<times> serialization) option"
    and enc :: "'v \<Rightarrow> byte list" and slack :: nat
    and get :: "udata \<Rightarrow> int \<Rightarrow> (nat \<times> 'v) option"
begin

lemma round_trip:
  assumes "malloc_total malloc" "ss_ok s" "room (length (enc v) + slack) s"
  shows "\<exists>s'. put malloc v s = Some (True, s') \<and> ss_ok s' \<and>
     get (ss_finalize s') (ss_cursor s) = Some (length (enc v), v)"
proof -
  obtain s' where s': "put malloc v s = Some (True, s')" "ss_ok s'" "written s' = written s @ enc v"
    using put_appends [OF assms(1-3)] by blast
  have len: "length (written s) = nat (ss_cursor s)" using assms(2) by (rule length_written)
  have "ud_size (ss_finalize s') = length (written s')"
    using ss_finalize_written [OF s'(2)] by (simp flip: length_ud_bytes)
  then have "get (ss_finalize s') (ss_cursor s) = Some (length (enc v), v)"
    using assms s' len by (intro get_enc [where rest = "[]"])
      (auto simp: ss_finalize_written ss_ok_def)
  with s' show ?thesis by blast
qed

end

section \<open>The writing operations keep the contract\<close>

lemma length_be32 [simp]: "length (be32 v) = 4"
  by (simp add: be32_def)

lemma length_varint_bytes: "1 \<le> length (varint_bytes v)" "length (varint_bytes v) \<le> 9"
proof -
  have "fst (varint_ref 0 0 (varint_bytes v @ [])) = length (varint_bytes v)"
    by (simp only: varint_ref_bytes) simp
  moreover have "fst (varint_ref i a ps) \<le> 9" if "i \<le> 8" for i a ps
    using that by (induction i a ps rule: varint_ref.induct) (auto simp: Let_def)
  ultimately show "length (varint_bytes v) \<le> 9" by (metis le0)
  show "1 \<le> length (varint_bytes v)"
    using varint_ref_bytes [of v "[0]"] by (cases "varint_bytes v") (auto simp: bit_simps)
qed

definition putVarint_ok :: "allocator \<Rightarrow> u64 \<Rightarrow> serialization \<Rightarrow> (bool \<times> serialization) option" where
  "putVarint_ok malloc v s = map_option (\<lambda>(n, s). (n \<noteq> 0, s)) (putVarint malloc v s)"

definition sized :: "byte list \<Rightarrow> byte list" where
  "sized bs = varint_bytes (word_of_nat (length bs)) @ bs"

lemma put4_cases:
  assumes "malloc_ok malloc" "ss_ok s" "room 4 s"
  obtains (ok) s' where "put4BytesUInt malloc v s = Some (True, s')" "ss_ok s'"
      "written s' = written s @ be32 v"
    | (fail) "put4BytesUInt malloc v s = Some (False, s)" "\<not> malloc_total malloc"
  using assms length_be32 [of v, THEN eq_refl]
proof (cases rule: expand_store_cases)
  case ok': (ok s1 s2)
  then show ?thesis by (intro ok) (auto simp: put4BytesUInt_def)
next
  case fail': fail
  then show ?thesis by (intro fail) (auto simp: put4BytesUInt_def)
qed

lemma put_spec_ok: "ss_ok s' \<Longrightarrow> written s' = written s @ bs \<Longrightarrow> put_spec malloc s bs (Some (True, s'))"
  by (auto simp: put_spec_def)

lemma put_spec_fail:
  "ss_ok s' \<Longrightarrow> written s' = written s \<Longrightarrow> \<not> malloc_total malloc \<Longrightarrow> put_spec malloc s bs (Some (ok, s'))"
  by (auto simp: put_spec_def)

lemma put4_spec:
  assumes "malloc_ok malloc" "ss_ok s" "room 4 s"
  shows "put_spec malloc s (be32 v) (put4BytesUInt malloc v s)"
  using assms by (cases rule: put4_cases [where v = v]) (auto simp: assms intro: put_spec_ok put_spec_fail)

lemma putVarint_cases:
  assumes "malloc_ok malloc" "ss_ok s" "room 9 s"
  obtains (ok) s' where "putVarint malloc v s = Some (length (varint_bytes v), s')" "ss_ok s'"
      "written s' = written s @ varint_bytes v"
    | (fail) "putVarint malloc v s = Some (0, s)" "\<not> malloc_total malloc"
  using assms length_varint_bytes(2) [of v]
proof (cases rule: expand_store_cases)
  case ok': (ok s1 s2)
  then show ?thesis by (intro ok) (auto simp: putVarint_def Let_def)
next
  case fail': fail
  then show ?thesis by (intro fail) (auto simp: putVarint_def)
qed

lemma putVarint_spec:
  assumes "malloc_ok malloc" "ss_ok s" "room 9 s"
  shows "put_spec malloc s (varint_bytes v) (putVarint_ok malloc v s)"
  using assms length_varint_bytes(1) [of v]
  by (cases rule: putVarint_cases [where v = v])
    (auto simp: putVarint_ok_def assms Suc_le_length_iff intro: put_spec_ok put_spec_fail)

lemma cursor_written:
  "ss_ok s \<Longrightarrow> ss_ok s' \<Longrightarrow> written s' = written s @ bs \<Longrightarrow>
   ss_cursor s' = ss_cursor s + int (length bs)"
  using length_written [of s] length_written [of s'] by (auto simp: ss_ok_def)

lemma seek_back_written:
  assumes "ss_ok s" "ss_ok s'" "written s' = written s @ bs"
  shows "ss_ok (ss_seek (ss_cursor s) s')" "written (ss_seek (ss_cursor s) s') = written s"
  using ss_seek_back [OF assms(2), of "ss_cursor s"] cursor_written [OF assms] assms
    length_written [OF assms(1)] by (auto simp: ss_ok_def)

definition be64 :: "u64 \<Rightarrow> byte list" where
  "be64 v = be32 (ucast (drop_bit 32 v)) @ be32 (ucast v)"

lemma length_be64 [simp]: "length (be64 v) = 8"
  by (simp add: be64_def)

lemma put8_spec:
  assumes "malloc_ok malloc" "ss_ok s" "room 8 s"
  shows "put_spec malloc s (be64 v) (put8BytesUInt malloc v s)"
proof -
  let ?hi = "ucast (drop_bit 32 v) :: u32" and ?lo = "ucast v :: u32"
  have "room 4 s" using assms(3) by (simp add: room_def)
  with assms(1,2) show ?thesis
  proof (cases rule: put4_cases [where v = ?hi])
    case hi: (ok s1)
    have "room 4 s1" using assms cursor_written [OF assms(2) hi(2,3)] by (simp add: room_def)
    with assms(1) hi(2) show ?thesis
    proof (cases rule: put4_cases [where v = ?lo])
      case (ok s2)
      then show ?thesis using hi by (auto simp: put8BytesUInt_def be64_def intro: put_spec_ok)
    next
      case fail
      then show ?thesis using hi seek_back_written [OF assms(2) hi(2,3)]
        by (auto simp: put8BytesUInt_def intro: put_spec_fail)
    qed
  next
    case fail
    then show ?thesis using seek_back_written [OF assms(2,2), of "[]"] assms(2)
      by (auto simp: put8BytesUInt_def intro: put_spec_fail)
  qed
qed

lemma unat_length: "int (length bs) < size_max \<Longrightarrow> unat (word_of_nat (length bs) :: u64) = length bs"
  by (simp add: unsigned_of_nat take_bit_nat_def size_max_def)

lemma putSizedString_spec:
  assumes "malloc_ok malloc" "ss_ok s" "room (length (sized str) + 9) s"
  shows "put_spec malloc s (sized str) (putSizedString malloc str s)"
proof -
  have "room 9 s" using assms(3) by (simp add: room_def)
  with assms(1,2) show ?thesis
  proof (cases rule: putVarint_cases [where v = "word_of_nat (length str)"])
    case size: (ok s1)
    have "room (length str) s1" using assms cursor_written [OF assms(2) size(2,3)]
      by (simp add: room_def sized_def)
    from assms(1) size(2) this order_refl show ?thesis
    proof (cases rule: expand_store_cases)
      case (ok s2 s3)
      then show ?thesis using size length_varint_bytes(1) [of "word_of_nat (length str)"]
        by (auto simp: putSizedString_def sized_def intro!: put_spec_ok)
    next
      case fail
      then show ?thesis using size seek_back_written [OF assms(2) size(2,3)]
        by (auto simp: putSizedString_def intro: put_spec_fail)
    qed
  next
    case fail
    then show ?thesis using seek_back_written [OF assms(2,2), of "[]"] assms(2)
      by (auto simp: putSizedString_def intro: put_spec_fail)
  qed
qed

lemma putSizedData_eq_string:
  "view_ok d \<Longrightarrow> putSizedData malloc d s = putSizedString malloc (ud_bytes d) s"
proof -
  assume d: "view_ok d"
  have read: "ud_read d 0 (ud_size d) = Some (ud_bytes d)"
    using ud_read_in_view [OF d, of 0 "ud_size d"] d by (simp add: length_ud_bytes)
  show ?thesis
    unfolding putSizedData_def putSizedString_def length_ud_bytes [OF d] read bind.bind_lunit ..
qed

interpretation put4: put_op put4BytesUInt be32 0
  by unfold_locales (simp add: put4_spec)

interpretation putv: put_op putVarint_ok varint_bytes 9
  by unfold_locales (auto intro: putVarint_spec simp: room_def)

interpretation put8: put_op put8BytesUInt be64 0
  by unfold_locales (simp add: put8_spec)

interpretation puts: put_op putSizedString sized 9
  by unfold_locales (rule putSizedString_spec)

section \<open>The fixed-width reads\<close>

text \<open>Big-endian two's complement, as a reference for the fixed-width signed reads.\<close>

definition be_uint :: "byte list \<Rightarrow> int" where
  "be_uint bs = foldl (\<lambda>a b. a * 256 + uint b) 0 bs"

definition be_sint :: "byte list \<Rightarrow> int" where
  "be_sint bs = (if 2 ^ (8 * length bs - 1) \<le> be_uint bs then be_uint bs - 2 ^ (8 * length bs) else be_uint bs)"

lemma byte_bounds: "0 \<le> uint (b :: byte)" "uint b \<le> 255"
  using uint_lt2p [of b] by auto

lemma or_low: "0 \<le> b \<Longrightarrow> b < 2 ^ n \<Longrightarrow> (2 ^ n * a) OR b = 2 ^ n * a + (b :: int)"
  using concat_bit_eq [of n b a] concat_bit_def [of n b a]
  by (simp add: take_bit_int_eq_self push_bit_eq_mult or.commute add.commute mult.commute)

lemma sint_byte: "sint (b :: byte) = (if 128 \<le> uint b then uint b - 256 else uint b)"
proof -
  have "sint b = (uint b + 128) mod 256 - 128"
    using byte_bounds [of b] by (simp add: sint_uint signed_take_bit_eq_take_bit_shift take_bit_eq_mod)
  moreover have "(uint b + 128) mod 256 = (if 128 \<le> uint b then uint b - 128 else uint b + 128)"
    using byte_bounds [of b] mod_pos_pos_trivial [of "uint b - 128" 256] mod_add_self2 [of "uint b - 128" 256]
    by (auto simp: add.commute)
  ultimately show ?thesis by simp
qed

lemma be_uint_Cons: "be_uint (b # bs) = 2 ^ (8 * length bs) * uint b + be_uint bs"
proof -
  have "foldl (\<lambda>a b. a * 256 + uint (b :: byte)) a bs = 2 ^ (8 * length bs) * a + be_uint bs" for a
    unfolding be_uint_def
    by (induction bs rule: rev_induct) (simp_all add: power_add algebra_simps)
  from this [of "uint b"] show ?thesis by (subst be_uint_def) simp
qed

lemma be_uint_bounds: "0 \<le> be_uint bs" "be_uint bs < 2 ^ (8 * length bs)"
proof -
  have "0 \<le> be_uint bs \<and> be_uint bs < 2 ^ (8 * length bs)"
  proof (induction bs rule: rev_induct)
    case Nil
    then show ?case by (simp add: be_uint_def)
  next
    case (snoc b bs)
    have "be_uint (bs @ [b]) = be_uint bs * 256 + uint b" by (simp add: be_uint_def)
    with snoc show ?case using byte_bounds [of b] by (simp add: power_add)
  qed
  then show "0 \<le> be_uint bs" "be_uint bs < 2 ^ (8 * length bs)" by auto
qed

lemma be_sint_Cons: "be_sint (b # bs) = 2 ^ (8 * length bs) * sint b + be_uint bs"
proof -
  let ?m = "2 ^ (8 * length bs) :: int"
  have pow: "2 ^ (8 * length (b # bs) - 1) = ?m * 128" "2 ^ (8 * length (b # bs)) = ?m * 256"
    by (simp_all add: power_add)
  show ?thesis
  proof (cases "128 \<le> uint b")
    case True
    then have "?m * 128 \<le> ?m * uint b" by simp
    then have "?m * 128 \<le> be_uint (b # bs)" using be_uint_bounds(1) [of bs] unfolding be_uint_Cons by linarith
    then show ?thesis using True
      unfolding be_sint_def pow sint_byte by (simp add: be_uint_Cons algebra_simps)
  next
    case False
    then have "?m * uint b \<le> ?m * 127" by (intro mult_left_mono) auto
    then have "be_uint (b # bs) < ?m * 128"
      using be_uint_bounds(2) [of bs] unfolding be_uint_Cons by linarith
    then show ?thesis using False
      unfolding be_sint_def pow sint_byte by (simp add: be_uint_Cons)
  qed
qed

lemma or_be_uint:
  "(2 ^ (8 * length bs) * a) OR be_uint bs = 2 ^ (8 * length bs) * a + be_uint bs"
  by (rule or_low [OF be_uint_bounds])

lemma be_uint_Nil: "be_uint [] = 0"
  by (simp add: be_uint_def)

lemmas be_simps = be_uint_Nil be_uint_Cons be_sint_Cons

lemma be_join2u: "push_bit 8 (uint p) OR uint q = be_uint [p, q]"
  using or_be_uint [of "[q]" "uint p"] by (simp add: be_simps push_bit_eq_mult mult.commute)

lemma be_join3u: "push_bit 16 (uint p) OR (push_bit 8 (uint q) OR uint r) = be_uint [p, q, r]"
  unfolding be_join2u using or_be_uint [of "[q, r]" "uint p"]
  by (simp add: be_simps push_bit_eq_mult mult.commute)

lemma be_join2: "(256 * sint p0) OR uint p1 = be_sint [p0, p1]"
  using or_be_uint [of "[p1]" "sint p0"] by (simp add: be_simps)

lemma be_join3: "(65536 * sint p0) OR (push_bit 8 (uint p1) OR uint p2) = be_sint [p0, p1, p2]"
  unfolding be_join2u using or_be_uint [of "[p1, p2]" "sint p0"] by (simp add: be_sint_Cons)

lemma be_join4:
  "(16777216 * sint p0) OR (push_bit 16 (uint p1) OR (push_bit 8 (uint p2) OR uint p3)) = be_sint [p0, p1, p2, p3]"
  unfolding be_join3u using or_be_uint [of "[p1, p2, p3]" "sint p0"] by (simp add: be_sint_Cons)

lemma uint_push_byte: "n \<le> 24 \<Longrightarrow> uint (push_bit n (ucast (p :: byte)) :: u32) = push_bit n (uint p)"
  by (rule bit_eqI) (auto simp: bit_simps dest: bit_imp_le_length)

lemma be_join4u:
  "uint (push_bit 24 (ucast p0) OR (push_bit 16 (ucast p1) OR (push_bit 8 (ucast p2) OR ucast p3)) :: u32)
   = be_uint [p0, p1, p2, p3 :: byte]"
  using uint_push_byte [of 0 p3] or_be_uint [of "[p1, p2, p3]" "uint p0"]
  by (simp add: unsigned_or_eq uint_push_byte be_join3u be_uint_Cons [of p0] del: push_bit_numeral)
    (simp add: push_bit_eq_mult mult.commute)

text \<open>The \<open>n\<close> bytes of a view at an offset.\<close>

definition bytes_at :: "udata \<Rightarrow> int \<Rightarrow> nat \<Rightarrow> byte list" where
  "bytes_at d offset n = take n (drop (nat offset) (ud_bytes d))"

lemma length_bytes_at:
  "view_ok d \<Longrightarrow> 0 \<le> offset \<Longrightarrow> offset + int n \<le> int (ud_size d) \<Longrightarrow> length (bytes_at d offset n) = n"
  by (simp add: bytes_at_def length_ud_bytes)

lemma ud_byte_at:
  assumes "view_ok d" "0 \<le> offset" "offset + int n \<le> int (ud_size d)" "i < n"
  shows "ud_byte d (offset + int i) = Some (bytes_at d offset n ! i)"
  using assms ud_byte_in_view [of d "offset + int i"]
  by (simp add: bytes_at_def length_ud_bytes nat_add_distrib nth_drop)

lemma bytes_at_2E:
  assumes "view_ok d" "0 \<le> offset" "offset + 2 \<le> int (ud_size d)"
  obtains p0 p1 where "bytes_at d offset 2 = [p0, p1]"
    "ud_byte d offset = Some p0" "ud_byte d (offset + 1) = Some p1"
proof -
  have "length (bytes_at d offset 2) = 2" using assms by (simp add: length_bytes_at)
  then obtain p0 p1 where "bytes_at d offset 2 = [p0, p1]" by (auto simp: numeral_eq_Suc length_Suc_conv)
  then show ?thesis using ud_byte_at [OF assms(1,2), of 2 0] ud_byte_at [OF assms(1,2), of 2 1] assms(3)
    by (intro that) auto
qed

lemma bytes_at_3E:
  assumes "view_ok d" "0 \<le> offset" "offset + 3 \<le> int (ud_size d)"
  obtains p0 p1 p2 where "bytes_at d offset 3 = [p0, p1, p2]"
    "ud_byte d offset = Some p0" "ud_byte d (offset + 1) = Some p1" "ud_byte d (offset + 2) = Some p2"
proof -
  have "length (bytes_at d offset 3) = 3" using assms by (simp add: length_bytes_at)
  then obtain p0 p1 p2 where "bytes_at d offset 3 = [p0, p1, p2]" by (auto simp: numeral_eq_Suc length_Suc_conv)
  then show ?thesis using ud_byte_at [OF assms(1,2), of 3 0] ud_byte_at [OF assms(1,2), of 3 1]
      ud_byte_at [OF assms(1,2), of 3 2] assms(3)
    by (intro that) auto
qed

lemma bytes_at_4E:
  assumes "view_ok d" "0 \<le> offset" "offset + 4 \<le> int (ud_size d)"
  obtains p0 p1 p2 p3 where "bytes_at d offset 4 = [p0, p1, p2, p3]"
    "ud_byte d offset = Some p0" "ud_byte d (offset + 1) = Some p1"
    "ud_byte d (offset + 2) = Some p2" "ud_byte d (offset + 3) = Some p3"
proof -
  have "length (bytes_at d offset 4) = 4" using assms by (simp add: length_bytes_at)
  then obtain p0 p1 p2 p3 where "bytes_at d offset 4 = [p0, p1, p2, p3]"
    by (auto simp: numeral_eq_Suc length_Suc_conv)
  then show ?thesis using ud_byte_at [OF assms(1,2), of 4 0] ud_byte_at [OF assms(1,2), of 4 1]
      ud_byte_at [OF assms(1,2), of 4 2] ud_byte_at [OF assms(1,2), of 4 3] assms(3)
    by (intro that) auto
qed

lemma get2BytesInt_be:
  assumes "view_ok d" "0 \<le> offset" "offset + 2 \<le> int (ud_size d)"
  shows "get2BytesInt d offset = Some (be_sint (bytes_at d offset 2))"
  using assms by (rule bytes_at_2E) (simp add: get2BytesInt_def be_join2)

lemma get3BytesInt_be:
  assumes "view_ok d" "0 \<le> offset" "offset + 3 \<le> int (ud_size d)"
  shows "get3BytesInt d offset = Some (be_sint (bytes_at d offset 3))"
  using assms by (rule bytes_at_3E) (simp add: get3BytesInt_def or.assoc be_join3 del: push_bit_numeral)

lemma get4BytesInt_be:
  assumes "view_ok d" "0 \<le> offset" "offset + 4 \<le> int (ud_size d)"
  shows "get4BytesInt d offset = Some (be_sint (bytes_at d offset 4))"
  using assms by (rule bytes_at_4E) (simp add: get4BytesInt_def or.assoc be_join4 del: push_bit_numeral)

lemma get4BytesUInt_be:
  assumes "view_ok d" "0 \<le> offset" "offset + 4 \<le> int (ud_size d)"
  obtains v where "get4BytesUInt d offset = Some v" "uint v = be_uint (bytes_at d offset 4)"
  using assms by (rule bytes_at_4E) (rule that, simp only: get4BytesUInt_def bind.bind_lunit, simp only: or.assoc be_join4u)

lemma get4BytesUInt_uint:
  assumes "view_ok d" "0 \<le> offset" "offset + 4 \<le> int (ud_size d)"
  shows "map_option uint (get4BytesUInt d offset) = Some (be_uint (bytes_at d offset 4))"
  using assms by (rule get4BytesUInt_be) simp

lemma get1ByteInt_be:
  assumes "view_ok d" "0 \<le> offset" "offset + 1 \<le> int (ud_size d)"
  shows "get1ByteInt d offset = Some (be_sint (bytes_at d offset 1))"
  using ud_byte_at [OF assms(1,2), of 1 0] assms length_bytes_at [of d offset 1]
  by (cases "bytes_at d offset 1") (auto simp: get1ByteInt_def be_sint_Cons be_uint_def)

lemma bytes_at_append:
  "0 \<le> offset \<Longrightarrow> bytes_at d offset (m + n) = bytes_at d offset m @ bytes_at d (offset + int m) n"
  by (simp add: bytes_at_def take_add nat_add_distrib add.commute)

lemma be_uint_append: "be_uint (xs @ ys) = 2 ^ (8 * length ys) * be_uint xs + be_uint ys"
  by (induction xs) (simp_all add: be_uint_Cons power_add algebra_simps, simp add: be_uint_def)

lemma be_sint_append:
  "xs \<noteq> [] \<Longrightarrow> be_sint (xs @ ys) = 2 ^ (8 * length ys) * be_sint xs + be_uint ys"
  by (cases xs) (simp_all add: be_sint_Cons be_uint_append power_add algebra_simps)

lemma get6BytesInt_be:
  assumes "view_ok d" "0 \<le> offset" "offset + 6 \<le> int (ud_size d)"
  shows "get6BytesInt d offset = Some (be_sint (bytes_at d offset 6))"
proof -
  obtain y where y: "get4BytesUInt d (offset + 2) = Some y" "uint y = be_uint (bytes_at d (offset + 2) 4)"
    using assms by (elim get4BytesUInt_be [where offset = "offset + 2"]) auto
  have len: "length (bytes_at d offset 2) = 2" "length (bytes_at d (offset + 2) 4) = 4"
    using assms by (simp_all add: length_bytes_at)
  then have "bytes_at d offset 2 \<noteq> []" by auto
  then have "be_sint (bytes_at d offset 6)
    = 4294967296 * be_sint (bytes_at d offset 2) + be_uint (bytes_at d (offset + 2) 4)"
    using be_sint_append [of "bytes_at d offset 2" "bytes_at d (offset + 2) 4"]
      bytes_at_append [OF assms(2), of d 2 4] by (simp add: len)
  with y show ?thesis using assms by (simp add: get6BytesInt_def get2BytesInt_be)
qed

lemma sint_u64: "sint (w :: u64) = (if 2 ^ 63 \<le> uint w then uint w - 2 ^ 64 else uint w)"
proof -
  have w: "0 \<le> uint w" "uint w < 18446744073709551616" using uint_lt2p [of w] by auto
  have "sint w = (uint w + 9223372036854775808) mod 18446744073709551616 - 9223372036854775808"
    using w by (simp add: sint_uint signed_take_bit_eq_take_bit_shift take_bit_eq_mod)
  moreover have "(uint w + 9223372036854775808) mod 18446744073709551616
     = (if 9223372036854775808 \<le> uint w then uint w - 9223372036854775808 else uint w + 9223372036854775808)"
    using w mod_pos_pos_trivial [of "uint w - 9223372036854775808" 18446744073709551616]
      mod_add_self2 [of "uint w - 9223372036854775808" 18446744073709551616]
    by (auto simp: add.commute)
  ultimately show ?thesis by simp
qed

lemma uint_join64: "uint (push_bit 32 (ucast (x :: u32) :: u64) + ucast (y :: u32)) = 4294967296 * uint x + uint y"
proof -
  have "uint x < 4294967296" "uint y < 4294967296" using uint_lt2p [of x] uint_lt2p [of y] by auto
  then show ?thesis by (simp add: push_bit_eq_mult uint_word_ariths unsigned_ucast_eq take_bit_int_eq_self)
qed

lemma get8BytesInt_be:
  assumes "view_ok d" "0 \<le> offset" "offset + 8 \<le> int (ud_size d)"
  shows "get8BytesInt d offset = Some (be_sint (bytes_at d offset 8))"
    and "map_option uint (get8BytesDouble d offset) = Some (be_uint (bytes_at d offset 8))"
proof -
  obtain x where x: "get4BytesUInt d offset = Some x" "uint x = be_uint (bytes_at d offset 4)"
    using assms by (elim get4BytesUInt_be [where offset = "offset"]) auto
  obtain y where y: "get4BytesUInt d (offset + 4) = Some y" "uint y = be_uint (bytes_at d (offset + 4) 4)"
    using assms by (elim get4BytesUInt_be [where offset = "offset + 4"]) auto
  have len: "length (bytes_at d offset 8) = 8" "length (bytes_at d (offset + 4) 4) = 4"
    using assms by (simp_all add: length_bytes_at)
  have join: "uint (push_bit 32 (ucast x :: u64) + ucast y) = be_uint (bytes_at d offset 8)"
    using x y bytes_at_append [OF assms(2), of d 4 4] len unfolding uint_join64
    by (simp add: be_uint_append)
  then show "map_option uint (get8BytesDouble d offset) = Some (be_uint (bytes_at d offset 8))"
    by (simp add: get8BytesDouble_def x y)
  show "get8BytesInt d offset = Some (be_sint (bytes_at d offset 8))"
    using len by (simp add: get8BytesInt_def be_sint_def x y sint_u64 join del: push_bit_numeral)
qed

section \<open>The reading operations recognise the encodings\<close>

lemma ud_byte_enc:
  assumes "view_ok d" "0 \<le> offset" "nat offset \<le> ud_size d"
    "drop (nat offset) (ud_bytes d) = bs @ rest" "i < length bs"
  shows "ud_byte d (offset + int i) = Some (bs ! i)"
proof -
  have len: "length (drop (nat offset) (ud_bytes d)) = length bs + length rest" by (simp add: assms(4))
  then have lt: "nat offset + i < ud_size d" using assms(5) by (simp add: length_ud_bytes assms(1))
  then have "ud_byte d (offset + int i) = Some (ud_bytes d ! nat (offset + int i))"
    using assms by (intro ud_byte_in_view) auto
  also have "nat (offset + int i) = nat offset + i" using assms by simp
  also have "ud_bytes d ! (nat offset + i) = drop (nat offset) (ud_bytes d) ! i"
    using lt assms(1) by (subst nth_drop) (auto simp: length_ud_bytes)
  also have "\<dots> = bs ! i" using assms(5) by (simp add: assms(4) nth_append)
  finally show ?thesis .
qed

lemma be32_join:
  "push_bit 24 (ucast (ucast (drop_bit 24 v) :: byte)) OR
   (push_bit 16 (ucast (ucast (drop_bit 16 v) :: byte)) OR
   (push_bit 8 (ucast (ucast (drop_bit 8 v) :: byte)) OR ucast (ucast v :: byte))) = (v :: u32)"
  apply (rule bit_word_eqI)
  subgoal for n
    apply (rule less_64E [of n])
    by (simp_all add: bit_simps)
  done

lemma get4BytesUInt_enc:
  assumes "view_ok d" "0 \<le> offset" "nat offset \<le> ud_size d"
    "drop (nat offset) (ud_bytes d) = be32 v @ rest"
  shows "get4BytesUInt d offset = Some v"
  using ud_byte_enc [OF assms, of 0] ud_byte_enc [OF assms, of 1]
    ud_byte_enc [OF assms, of 2] ud_byte_enc [OF assms, of 3]
  by (simp add: get4BytesUInt_def be32_def be32_join)

lemma getVarint_enc:
  assumes "view_ok d" "0 \<le> offset" "nat offset \<le> ud_size d"
    "drop (nat offset) (ud_bytes d) = varint_bytes v @ rest"
  shows "getVarint d offset = Some (length (varint_bytes v), v)"
  using getVarint_eq_ref [OF assms(1,2)] view_ok_size_bound [OF assms(1)] assms
  by (simp add: varint_ref_bytes)

lemma getSized_enc:
  assumes "view_ok d" "0 \<le> offset" "nat offset \<le> ud_size d"
    "drop (nat offset) (ud_bytes d) = sized bs @ rest"
  obtains at where "getSizedString d offset = map_option (Pair (length (sized bs))) (getString d at (length bs))"
    "getSizedData d offset = Some (length (sized bs), getData d at (length bs))"
    "bytes_at d at (length bs) = bs" "0 \<le> at" "at + int (length bs) \<le> int (ud_size d)"
proof -
  let ?n = "length (varint_bytes (word_of_nat (length bs)))"
  have len: "nat offset + ?n + length bs \<le> ud_size d"
    using arg_cong [OF assms(4), of length] assms(1,3) by (simp add: length_ud_bytes sized_def)
  have small: "ud_size d < 4611686018427387904" using assms(1) by (rule view_ok_size_bound)
  then have size: "unat (word_of_nat (length bs) :: u64) = length bs"
    using len by (intro unat_length) (simp add: size_max_def)
  have var: "getVarint d offset = Some (?n, word_of_nat (length bs))"
    using assms by (intro getVarint_enc [where rest = "bs @ rest"]) (auto simp: sized_def)
  have enough: "isEnough d (offset + int ?n + int (length bs))"
    using len small assms(2) by (simp add: isEnough_def to_size_nonneg size_max_def)
  have "drop (nat offset + ?n) (ud_bytes d) = bs @ rest"
    using arg_cong [OF assms(4), of "drop ?n"] by (simp add: sized_def add.commute)
  then have bytes: "bytes_at d (offset + int ?n) (length bs) = bs"
    using assms(2) by (simp add: bytes_at_def nat_add_distrib)
  have total: "to_size (int ?n + int (length bs)) = length (sized bs)"
    using len small by (simp add: to_size_nonneg size_max_def sized_def)
  have uint: "uint (word_of_nat (length bs) :: u64) = int (length bs)"
    using size by (metis uint_nat)
  have n: "(?n = 0) = False" using length_varint_bytes(1) [of "word_of_nat (length bs)"] by auto
  show ?thesis
  proof (rule that [of "offset + int ?n"])
    show "getSizedString d offset = map_option (Pair (length (sized bs))) (getString d (offset + int ?n) (length bs))"
      unfolding getSizedString_def var bind.bind_lunit prod.case uint
      by (simp only: size bind.bind_lunit prod.case simp_thms if_False uint enough total n)
        (simp add: map_conv_bind_option comp_def)
    show "getSizedData d offset = Some (length (sized bs), getData d (offset + int ?n) (length bs))"
      unfolding getSizedData_def var bind.bind_lunit prod.case uint
      by (simp only: size bind.bind_lunit prod.case simp_thms if_False uint enough total n)
  qed (use bytes len assms(2) in auto)
qed

lemma getString_bytes_at:
  "view_ok d \<Longrightarrow> 0 \<le> offset \<Longrightarrow> offset + int n \<le> int (ud_size d) \<Longrightarrow>
   getString d offset n = Some (bytes_at d offset n)"
  by (cases "n = 0") (auto simp: getString_def bytes_at_def ud_read_in_view)

lemma getData_bytes_at:
  assumes "view_ok d" "0 \<le> offset" "offset + int n \<le> int (ud_size d)"
  shows "view_ok (getData d offset n)" "ud_bytes (getData d offset n) = bytes_at d offset n"
proof -
  show "view_ok (getData d offset n)"
    using assms by (auto simp: getData_def ud_immutable_def view_ok_def)
  have "nat (ud_off d + offset) = nat (ud_off d) + nat offset"
    using assms by (simp add: view_ok_def nat_add_distrib)
  moreover have "n \<le> ud_size d - nat offset" using assms by linarith
  ultimately show "ud_bytes (getData d offset n) = bytes_at d offset n"
    by (simp add: getData_def ud_immutable_def bytes_at_def ud_bytes_def drop_take_drop add.commute)
qed

lemma getSizedString_enc:
  assumes "view_ok d" "0 \<le> offset" "nat offset \<le> ud_size d"
    "drop (nat offset) (ud_bytes d) = sized bs @ rest"
  shows "getSizedString d offset = Some (length (sized bs), bs)"
  using assms by (rule getSized_enc) (simp add: getString_bytes_at assms)

lemma getSizedData_enc:
  assumes "view_ok d" "0 \<le> offset" "nat offset \<le> ud_size d"
    "drop (nat offset) (ud_bytes d) = sized bs @ rest"
  obtains v where "getSizedData d offset = Some (length (sized bs), v)" "view_ok v" "ud_bytes v = bs"
  using assms
proof (rule getSized_enc)
  fix at
  assume "getSizedData d offset = Some (length (sized bs), getData d at (length bs))"
    "bytes_at d at (length bs) = bs" "0 \<le> at" "at + int (length bs) \<le> int (ud_size d)"
  then show ?thesis using getData_bytes_at [OF assms(1), of at "length bs"] by (intro that) auto
qed

lemma be64_join:
  "push_bit 32 (ucast (ucast (drop_bit 32 v) :: u32)) + ucast (ucast v :: u32) = (v :: u64)"
proof -
  have "push_bit 32 (ucast (ucast (drop_bit 32 v) :: u32)) + ucast (ucast v :: u32)
     = (push_bit 32 (drop_bit 32 v) OR take_bit 32 v :: u64)"
    by (subst disjunctive_add) (auto simp: bit_simps intro!: bit_word_eqI)
  also have "\<dots> = v" by (rule bit_word_eqI) (auto simp: bit_simps)
  finally show ?thesis .
qed

lemma get8BytesDouble_enc:
  assumes "view_ok d" "0 \<le> offset" "nat offset \<le> ud_size d"
    "drop (nat offset) (ud_bytes d) = be64 v @ rest"
  shows "get8BytesDouble d offset = Some v"
proof -
  have len: "nat offset + 8 \<le> ud_size d"
    using arg_cong [OF assms(4), of length] assms(1,3) by (simp add: length_ud_bytes)
  have "get4BytesUInt d offset = Some (ucast (drop_bit 32 v))"
    using assms by (intro get4BytesUInt_enc [where rest = "be32 (ucast v) @ rest"]) (auto simp: be64_def)
  moreover have "drop (nat (offset + 4)) (ud_bytes d) = be32 (ucast v) @ rest"
    using arg_cong [OF assms(4), of "drop 4"] assms(2) by (simp add: be64_def nat_add_distrib add.commute)
  then have "get4BytesUInt d (offset + 4) = Some (ucast v)"
    using assms len by (intro get4BytesUInt_enc [where rest = rest]) auto
  ultimately show ?thesis by (simp add: get8BytesDouble_def be64_join del: push_bit_numeral)
qed

interpretation codec4: codec put4BytesUInt be32 0 "\<lambda>d offset. map_option (Pair 4) (get4BytesUInt d offset)"
  by unfold_locales (simp add: get4BytesUInt_enc)

interpretation codec8: codec put8BytesUInt be64 0 "\<lambda>d offset. map_option (Pair 8) (get8BytesDouble d offset)"
  by unfold_locales (simp add: get8BytesDouble_enc)

interpretation codecv: codec putVarint_ok varint_bytes 9 getVarint
  by unfold_locales (rule getVarint_enc)

interpretation codecs: codec putSizedString sized 9 getSizedString
  by unfold_locales (rule getSizedString_enc)


section \<open>Reading in sequence\<close>

text \<open>A reader between the ends of a well-formed view, and the bytes it has not read.\<close>

definition ds_ok :: "deserialization \<Rightarrow> bool" where
  "ds_ok r \<longleftrightarrow> view_ok (ds_data r) \<and> 0 \<le> ds_cursor r \<and> ds_cursor r \<le> int (ud_size (ds_data r))"

definition remaining :: "deserialization \<Rightarrow> byte list" where
  "remaining r = drop (nat (ds_cursor r)) (ud_bytes (ds_data r))"

lemma ds_ok_init: "view_ok d \<Longrightarrow> ds_ok (ds_init d)" "remaining (ds_init d) = ud_bytes d"
  by (simp_all add: ds_ok_def ds_init_def remaining_def)

lemma length_remaining: "ds_ok r \<Longrightarrow> length (remaining r) = ud_size (ds_data r) - nat (ds_cursor r)"
  by (simp add: remaining_def ds_ok_def length_ud_bytes)

lemma ds_advance_ok:
  assumes "ds_ok r" "int n \<le> int (length (remaining r))"
  shows "ds_advance (int n) r = r\<lparr>ds_cursor := ds_cursor r + int n\<rparr>"
    "ds_ok (ds_advance (int n) r)" "remaining (ds_advance (int n) r) = drop n (remaining r)"
proof -
  have small: "ud_size (ds_data r) < 4611686018427387904" using assms by (auto simp: ds_ok_def dest: view_ok_size_bound)
  have le: "ds_cursor r + int n \<le> int (ud_size (ds_data r))"
    using assms length_remaining [OF assms(1)] by (auto simp: ds_ok_def)
  show adv: "ds_advance (int n) r = r\<lparr>ds_cursor := ds_cursor r + int n\<rparr>"
    using assms le small by (auto simp: ds_advance_def ds_seek_def iter_seek_def ds_ok_def to_off_small)
  show "ds_ok (ds_advance (int n) r)" using assms le by (simp add: adv ds_ok_def)
  show "remaining (ds_advance (int n) r) = drop n (remaining r)"
    using assms by (simp add: adv remaining_def ds_ok_def nat_add_distrib add.commute)
qed

lemma advance_read_ok:
  assumes "ds_ok r" "get (ds_data r) (ds_cursor r) = Some v" "n \<le> length (remaining r)"
  obtains r' where "advance_read get (int n) r = Some (v, r')" "ds_ok r'" "remaining r' = drop n (remaining r)"
    "ds_data r' = ds_data r" "ds_version r' = ds_version r" "ds_cursor r' = ds_cursor r + int n"
  using ds_advance_ok [OF assms(1), of n] assms
  by (intro that [of "ds_advance (int n) r"]) (auto simp: advance_read_def)

lemma advance_pair_ok:
  assumes "ds_ok r" "get (ds_data r) (ds_cursor r) = Some (n, v)" "0 < n" "n \<le> length (remaining r)"
  obtains r' where "advance_pair get r = Some ((n, v), r')" "ds_ok r'" "remaining r' = drop n (remaining r)"
    "ds_data r' = ds_data r" "ds_version r' = ds_version r"
proof -
  have "length (remaining r) < 9223372036854775808"
    using assms(1) view_ok_size_bound [of "ds_data r"] by (simp add: length_remaining ds_ok_def)
  with assms(4) have "to_off n = int n" by (simp add: to_off_small)
  then show ?thesis using ds_advance_ok [OF assms(1), of n] assms
    by (intro that [of "ds_advance (int n) r"]) (auto simp: advance_pair_def)
qed

text \<open>Reading consumes an encoding and leaves the rest.\<close>

context get_op
begin

lemma get_remaining:
  "ds_ok r \<Longrightarrow> remaining r = enc v @ rest \<Longrightarrow> get (ds_data r) (ds_cursor r) = Some (length (enc v), v)"
  by (rule get_enc) (auto simp: ds_ok_def remaining_def)

lemma advance_pair_enc:
  assumes "ds_ok r" "remaining r = enc v @ rest" "enc v \<noteq> []"
  obtains r' where "advance_pair get r = Some ((length (enc v), v), r')" "ds_ok r'" "remaining r' = rest"
    "ds_data r' = ds_data r" "ds_version r' = ds_version r"
  using assms(1) get_remaining [OF assms(1,2)]
  by (rule advance_pair_ok) (use assms in \<open>auto intro: that\<close>)

end

lemma advance4BytesUInt_enc:
  assumes "ds_ok r" "remaining r = be32 v @ rest"
  obtains r' where "advance4BytesUInt r = Some (v, r')" "ds_ok r'" "remaining r' = rest"
    "ds_data r' = ds_data r" "ds_version r' = ds_version r"
proof -
  have "get4BytesUInt (ds_data r) (ds_cursor r) = Some v"
    using assms by (intro get4BytesUInt_enc) (auto simp: ds_ok_def remaining_def)
  with assms(1) show ?thesis
    by (rule advance_read_ok [where get = get4BytesUInt and n = 4])
      (auto simp: advance4BytesUInt_def assms(2) intro: that)
qed

lemma sized_not_Nil: "sized bs \<noteq> []"
  using length_varint_bytes(1) [of "word_of_nat (length bs)"] by (auto simp: sized_def)

lemma advanceSizedString_enc:
  assumes "ds_ok r" "remaining r = sized bs @ rest"
  obtains r' where "advanceSizedString r = Some ((length (sized bs), bs), r')" "ds_ok r'" "remaining r' = rest"
    "ds_data r' = ds_data r" "ds_version r' = ds_version r"
  using assms sized_not_Nil by (rule codecs.advance_pair_enc) (auto simp: advanceSizedString_def intro: that)

lemma advanceVarint_enc:
  assumes "ds_ok r" "remaining r = varint_bytes v @ rest"
  obtains r' where "advanceVarint r = Some ((length (varint_bytes v), v), r')" "ds_ok r'" "remaining r' = rest"
    "ds_data r' = ds_data r" "ds_version r' = ds_version r"
  using assms
proof (rule codecv.advance_pair_enc)
  show "varint_bytes v \<noteq> []" using length_varint_bytes(1) [of v] by auto
qed (auto simp: advanceVarint_def intro: that)

lemma advanceSizedData_enc:
  assumes "ds_ok r" "remaining r = sized bs @ rest"
  obtains v r' where "advanceSizedData r = Some ((length (sized bs), v), r')" "view_ok v" "ud_bytes v = bs"
    "ds_ok r'" "remaining r' = rest" "ds_data r' = ds_data r" "ds_version r' = ds_version r"
proof -
  obtain v where v: "getSizedData (ds_data r) (ds_cursor r) = Some (length (sized bs), v)" "view_ok v" "ud_bytes v = bs"
    by (rule getSizedData_enc [of "ds_data r" "ds_cursor r" bs rest])
      (use assms in \<open>auto simp: ds_ok_def remaining_def\<close>)
  show ?thesis using assms(1) v(1)
    by (rule advance_pair_ok) (use v assms sized_not_Nil [of bs] in \<open>auto simp: advanceSizedData_def intro: that\<close>)
qed


section \<open>Properties\<close>

text \<open>
  C15: the sized encodings are inverse to each other.  Whatever the writer holds, writing a
  string with \<open>putSizedString\<close> succeeds, and reading at the old cursor of the finalized
  buffer gives the string and the length of its encoding.
\<close>

theorem sized_string_round_trip:
  assumes "malloc_total malloc" "ss_ok s" "room (length (sized str) + 9) s"
  shows "\<exists>s'. putSizedString malloc str s = Some (True, s') \<and> ss_ok s' \<and>
     getSizedString (ss_finalize s') (ss_cursor s) = Some (length (sized str), str)"
  using assms by (rule codecs.round_trip)

theorem sized_string_round_trip_witness:
  "\<exists>s'. putSizedString (\<lambda>n. Some (replicate n 0)) [104, 105] ss_init = Some (True, s') \<and> ss_ok s' \<and>
     getSizedString (ss_finalize s') (ss_cursor ss_init) = Some (length (sized [104, 105]), [104, 105])"
proof (rule sized_string_round_trip)
  show "malloc_total (\<lambda>n. Some (replicate n 0))" by (simp add: malloc_total_def malloc_ok_def)
  show "room (length (sized [104, 105]) + 9) ss_init"
    using length_varint_bytes(2) [of 2] by (simp add: room_def ss_init_def sized_def)
qed simp

text \<open>
  C27: the fixed-width reads are big-endian two's complement.  Inside of a well-formed
  view none of them leaves the allocation, and each gives the signed value of its bytes.
\<close>

theorem fixed_width_reads:
  assumes "view_ok d" "0 \<le> offset" "offset + int n \<le> int (ud_size d)"
  shows "(n = 1 \<longrightarrow> get1ByteInt d offset = Some (be_sint (bytes_at d offset 1))) \<and>
    (n = 2 \<longrightarrow> get2BytesInt d offset = Some (be_sint (bytes_at d offset 2))) \<and>
    (n = 3 \<longrightarrow> get3BytesInt d offset = Some (be_sint (bytes_at d offset 3))) \<and>
    (n = 4 \<longrightarrow> get4BytesInt d offset = Some (be_sint (bytes_at d offset 4)) \<and>
       map_option uint (get4BytesUInt d offset) = Some (be_uint (bytes_at d offset 4))) \<and>
    (n = 6 \<longrightarrow> get6BytesInt d offset = Some (be_sint (bytes_at d offset 6))) \<and>
    (n = 8 \<longrightarrow> get8BytesInt d offset = Some (be_sint (bytes_at d offset 8)) \<and>
       map_option uint (get8BytesDouble d offset) = Some (be_uint (bytes_at d offset 8)))"
  using assms get4BytesUInt_uint [of d offset] get8BytesInt_be [of d offset]
  by (auto simp: get1ByteInt_be get2BytesInt_be get3BytesInt_be get4BytesInt_be get6BytesInt_be)

definition sample_view :: udata where
  "sample_view = \<lparr>ud_mem = [255, 254, 0, 1, 2, 3, 4, 5, 6, 7], ud_off = 0, ud_size = 10, ud_shared = True\<rparr>"

theorem fixed_width_reads_witness:
  "view_ok sample_view \<and> get2BytesInt sample_view 0 = Some (- 2)"
  using fixed_width_reads [of sample_view 0 2]
  by (simp add: sample_view_def view_ok_def bytes_at_def ud_bytes_def be_simps)

text \<open>
  C29: a writing operation never writes outside of its buffer, whatever the allocator does,
  and either appends exactly the encoding or leaves what was written before.
\<close>

theorem writer_memory_safe:
  assumes "malloc_ok malloc" "ss_ok s" "room (length (sized str) + 9) s"
  shows "(\<exists>s'. putSizedString malloc str s = Some (True, s') \<and> ss_ok s' \<and>
            (written s' = written s @ sized str \<or> written s' = written s)) \<and>
     (\<exists>n s'. putVarint malloc v s = Some (n, s') \<and> ss_ok s' \<and>
            (if n = 0 then written s' = written s else written s' = written s @ varint_bytes v)) \<and>
     (\<exists>ok s'. put4BytesUInt malloc x s = Some (ok, s') \<and> ss_ok s' \<and>
            written s' = (if ok then written s @ be32 x else written s))"
proof (intro conjI)
  have "put_spec malloc s (sized str) (putSizedString malloc str s)"
    using assms by (rule putSizedString_spec)
  moreover have "putSizedString malloc str s \<noteq> Some (False, s')" for s'
    by (auto simp: putSizedString_def bind_Some_conv split: prod.splits)
  ultimately show "\<exists>s'. putSizedString malloc str s = Some (True, s') \<and> ss_ok s' \<and>
      (written s' = written s @ sized str \<or> written s' = written s)"
    by (fastforce simp: put_spec_def)
  have room: "room 9 s" "room 4 s" using assms(3) by (auto simp: room_def)
  show "\<exists>n s'. putVarint malloc v s = Some (n, s') \<and> ss_ok s' \<and>
      (if n = 0 then written s' = written s else written s' = written s @ varint_bytes v)"
    using assms(1,2) room(1) length_varint_bytes(1) [of v] assms(2)
    by (cases rule: putVarint_cases [where v = v]) auto
  show "\<exists>ok s'. put4BytesUInt malloc x s = Some (ok, s') \<and> ss_ok s' \<and>
      written s' = (if ok then written s @ be32 x else written s)"
    using assms(1,2) room(2) assms(2) by (cases rule: put4_cases [where v = x]) auto
qed

theorem writer_memory_safe_witness:
  "(\<exists>n s'. putVarint (\<lambda>_. None) 300 ss_init = Some (n, s') \<and> ss_ok s' \<and>
      (if n = 0 then written s' = written ss_init else written s' = written ss_init @ varint_bytes 300))"
proof -
  have "malloc_ok (\<lambda>_. None)" "room (length (sized []) + 9) ss_init"
    using length_varint_bytes(2) [of 0] by (auto simp: malloc_ok_def room_def ss_init_def sized_def)
  from writer_memory_safe [OF this(1) ss_ok_init this(2)] show ?thesis by blast
qed

text \<open>
  The result of \<open>putSizedString\<close> says nothing: with an allocator that has no memory it
  returns true for every string, and the buffer stays empty.
\<close>

theorem putSizedString_reports_success:
  "putSizedString (\<lambda>_. None) str ss_init = Some (True, ss_init)"
  by (simp add: putSizedString_def putVarint_def ss_expand_def ss_resize_def ss_init_def data_resize_def
      data_reset_def to_size_def size_max_def ss_seek_def iter_seek_def to_off_def)

text \<open>
  The bound check of \<open>getSizedString\<close> is done in \<open>size_t\<close>, so a length near \<open>2 ^ 64\<close>
  passes it and the copy leaves the allocation.
\<close>

theorem sized_length_wraps:
  "view_ok \<lparr>ud_mem = [255, 255, 255, 255, 255, 255, 255, 255, 255], ud_off = 0, ud_size = 9, ud_shared = True\<rparr> \<and>
   getSizedString \<lparr>ud_mem = [255, 255, 255, 255, 255, 255, 255, 255, 255], ud_off = 0, ud_size = 9, ud_shared = True\<rparr> 0 = None"
proof -
  let ?d = "\<lparr>ud_mem = [255, 255, 255, 255, 255, 255, 255, 255, 255], ud_off = 0, ud_size = 9, ud_shared = True\<rparr>"
  have view: "view_ok ?d" by (simp add: view_ok_def)
  have "getVarint ?d 0 = Some (9, 18446744073709551615)" by code_simp
  moreover have "getString ?d 9 (unat (18446744073709551615 :: u64)) = None"
    by (simp add: getString_def ud_read_def)
  moreover have "isEnough ?d (0 + int 9 + uint (18446744073709551615 :: u64))"
    by (simp add: isEnough_def to_size_def size_max_def)
  ultimately have "getSizedString ?d 0 = None"
    by (simp add: getSizedString_def)
  with view show ?thesis by blast
qed
end
