(* ===== verification/WCDB_Material.thy ===== *)
theory WCDB_Material
  imports WCDB_Serialization
begin

unbundle bit_operations_syntax

text \<open>
  \<open>src/src/common/repair/mechanic/Material.cpp\<close>: the material of a backup, its binary form,
  and the way back.

  A writing step is a function on the writer that returns the code's result, a reading step
  returns the element that \<open>markAsCorrupt\<close> names, or a value.  What a failed
  \<open>deserialize\<close> has already stored in the object is dropped, as its callers drop the object.
  \<open>crc32\<close> of zlib is a parameter.  A 64-bit integer is its bit pattern.
\<close>

section \<open>Steps\<close>

type_synonym writer = "serialization \<Rightarrow> (bool \<times> serialization) option"

text \<open>\<open>f && g\<close>, and a step whose result is not looked at.\<close>

definition wr_and :: "writer \<Rightarrow> writer \<Rightarrow> writer" where
  "wr_and f g s = do {
     (ok, s) \<leftarrow> f s;
     if ok then g s else Some (False, s)
   }"

definition wr_then :: "writer \<Rightarrow> writer \<Rightarrow> writer" where
  "wr_then f g s = do {
     (_, s) \<leftarrow> f s;
     g s
   }"

definition wr_true :: writer where
  "wr_true s = Some (True, s)"

primrec wr_all :: "writer list \<Rightarrow> writer" where
  "wr_all [] = wr_true"
| "wr_all (f # fs) = wr_and f (wr_all fs)"

type_synonym 'a reader = "deserialization \<Rightarrow> ((string + 'a) \<times> deserialization) option"

definition rd_bind :: "'a reader \<Rightarrow> ('a \<Rightarrow> 'b reader) \<Rightarrow> 'b reader" where
  "rd_bind f k r = do {
     (x, r) \<leftarrow> f r;
     case x of Inl e \<Rightarrow> Some (Inl e, r) | Inr v \<Rightarrow> k v r
   }"

definition rd_return :: "'a \<Rightarrow> 'a reader" where
  "rd_return v r = Some (Inr v, r)"

definition rd_guard :: "bool \<Rightarrow> string \<Rightarrow> unit reader" where
  "rd_guard b element r = Some (if b then Inr () else Inl element, r)"

definition rd_enough :: "int \<Rightarrow> string \<Rightarrow> unit reader" where
  "rd_enough n element r = rd_guard (ds_canAdvance n r) element r"

definition rd_version :: "u32 reader" where
  "rd_version r = Some (Inr (ds_version r), r)"

definition rd_setVersion :: "u32 \<Rightarrow> unit reader" where
  "rd_setVersion v r = Some (Inr (), r\<lparr>ds_version := v\<rparr>)"

definition rd_4BytesUInt :: "u32 reader" where
  "rd_4BytesUInt r = map_option (map_prod Inr id) (advance4BytesUInt r)"

definition rd_varint :: "string \<Rightarrow> u64 reader" where
  "rd_varint element r = do {
     ((n, v), r) \<leftarrow> advanceVarint r;
     rd_guard (n \<noteq> 0) element r \<bind> (\<lambda>(x, r). Some (map_sum id (\<lambda>_. v) x, r))
   }"

definition rd_string :: "string \<Rightarrow> byte list reader" where
  "rd_string element r = do {
     ((n, v), r) \<leftarrow> advanceSizedString r;
     rd_guard (n \<noteq> 0 \<and> v \<noteq> []) element r \<bind> (\<lambda>(x, r). Some (map_sum id (\<lambda>_. v) x, r))
   }"

primrec rd_repeat :: "nat \<Rightarrow> 'a reader \<Rightarrow> 'a list reader" where
  "rd_repeat 0 f = rd_return []"
| "rd_repeat (Suc n) f = rd_bind f (\<lambda>x. rd_bind (rd_repeat n f) (\<lambda>xs. rd_return (x # xs)))"

section \<open>Info\<close>

record minfo =
  mi_pageSize :: u32
  mi_reservedBytes :: u32
  mi_walSalt :: "u32 \<times> u32"
  mi_nBackFill :: u32
  mi_seqTableRootPage :: u32

definition UnknownPageNo :: u32 where
  "UnknownPageNo = - 1"

definition minfo_init :: minfo where
  "minfo_init = \<lparr>mi_pageSize = 0, mi_reservedBytes = 0, mi_walSalt = (0, 0), mi_nBackFill = 0, mi_seqTableRootPage = UnknownPageNo\<rparr>"

definition minfo_serialize :: "allocator \<Rightarrow> minfo \<Rightarrow> writer" where
  "minfo_serialize malloc i =
     wr_and (ss_expand malloc 24)
       (wr_then (put4BytesUInt malloc (mi_pageSize i))
       (wr_then (put4BytesUInt malloc (mi_reservedBytes i))
       (wr_then (put4BytesUInt malloc (fst (mi_walSalt i)))
       (wr_then (put4BytesUInt malloc (snd (mi_walSalt i)))
       (wr_then (put4BytesUInt malloc (mi_nBackFill i))
       (wr_then (put4BytesUInt malloc (mi_seqTableRootPage i)) wr_true))))))"

definition minfo_deserialize :: "minfo \<Rightarrow> minfo reader" where
  "minfo_deserialize i =
     rd_bind (rd_enough 20 ''Info'') (\<lambda>_.
     rd_bind rd_4BytesUInt (\<lambda>pageSize.
     rd_bind rd_4BytesUInt (\<lambda>reservedBytes.
     rd_bind rd_4BytesUInt (\<lambda>salt1.
     rd_bind rd_4BytesUInt (\<lambda>salt2.
     rd_bind rd_4BytesUInt (\<lambda>nBackFill.
     let i = i\<lparr>mi_pageSize := pageSize, mi_reservedBytes := reservedBytes, mi_walSalt := (salt1, salt2), mi_nBackFill := nBackFill\<rparr>
     in rd_bind rd_version (\<lambda>version.
        if version \<ge> 0x01000001
        then rd_bind (rd_enough 4 ''SeqTableRootPage'') (\<lambda>_.
             rd_bind rd_4BytesUInt (\<lambda>root. rd_return (i\<lparr>mi_seqTableRootPage := root\<rparr>)))
        else rd_return i)))))))"

section \<open>Content\<close>

record mpage =
  mp_number :: u32
  mp_hash :: u32

record content =
  ct_tableName :: "byte list"
  ct_sql :: "byte list"
  ct_associatedSQLs :: "byte list list"
  ct_rootPage :: u32
  ct_sequence :: u64
  ct_verifiedPagenos :: "mpage list"
  ct_checked :: bool

definition content_init :: content where
  "content_init = \<lparr>ct_tableName = [], ct_sql = [], ct_associatedSQLs = [], ct_rootPage = UnknownPageNo, ct_sequence = 0,
     ct_verifiedPagenos = [], ct_checked = False\<rparr>"

text \<open>
  The loop over the verified pages: \<open>rest\<close> is \<open>verifiedPagenos.size() - i\<close>, the number of pages
  from the current one on.
\<close>

fun pages_serialize :: "allocator \<Rightarrow> u32 \<Rightarrow> mpage list \<Rightarrow> serialization \<Rightarrow> (bool \<times> u32 \<times> serialization) option" where
  "pages_serialize malloc prePageNo [] s = Some (True, prePageNo, s)"
| "pages_serialize malloc prePageNo (page # pages) s =
     (if mp_number page = 0 then pages_serialize malloc prePageNo pages s
      else do {
        (ok, s) \<leftarrow> (if prePageNo = 0
                   then wr_and (putVarint_ok malloc (word_of_nat (length (page # pages)))) (putVarint_ok malloc (ucast (mp_number page))) s
                   else putVarint_ok malloc (ucast (mp_number page - prePageNo)) s);
        if \<not> ok then Some (False, prePageNo, s)
        else do {
          (ok, s) \<leftarrow> put4BytesUInt malloc (mp_hash page) s;
          if \<not> ok then Some (False, mp_number page, s) else pages_serialize malloc (mp_number page) pages s
        }
      })"

text \<open>\<open>serialize\<close> sorts the pages of the object, although it is a constant member function.\<close>

definition content_serialize :: "allocator \<Rightarrow> content \<Rightarrow> serialization \<Rightarrow> (bool \<times> content \<times> serialization) option" where
  "content_serialize malloc c s = do {
     (ok, s) \<leftarrow> wr_and (putSizedString malloc (ct_tableName c))
                (wr_and (putVarint_ok malloc (ucast (ct_rootPage c)))
                (wr_and (putVarint_ok malloc (ct_sequence c))
                (wr_and (putSizedString malloc (ct_sql c))
                (wr_and (putVarint_ok malloc (word_of_nat (length (ct_associatedSQLs c))))
                (wr_all (map (putSizedString malloc) (ct_associatedSQLs c))))))) s;
     if \<not> ok then Some (False, c, s)
     else do {
       let c = c\<lparr>ct_verifiedPagenos := sort_key mp_number (ct_verifiedPagenos c)\<rparr>;
       (ok, prePageNo, s) \<leftarrow> pages_serialize malloc 0 (ct_verifiedPagenos c) s;
       if \<not> ok then Some (False, c, s)
       else do {
         (ok, s) \<leftarrow> (if prePageNo = 0 then putVarint_ok malloc 0 s else Some (True, s));
         Some (ok, c, s)
       }
     }
   }"

primrec pages_deserialize :: "nat \<Rightarrow> u64 \<Rightarrow> mpage list reader" where
  "pages_deserialize 0 prePageNo = rd_return []"
| "pages_deserialize (Suc n) prePageNo =
     rd_bind (rd_varint ''Pageno'') (\<lambda>varint.
     rd_bind (rd_enough 4 ''PageChecksum'') (\<lambda>_.
     rd_bind rd_4BytesUInt (\<lambda>checksum.
     rd_bind rd_version (\<lambda>version.
     let (number, prePageNo) = (if version \<ge> 0x01000001 then (varint + prePageNo, prePageNo + varint) else (varint, prePageNo))
     in rd_bind (pages_deserialize n prePageNo) (\<lambda>pages.
        rd_return (\<lparr>mp_number = ucast number, mp_hash = checksum\<rparr> # pages))))))"

text \<open>\<open>reserve\<close> of a negative number of pages throws, which ends the process.\<close>

definition content_deserialize :: "content \<Rightarrow> content reader" where
  "content_deserialize c =
     rd_bind (rd_string ''TableName'') (\<lambda>tableName.
     rd_bind rd_version (\<lambda>version.
     rd_bind (if version \<ge> 0x01000001
              then rd_bind (rd_varint ''rootPage'') (\<lambda>pageNo. rd_return (ucast pageNo)) else rd_return (ct_rootPage c)) (\<lambda>rootPage.
     rd_bind (rd_varint ''Sequence'') (\<lambda>sequence.
     rd_bind (rd_string ''SQL'') (\<lambda>sql.
     rd_bind (rd_varint ''SQLs'') (\<lambda>varint.
     let numberOfAssociatedSQLs = sint (ucast varint :: u32)
     in rd_bind (rd_repeat (nat numberOfAssociatedSQLs) (rd_string ''SQLs'')) (\<lambda>associatedSQLs.
        rd_bind (rd_varint ''NumberOfPages'') (\<lambda>varint.
        let numberOfPages = sint (ucast varint :: u32)
        in if numberOfPages < 0 then (\<lambda>_. None)
           else rd_bind (pages_deserialize (nat numberOfPages) 0) (\<lambda>pages.
             rd_return (c\<lparr>ct_tableName := tableName, ct_sql := sql, ct_associatedSQLs := associatedSQLs, ct_rootPage := rootPage,
               ct_sequence := sequence, ct_verifiedPagenos := ct_verifiedPagenos c @ pages\<rparr>))))))))))"

section \<open>Material\<close>

type_synonym crc = "byte list \<Rightarrow> u32"

definition ud_hash :: "crc \<Rightarrow> udata \<Rightarrow> u32 option" where
  "ud_hash crc d = map_option crc (ud_read d 0 (ud_size d mod 4294967296))"

definition serializeData :: "allocator \<Rightarrow> crc \<Rightarrow> udata \<Rightarrow> writer" where
  "serializeData malloc crc data s = do {
     checksum \<leftarrow> (if ud_empty data then Some 0 else ud_hash crc data);
     wr_and (put4BytesUInt malloc checksum) (putSizedData malloc data) s
   }"

definition deserializeData :: "allocator \<Rightarrow> crc \<Rightarrow> udata reader" where
  "deserializeData malloc crc =
     rd_bind (rd_enough 4 ''Checksum'') (\<lambda>_.
     rd_bind rd_4BytesUInt (\<lambda>checksum r. do {
       ((n, v), r) \<leftarrow> advanceSizedData r;
       if n = 0 then Some (Inl ''Content'', r)
       else if \<not> ud_empty v then do {
         data \<leftarrow> data_assign malloc ud_null v;
         h \<leftarrow> ud_hash crc data;
         Some (if checksum \<noteq> h then Inl ''Checksum'' else Inr data, r)
       }
       else Some (if checksum \<noteq> 0 then Inl ''Checksum'' else Inr ud_null, r)
     }))"

record material =
  mt_info :: minfo
  mt_contentsList :: "content list"
  mt_contentsMap :: "byte list \<rightharpoonup> nat"

definition material_init :: material where
  "material_init = \<lparr>mt_info = minfo_init, mt_contentsList = [], mt_contentsMap = Map.empty\<rparr>"

text \<open>The loop over the contents; the result is the element that \<open>markAsEmpty\<close> names, if any.\<close>

fun contents_serialize :: "allocator \<Rightarrow> content list \<Rightarrow> serialization \<Rightarrow> (bool \<times> string option \<times> content list \<times> serialization) option" where
  "contents_serialize malloc [] s = Some (True, None, [], s)"
| "contents_serialize malloc (c # cs) s =
     (if ct_tableName c = [] then Some (False, Some ''TableName'', c # cs, s)
      else if ct_sql c = [] then Some (False, Some ''SQL'', c # cs, s)
      else do {
        (ok, c, s) \<leftarrow> content_serialize malloc c s;
        if \<not> ok then Some (False, None, c # cs, s)
        else do {
          (ok, e, cs, s) \<leftarrow> contents_serialize malloc cs s;
          Some (ok, e, c # cs, s)
        }
      })"

definition material_magic :: u32 where
  "material_magic = 0x57434442"

definition material_version :: u32 where
  "material_version = 0x01000001"

definition material_serialize ::
  "allocator \<Rightarrow> crc \<Rightarrow> material \<Rightarrow> serialization \<Rightarrow> (bool \<times> string option \<times> material \<times> serialization) option" where
  "material_serialize malloc crc m s = do {
     (ok, s) \<leftarrow> wr_and (ss_expand malloc 8)
                (wr_then (put4BytesUInt malloc material_magic)
                (wr_then (put4BytesUInt malloc material_version)
                (minfo_serialize malloc (mt_info m)))) s;
     if \<not> ok then Some (False, None, m, s)
     else do {
       (ok, e, cs, encoder) \<leftarrow> contents_serialize malloc (mt_contentsList m) ss_init;
       let m = m\<lparr>mt_contentsList := cs\<rparr>;
       if \<not> ok then Some (False, e, m, s)
       else do {
         (ok, s) \<leftarrow> serializeData malloc crc (ss_finalize encoder) s;
         Some (ok, None, m, s)
       }
     }
   }"

partial_function (option) contents_deserialize :: "material \<Rightarrow> deserialization \<Rightarrow> ((string + material) \<times> deserialization) option" where
  "contents_deserialize m decoder =
     (if ds_ended decoder then Some (Inr m, decoder)
      else do {
        (x, decoder) \<leftarrow> content_deserialize content_init decoder;
        case x of
          Inl e \<Rightarrow> Some (Inl e, decoder)
        | Inr c \<Rightarrow> contents_deserialize
            (m\<lparr>mt_contentsList := mt_contentsList m @ [c],
               mt_contentsMap := (mt_contentsMap m)(ct_tableName c \<mapsto> length (mt_contentsList m))\<rparr>) decoder
      })"

definition material_deserialize :: "allocator \<Rightarrow> crc \<Rightarrow> material \<Rightarrow> material reader" where
  "material_deserialize malloc crc m =
     rd_bind (rd_enough 8 ''Header'') (\<lambda>_.
     rd_bind rd_4BytesUInt (\<lambda>magicValue.
     rd_bind rd_4BytesUInt (\<lambda>versionValue.
     rd_bind (rd_guard (magicValue = material_magic) ''Magic'') (\<lambda>_.
     rd_bind (rd_guard (versionValue = 0x01000000 \<or> versionValue = material_version) ''Version'') (\<lambda>_.
     rd_bind (rd_setVersion versionValue) (\<lambda>_.
     rd_bind (minfo_deserialize (mt_info m)) (\<lambda>info.
     rd_bind (deserializeData malloc crc) (\<lambda>data r. do {
       (x, _) \<leftarrow> contents_deserialize (m\<lparr>mt_info := info\<rparr>) ((ds_init data)\<lparr>ds_version := ds_version r\<rparr>);
       Some (x, r)
     }))))))))"

end
