(* ===== verification/WCDB_MaterialTrip.thy ===== *)
theory WCDB_MaterialTrip
  imports WCDB_Material
begin

unbundle bit_operations_syntax

text \<open>
  The round trip of the material of a backup: what the steps of \<open>WCDB_Material\<close> write and read,
  composed along the code, up to \<open>Material::serialize\<close> and \<open>Material::deserialize\<close>.
\<close>

section \<open>Steps that append\<close>

text \<open>A writing step that succeeds when there is room, and appends the given bytes.\<close>

definition appends :: "writer \<Rightarrow> byte list \<Rightarrow> bool" where
  "appends f bs \<longleftrightarrow> (\<forall>s. ss_ok s \<and> room (length bs + 32) s \<longrightarrow>
     (\<exists>s'. f s = Some (True, s') \<and> ss_ok s' \<and> written s' = written s @ bs))"

lemma appendsD:
  assumes "appends f bs" "ss_ok s" "room (length bs + 32) s"
  obtains s' where "f s = Some (True, s')" "ss_ok s'" "written s' = written s @ bs"
  using assms unfolding appends_def by blast

lemma room_after:
  assumes "ss_ok s" "ss_ok s'" "written s' = written s @ bs" "room (length bs + n) s"
  shows "room n s'"
  using assms cursor_written [OF assms(1-3)] by (simp add: room_def)

lemma appends_seq:
  assumes "appends f x" "appends g y"
  shows "appends (wr_and f g) (x @ y)" "appends (wr_then f g) (x @ y)"
proof -
  have "\<exists>s1 s2. f s = Some (True, s1) \<and> g s1 = Some (True, s2) \<and> ss_ok s2 \<and> written s2 = written s @ x @ y"
    if s: "ss_ok s" "room (length (x @ y) + 32) s" for s
  proof -
    obtain s1 where s1: "f s = Some (True, s1)" "ss_ok s1" "written s1 = written s @ x"
      using assms(1) s(1) by (rule appendsD) (use s(2) in \<open>simp add: room_def\<close>)
    have "room (length x + (length y + 32)) s" using s(2) by (simp add: add.assoc)
    then have "room (length y + 32) s1" using room_after [OF s(1) s1(2,3)] by blast
    with assms(2) s1(2) obtain s2 where "g s1 = Some (True, s2)" "ss_ok s2" "written s2 = written s1 @ y" by (rule appendsD)
    then show ?thesis using s1 by auto
  qed
  then show "appends (wr_and f g) (x @ y)" "appends (wr_then f g) (x @ y)"
    unfolding appends_def wr_and_def wr_then_def by fastforce+
qed

lemma appends_true: "appends wr_true []"
  by (simp add: appends_def wr_true_def)

lemma appends_all: "(\<And>x. x \<in> set xs \<Longrightarrow> appends (f x) (enc x)) \<Longrightarrow> appends (wr_all (map f xs)) (concat (map enc xs))"
  by (induction xs) (simp_all add: appends_true appends_seq)

context put_op
begin

lemma appends_put: "malloc_total malloc \<Longrightarrow> slack \<le> 32 \<Longrightarrow> appends (put malloc v) (enc v)"
  unfolding appends_def
proof (intro allI impI)
  fix s
  assume a: "malloc_total malloc" "slack \<le> 32" "ss_ok s \<and> room (length (enc v) + 32) s"
  then have "room (length (enc v) + slack) s" by (simp add: room_def)
  with a show "\<exists>s'. put malloc v s = Some (True, s') \<and> ss_ok s' \<and> written s' = written s @ enc v"
    by (meson put_appends)
qed

end

lemmas appends_put4 = put4.appends_put [simplified]
  and appends_varint = putv.appends_put [simplified]
  and appends_sized = puts.appends_put [simplified]

lemma appends_expand: "malloc_total malloc \<Longrightarrow> n \<le> 32 \<Longrightarrow> appends (ss_expand malloc n) []"
  unfolding appends_def
proof (intro allI impI)
  fix s
  assume a: "malloc_total malloc" "n \<le> 32" "ss_ok s \<and> room (length ([] :: byte list) + 32) s"
  then have s: "malloc_ok malloc" "ss_ok s" "room n s" by (auto simp: malloc_total_ok room_def)
  then show "\<exists>s'. ss_expand malloc n s = Some (True, s') \<and> ss_ok s' \<and> written s' = written s @ []"
    by (cases rule: ss_expand_cases) (use a in auto)
qed

section \<open>Steps that read\<close>

text \<open>A reading step, at a data version, that takes the given bytes and gives the value.\<close>

definition reads :: "u32 \<Rightarrow> 'a reader \<Rightarrow> byte list \<Rightarrow> 'a \<Rightarrow> bool" where
  "reads version f bs v \<longleftrightarrow> (\<forall>r rest. ds_ok r \<and> remaining r = bs @ rest \<and> ds_version r = version \<longrightarrow>
     (\<exists>r'. f r = Some (Inr v, r') \<and> ds_ok r' \<and> remaining r' = rest \<and> ds_data r' = ds_data r \<and> ds_version r' = version))"

lemma readsD:
  assumes "reads version f bs v" "ds_ok r" "remaining r = bs @ rest" "ds_version r = version"
  obtains r' where "f r = Some (Inr v, r')" "ds_ok r'" "remaining r' = rest" "ds_data r' = ds_data r" "ds_version r' = version"
  using assms unfolding reads_def by blast

lemma reads_bind:
  assumes "reads version f x a" "reads version (k a) y b"
  shows "reads version (rd_bind f k) (x @ y) b"
  unfolding reads_def
proof (intro allI impI)
  fix r rest
  assume r: "ds_ok r \<and> remaining r = (x @ y) @ rest \<and> ds_version r = version"
  then obtain r1 where r1: "f r = Some (Inr a, r1)" "ds_ok r1" "remaining r1 = y @ rest" "ds_data r1 = ds_data r" "ds_version r1 = version"
    using readsD [OF assms(1)] by (metis append.assoc)
  with assms(2) obtain r2 where "k a r1 = Some (Inr b, r2)" "ds_ok r2" "remaining r2 = rest" "ds_data r2 = ds_data r1" "ds_version r2 = version"
    by (elim readsD)
  then show "\<exists>r'. rd_bind f k r = Some (Inr b, r') \<and> ds_ok r' \<and> remaining r' = rest \<and> ds_data r' = ds_data r \<and> ds_version r' = version"
    using r1 by (simp add: rd_bind_def)
qed

lemma reads_return: "reads version (rd_return v) [] v"
  by (simp add: reads_def rd_return_def)

lemma reads_last: "reads version f bs a \<Longrightarrow> reads version (rd_bind f (\<lambda>x. rd_return (g x))) bs (g a)"
  using reads_bind [of version f bs a "\<lambda>x. rd_return (g x)" "[]" "g a"] by (simp add: reads_return)

lemma reads_version: "reads version (k version) bs b \<Longrightarrow> reads version (rd_bind rd_version k) bs b"
  by (auto simp: reads_def rd_bind_def rd_version_def)

lemma reads_guard: "reads version (k ()) bs b \<Longrightarrow> reads version (rd_bind (rd_guard True e) k) bs b"
  by (auto simp: reads_def rd_bind_def rd_guard_def)

lemma canAdvance_remaining:
  assumes "ds_ok r" "n \<le> length (remaining r)"
  shows "ds_canAdvance (int n) r"
proof -
  have "ds_cursor r + int n \<le> int (ud_size (ds_data r))" using assms length_remaining [OF assms(1)] by (auto simp: ds_ok_def)
  moreover have "ud_size (ds_data r) < 4611686018427387904" using assms(1) by (auto simp: ds_ok_def dest: view_ok_size_bound)
  ultimately show ?thesis using assms(1)
    by (simp add: ds_canAdvance_def iter_canAdvance_def ds_ok_def to_size_nonneg size_max_def)
qed

lemma reads_enough:
  assumes "reads version (k ()) bs b" "n \<le> length bs"
  shows "reads version (rd_bind (rd_enough (int n) e) k) bs b"
  using assms by (auto simp: reads_def rd_bind_def rd_enough_def rd_guard_def canAdvance_remaining)

lemma readsI:
  assumes "\<And>r rest. ds_ok r \<Longrightarrow> remaining r = bs @ rest \<Longrightarrow> ds_version r = version \<Longrightarrow>
     \<exists>r'. f r = Some (Inr v, r') \<and> ds_ok r' \<and> remaining r' = rest \<and> ds_data r' = ds_data r \<and> ds_version r' = ds_version r"
  shows "reads version f bs v"
  using assms unfolding reads_def by fastforce

lemma reads_4BytesUInt: "reads version rd_4BytesUInt (be32 v) v"
proof (rule readsI)
  fix r rest
  assume r: "ds_ok r" "remaining r = be32 v @ rest"
  show "\<exists>r'. rd_4BytesUInt r = Some (Inr v, r') \<and> ds_ok r' \<and> remaining r' = rest \<and> ds_data r' = ds_data r \<and> ds_version r' = ds_version r"
    by (rule advance4BytesUInt_enc [OF r]) (simp add: rd_4BytesUInt_def)
qed

lemma reads_varint: "reads version (rd_varint e) (varint_bytes v) v"
proof (rule readsI)
  fix r rest
  assume r: "ds_ok r" "remaining r = varint_bytes v @ rest"
  have pos: "varint_bytes v \<noteq> []" using length_varint_bytes(1) [of v] by auto
  show "\<exists>r'. rd_varint e r = Some (Inr v, r') \<and> ds_ok r' \<and> remaining r' = rest \<and> ds_data r' = ds_data r \<and> ds_version r' = ds_version r"
    by (rule advanceVarint_enc [OF r]) (simp add: rd_varint_def rd_guard_def pos)
qed

lemma reads_string:
  assumes "v \<noteq> []"
  shows "reads version (rd_string e) (sized v) v"
proof (rule readsI)
  fix r rest
  assume r: "ds_ok r" "remaining r = sized v @ rest"
  show "\<exists>r'. rd_string e r = Some (Inr v, r') \<and> ds_ok r' \<and> remaining r' = rest \<and> ds_data r' = ds_data r \<and> ds_version r' = ds_version r"
    by (rule advanceSizedString_enc [OF r]) (simp add: rd_string_def rd_guard_def assms sized_not_Nil)
qed

lemma reads_repeat:
  "(\<And>x. x \<in> set xs \<Longrightarrow> reads version f (enc x) x) \<Longrightarrow> reads version (rd_repeat (length xs) f) (concat (map enc xs)) xs"
proof (induction xs)
  case (Cons x xs)
  have "reads version f (enc x) x" "reads version (rd_repeat (length xs) f) (concat (map enc xs)) xs" using Cons by simp_all
  then show ?case by (auto intro!: reads_bind reads_last)
qed (simp add: reads_return)

lemma appends_eq: "appends f bs \<Longrightarrow> bs = bs' \<Longrightarrow> appends f bs'"
  by simp

lemma reads_eq: "reads version f bs v \<Longrightarrow> bs = bs' \<Longrightarrow> v = v' \<Longrightarrow> reads version f bs' v'"
  by simp

lemma reads_enough_at:
  assumes "reads version (k ()) bs b" "0 \<le> n" "nat n \<le> length bs"
  shows "reads version (rd_bind (rd_enough n e) k) bs b"
  using reads_enough [of version k bs b "nat n" e] assms by simp

section \<open>Info\<close>

definition minfo_enc :: "minfo \<Rightarrow> byte list" where
  "minfo_enc i = be32 (mi_pageSize i) @ be32 (mi_reservedBytes i) @ be32 (fst (mi_walSalt i)) @ be32 (snd (mi_walSalt i)) @
     be32 (mi_nBackFill i) @ be32 (mi_seqTableRootPage i)"

lemma appends_minfo:
  assumes "malloc_total malloc"
  shows "appends (minfo_serialize malloc i) (minfo_enc i)"
  unfolding minfo_serialize_def
  by (rule appends_eq, rule appends_seq(1) [OF appends_expand [OF assms]], simp,
      (rule appends_seq(2) [OF appends_put4 [OF assms]])+, rule appends_true, simp add: minfo_enc_def)

lemma reads_minfo: "reads material_version (minfo_deserialize i0) (minfo_enc i) i"
  unfolding minfo_deserialize_def minfo_enc_def Let_def
  by (rule reads_enough_at, (rule reads_bind [OF reads_4BytesUInt])+, rule reads_version)
    (auto simp: material_version_def intro!: reads_enough_at reads_4BytesUInt
      reads_eq [OF reads_last [OF reads_4BytesUInt, of _ "\<lambda>root. i0\<lparr>mi_seqTableRootPage := root\<rparr>" for i0]])

section \<open>The verified pages\<close>

fun deltas :: "u32 \<Rightarrow> mpage list \<Rightarrow> byte list" where
  "deltas prePageNo [] = []"
| "deltas prePageNo (page # pages) =
     varint_bytes (ucast (mp_number page - prePageNo)) @ be32 (mp_hash page) @ deltas (mp_number page) pages"

definition pages_enc :: "mpage list \<Rightarrow> byte list" where
  "pages_enc pages = varint_bytes (word_of_nat (length pages)) @ deltas 0 pages"

definition live_pages :: "mpage list \<Rightarrow> mpage list" where
  "live_pages pages = filter (\<lambda>page. mp_number page \<noteq> 0) (sort_key mp_number pages)"

lemma pages_serialize_deleted:
  "\<forall>page \<in> set zs. mp_number page = 0 \<Longrightarrow> pages_serialize malloc prePageNo (zs @ pages) s = pages_serialize malloc prePageNo pages s"
  by (induction zs) auto

lemma sorted_deleted_first:
  "sorted (map mp_number pages) \<Longrightarrow>
   pages = filter (\<lambda>page. mp_number page = 0) pages @ filter (\<lambda>page. mp_number page \<noteq> 0) pages"
proof (induction pages)
  case (Cons page pages)
  show ?case
  proof (cases "mp_number page = 0")
    case False
    then have "\<forall>q \<in> set pages. mp_number q \<noteq> 0" using Cons.prems by auto
    then show ?thesis using False by (simp add: filter_False filter_id_conv)
  qed (use Cons in simp)
qed simp

lemma pages_serialize_live:
  assumes "malloc_total malloc" "\<forall>page \<in> set pages. mp_number page \<noteq> 0" "prePageNo \<noteq> 0"
    "ss_ok s" "room (length (deltas prePageNo pages) + 32) s"
  shows "\<exists>s' last. pages_serialize malloc prePageNo pages s = Some (True, last, s') \<and> last \<noteq> 0 \<and> ss_ok s' \<and>
    written s' = written s @ deltas prePageNo pages"
  using assms(2-)
proof (induction pages arbitrary: prePageNo s)
  case (Cons page pages)
  let ?x = "varint_bytes (ucast (mp_number page - prePageNo))"
  have "appends (wr_and (putVarint_ok malloc (ucast (mp_number page - prePageNo))) (put4BytesUInt malloc (mp_hash page))) (?x @ be32 (mp_hash page))"
    by (intro appends_seq appends_varint appends_put4 assms(1))
  then obtain s1 where s1: "wr_and (putVarint_ok malloc (ucast (mp_number page - prePageNo))) (put4BytesUInt malloc (mp_hash page)) s = Some (True, s1)"
    "ss_ok s1" "written s1 = written s @ ?x @ be32 (mp_hash page)"
    using Cons.prems(3) by (rule appendsD) (use Cons.prems(4) in \<open>simp add: room_def\<close>)
  have "room (length (deltas (mp_number page) pages) + 32) s1"
    using room_after [OF Cons.prems(3) s1(2,3), of "length (deltas (mp_number page) pages) + 32"] Cons.prems(4) by (simp add: room_def)
  then obtain s2 q where "pages_serialize malloc (mp_number page) pages s1 = Some (True, q, s2)" "q \<noteq> 0" "ss_ok s2"
    "written s2 = written s1 @ deltas (mp_number page) pages"
    using Cons.IH [of "mp_number page" s1] Cons.prems(1) s1(2) by auto
  then show ?case using s1 Cons.prems(1,2) by (auto simp: wr_and_def bind_Some_conv split: if_splits)
qed simp

lemma ucast_add_narrow: "(ucast (x + y :: u64) :: u32) = ucast x + ucast y"
proof -
  have "(uint x + uint y) mod 18446744073709551616 mod 4294967296 = (uint x + uint y) mod 4294967296"
    by (rule mod_mod_cancel) simp
  then show ?thesis
    unfolding word_uint_eq_iff by (simp add: unsigned_ucast_eq uint_word_ariths take_bit_eq_mod mod_add_eq)
qed

lemma ucast_32_64_32: "(ucast (ucast (x :: u32) :: u64) :: u32) = x"
  by (rule bit_word_eqI) (auto simp: bit_simps)

lemma reads_deltas:
  "reads material_version (pages_deserialize (length pages) prePageNo) (deltas (ucast prePageNo) pages) pages"
proof (induction pages arbitrary: prePageNo)
  case (Cons page pages)
  let ?v = "ucast (mp_number page - ucast prePageNo) :: u64"
  have pre: "ucast (?v + prePageNo) = mp_number page"
    by (simp add: ucast_add_narrow ucast_32_64_32)
  have step: "reads material_version (pages_deserialize (length pages) (prePageNo + ?v)) (deltas (mp_number page) pages) pages"
    using Cons.IH [of "prePageNo + ?v"] pre by (simp add: add.commute)
  show ?case
    unfolding list.size pages_deserialize.simps deltas.simps add_0_right add_Suc_right
    by (rule reads_bind [OF reads_varint], rule reads_enough_at, rule reads_bind [OF reads_4BytesUInt], rule reads_version)
      (auto simp: material_version_def pre intro!: reads_eq [OF reads_last [OF step [unfolded material_version_def]]])
qed (simp add: reads_return)

section \<open>Content\<close>

definition content_enc :: "content \<Rightarrow> byte list" where
  "content_enc c =
     sized (ct_tableName c) @ varint_bytes (ucast (ct_rootPage c)) @ varint_bytes (ct_sequence c) @ sized (ct_sql c) @
     varint_bytes (word_of_nat (length (ct_associatedSQLs c))) @ concat (map sized (ct_associatedSQLs c)) @
     pages_enc (live_pages (ct_verifiedPagenos c))"

text \<open>What a content is after a round trip: the deleted pages are gone and the flag is reset.\<close>

definition content_image :: "content \<Rightarrow> content" where
  "content_image c = c\<lparr>ct_verifiedPagenos := live_pages (ct_verifiedPagenos c), ct_checked := False\<rparr>"

definition content_wf :: "content \<Rightarrow> bool" where
  "content_wf c \<longleftrightarrow> ct_tableName c \<noteq> [] \<and> ct_sql c \<noteq> [] \<and> [] \<notin> set (ct_associatedSQLs c) \<and>
     length (ct_associatedSQLs c) < 2147483648 \<and> length (ct_verifiedPagenos c) < 2147483648"

lemma pages_serialize_first:
  assumes "malloc_total malloc" "\<forall>page \<in> set pages. mp_number page \<noteq> 0" "pages \<noteq> []"
    "ss_ok s" "room (length (pages_enc pages) + 32) s"
  shows "\<exists>s' last. pages_serialize malloc 0 pages s = Some (True, last, s') \<and> last \<noteq> 0 \<and> ss_ok s' \<and>
    written s' = written s @ pages_enc pages"
proof -
  obtain page ps where pages: "pages = page # ps" using assms(3) by (cases pages) auto
  let ?f = "wr_and (wr_and (putVarint_ok malloc (word_of_nat (length pages))) (putVarint_ok malloc (ucast (mp_number page))))
      (put4BytesUInt malloc (mp_hash page))"
  let ?x = "(varint_bytes (word_of_nat (length pages)) @ varint_bytes (ucast (mp_number page))) @ be32 (mp_hash page)"
  have len: "length (pages_enc pages) = length ?x + length (deltas (mp_number page) ps)" by (simp add: pages_enc_def pages)
  have "appends ?f ?x" by (intro appends_seq appends_varint appends_put4 assms(1))
  then obtain s1 where s1: "?f s = Some (True, s1)" "ss_ok s1" "written s1 = written s @ ?x"
    using assms(4) by (rule appendsD) (use assms(5) len in \<open>simp add: room_def\<close>)
  have "room (length (deltas (mp_number page) ps) + 32) s1"
    using room_after [OF assms(4) s1(2,3), of "length (deltas (mp_number page) ps) + 32"] assms(5) len by (simp add: room_def)
  then obtain s2 q where "pages_serialize malloc (mp_number page) ps s1 = Some (True, q, s2)" "q \<noteq> 0" "ss_ok s2"
    "written s2 = written s1 @ deltas (mp_number page) ps"
    using pages_serialize_live [OF assms(1), of ps "mp_number page" s1] assms(2) pages s1(2) by auto
  then show ?thesis using s1 assms(2) by (auto simp: pages pages_enc_def wr_and_def bind_Some_conv split: if_splits)
qed

lemma pages_serialize_appends:
  assumes "malloc_total malloc" "ss_ok s" "room (length (pages_enc (live_pages pages)) + 32) s"
  shows "\<exists>s1 s2 last. pages_serialize malloc 0 (sort_key mp_number pages) s = Some (True, last, s1) \<and>
    (if last = 0 then putVarint_ok malloc 0 s1 else Some (True, s1)) = Some (True, s2) \<and> ss_ok s2 \<and>
    written s2 = written s @ pages_enc (live_pages pages)"
proof -
  let ?sorted = "sort_key mp_number pages" and ?live = "live_pages pages"
  have "?sorted = filter (\<lambda>page. mp_number page = 0) ?sorted @ ?live"
    unfolding live_pages_def by (rule sorted_deleted_first) simp
  then have eq: "pages_serialize malloc 0 ?sorted s = pages_serialize malloc 0 ?live s"
    using pages_serialize_deleted [of "filter (\<lambda>page. mp_number page = 0) ?sorted" malloc 0 ?live s] by simp
  show ?thesis
  proof (cases "?live = []")
    case True
    have enc: "pages_enc ?live = varint_bytes 0" by (simp add: True pages_enc_def)
    obtain s2 where "putVarint_ok malloc 0 s = Some (True, s2)" "ss_ok s2" "written s2 = written s @ varint_bytes 0"
      using appends_varint [OF assms(1)] assms(2) by (rule appendsD) (use assms(3) enc in simp)
    then show ?thesis by (simp add: eq True enc [unfolded True])
  next
    case False
    then show ?thesis using pages_serialize_first [OF assms(1) _ False assms(2,3)] by (auto simp: eq live_pages_def)
  qed
qed

lemma content_serialize_appends:
  assumes "malloc_total malloc" "ss_ok s" "room (length (content_enc c) + 32) s"
  shows "\<exists>s'. content_serialize malloc c s = Some (True, c\<lparr>ct_verifiedPagenos := sort_key mp_number (ct_verifiedPagenos c)\<rparr>, s') \<and>
    ss_ok s' \<and> written s' = written s @ content_enc c"
proof -
  let ?f = "wr_and (putSizedString malloc (ct_tableName c))
                (wr_and (putVarint_ok malloc (ucast (ct_rootPage c)))
                (wr_and (putVarint_ok malloc (ct_sequence c))
                (wr_and (putSizedString malloc (ct_sql c))
                (wr_and (putVarint_ok malloc (word_of_nat (length (ct_associatedSQLs c))))
                (wr_all (map (putSizedString malloc) (ct_associatedSQLs c)))))))"
  let ?x = "sized (ct_tableName c) @ varint_bytes (ucast (ct_rootPage c)) @ varint_bytes (ct_sequence c) @ sized (ct_sql c) @
     varint_bytes (word_of_nat (length (ct_associatedSQLs c))) @ concat (map sized (ct_associatedSQLs c))"
  let ?p = "pages_enc (live_pages (ct_verifiedPagenos c))"
  have enc: "content_enc c = ?x @ ?p" by (simp add: content_enc_def)
  have "appends ?f ?x" by (intro appends_seq appends_varint appends_sized appends_all assms(1))
  then obtain s1 where s1: "?f s = Some (True, s1)" "ss_ok s1" "written s1 = written s @ ?x"
    using assms(2) by (rule appendsD) (use assms(3) in \<open>simp add: room_def enc\<close>)
  have "room (length ?p + 32) s1"
    using room_after [OF assms(2) s1(2,3), of "length ?p + 32"] assms(3) by (simp add: room_def enc)
  then obtain s2 s3 q where s3: "pages_serialize malloc 0 (sort_key mp_number (ct_verifiedPagenos c)) s1 = Some (True, q, s2)"
    "(if q = 0 then putVarint_ok malloc 0 s2 else Some (True, s2)) = Some (True, s3)" "ss_ok s3" "written s3 = written s1 @ ?p"
    using pages_serialize_appends [OF assms(1) s1(2)] by blast
  then show ?thesis using s1 by (simp add: content_serialize_def Let_def enc)
qed

lemma count_32: "n < 2147483648 \<Longrightarrow> sint (ucast (word_of_nat n :: u64) :: u32) = int n"
proof -
  assume n: "n < 2147483648"
  have "(ucast (word_of_nat n :: u64) :: u32) = word_of_int (int n)"
    using n by (simp add: word_uint_eq_iff unsigned_ucast_eq uint_word_of_int unsigned_of_nat take_bit_eq_mod)
  then show ?thesis using narrow32_id [of "int n"] n by (simp add: narrow32_def)
qed

lemma length_live_pages: "length (live_pages pages) \<le> length pages"
  unfolding live_pages_def using length_filter_le [of _ "sort_key mp_number pages"] by simp

lemma reads_content:
  assumes "content_wf c"
  shows "reads material_version (content_deserialize content_init) (content_enc c) (content_image c)"
proof -
  let ?pages = "live_pages (ct_verifiedPagenos c)"
  have sqls: "reads material_version (rd_repeat (length (ct_associatedSQLs c)) (rd_string ''SQLs'')) (concat (map sized (ct_associatedSQLs c))) (ct_associatedSQLs c)"
    using assms by (intro reads_repeat reads_string) (auto simp: content_wf_def)
  have pages: "reads material_version (pages_deserialize (length ?pages) 0) (deltas 0 ?pages) ?pages" using reads_deltas [of ?pages 0] by simp
  have counts: "sint (ucast (word_of_nat (length (ct_associatedSQLs c)) :: u64) :: u32) = int (length (ct_associatedSQLs c))"
    "sint (ucast (word_of_nat (length ?pages) :: u64) :: u32) = int (length ?pages)"
    using assms length_live_pages [of "ct_verifiedPagenos c"] by (auto simp: content_wf_def intro!: count_32)
  have ne: "ct_tableName c \<noteq> []" "ct_sql c \<noteq> []" using assms by (simp_all add: content_wf_def)
  have image: "content_image c = content_init\<lparr>ct_tableName := ct_tableName c, ct_sql := ct_sql c, ct_associatedSQLs := ct_associatedSQLs c,
      ct_rootPage := ct_rootPage c, ct_sequence := ct_sequence c, ct_verifiedPagenos := ct_verifiedPagenos content_init @ ?pages\<rparr>"
    by (simp add: content_image_def content_init_def)
  have root: "reads material_version (rd_bind (rd_varint ''rootPage'') (\<lambda>pageNo. rd_return (ucast pageNo))) (varint_bytes (ucast (ct_rootPage c))) (ct_rootPage c)"
    using reads_last [OF reads_varint [where v = "ucast (ct_rootPage c)"], where g = "\<lambda>pageNo. ucast pageNo :: u32"] by (simp add: ucast_32_64_32)
  have version: "(0x01000001 :: u32) \<le> material_version" by (simp add: material_version_def)
  show ?thesis
    unfolding content_deserialize_def content_enc_def pages_enc_def Let_def image
    apply (rule reads_bind [OF reads_string [OF ne(1)]])
    apply (rule reads_version)
    apply (simp only: version if_True)
    apply (rule reads_bind [OF root])
    apply (rule reads_bind [OF reads_varint])
    apply (rule reads_bind [OF reads_string [OF ne(2)]])
    apply (rule reads_bind [OF reads_varint])
    apply (simp only: counts nat_int)
    apply (rule reads_bind [OF sqls])
    apply (rule reads_bind [OF reads_varint])
    apply (simp only: counts nat_int of_nat_less_0_iff if_False)
    apply (rule reads_last [OF pages])
    done
qed

section \<open>Material\<close>

definition data_sum :: "crc \<Rightarrow> byte list \<Rightarrow> u32" where
  "data_sum crc bs = (if bs = [] then 0 else crc (take (length bs mod 4294967296) bs))"

definition contents_enc :: "content list \<Rightarrow> byte list" where
  "contents_enc cs = concat (map content_enc cs)"

definition material_enc :: "crc \<Rightarrow> material \<Rightarrow> byte list" where
  "material_enc crc m =
     be32 material_magic @ be32 material_version @ minfo_enc (mt_info m) @
     be32 (data_sum crc (contents_enc (mt_contentsList m))) @ sized (contents_enc (mt_contentsList m))"

definition material_wf :: "material \<Rightarrow> bool" where
  "material_wf m \<longleftrightarrow> (\<forall>c \<in> set (mt_contentsList m). content_wf c) \<and>
     length (contents_enc (mt_contentsList m)) \<le> 288230376151711744"

definition sorted_content :: "content \<Rightarrow> content" where
  "sorted_content c = c\<lparr>ct_verifiedPagenos := sort_key mp_number (ct_verifiedPagenos c)\<rparr>"

lemma contents_serialize_appends:
  assumes "malloc_total malloc" "\<forall>c \<in> set cs. content_wf c" "ss_ok s" "room (length (contents_enc cs) + 32) s"
  shows "\<exists>s'. contents_serialize malloc cs s = Some (True, None, map sorted_content cs, s') \<and> ss_ok s' \<and>
    written s' = written s @ contents_enc cs"
  using assms(2-)
proof (induction cs arbitrary: s)
  case (Cons c cs)
  have wf: "ct_tableName c \<noteq> []" "ct_sql c \<noteq> []" using Cons.prems(1) by (simp_all add: content_wf_def)
  have enc: "contents_enc (c # cs) = content_enc c @ contents_enc cs" by (simp add: contents_enc_def)
  obtain s1 where s1: "content_serialize malloc c s = Some (True, sorted_content c, s1)" "ss_ok s1" "written s1 = written s @ content_enc c"
    using content_serialize_appends [OF assms(1) Cons.prems(2), of c] Cons.prems(3) by (auto simp: room_def enc sorted_content_def)
  have "room (length (contents_enc cs) + 32) s1"
    using room_after [OF Cons.prems(2) s1(2,3), of "length (contents_enc cs) + 32"] Cons.prems(3) by (simp add: room_def enc)
  with Cons.IH [of s1] Cons.prems(1) s1(2) obtain s2 where
    "contents_serialize malloc cs s1 = Some (True, None, map sorted_content cs, s2)" "ss_ok s2" "written s2 = written s1 @ contents_enc cs"
    by auto
  then show ?case using wf s1 by (simp add: enc)
qed (simp add: contents_enc_def)

lemma appends_serializeData:
  assumes "malloc_total malloc" "view_ok d" "ud_bytes d = bs"
  shows "appends (serializeData malloc crc d) (be32 (data_sum crc bs) @ sized bs)"
proof -
  have len: "ud_size d = length bs" using assms(2,3) length_ud_bytes by metis
  have "length bs mod 4294967296 \<le> length bs" by simp
  then have "ud_read d 0 (length bs mod 4294967296) = Some (take (length bs mod 4294967296) bs)"
    using ud_read_in_view [OF assms(2), of 0 "length bs mod 4294967296"] len assms(3) by (simp add: bytes_at_def)
  then have sum: "(if ud_empty d then Some 0 else ud_hash crc d) = Some (data_sum crc bs)"
    using len by (auto simp: ud_empty_def ud_hash_def data_sum_def)
  have "appends (wr_and (put4BytesUInt malloc (data_sum crc bs)) (putSizedString malloc bs)) (be32 (data_sum crc bs) @ sized bs)"
    by (intro appends_seq appends_put4 appends_sized assms(1))
  moreover have "putSizedData malloc d = putSizedString malloc bs"
    by (rule ext) (simp add: putSizedData_eq_string [OF assms(2)] assms(3))
  then have "serializeData malloc crc d = wr_and (put4BytesUInt malloc (data_sum crc bs)) (putSizedString malloc bs)"
    by (intro ext) (simp add: serializeData_def sum)
  ultimately show ?thesis by simp
qed

lemma material_serialize_appends:
  assumes "malloc_total malloc" "material_wf m"
  shows "\<exists>s'. material_serialize malloc crc m ss_init = Some (True, None, m\<lparr>mt_contentsList := map sorted_content (mt_contentsList m)\<rparr>, s') \<and>
    ss_ok s' \<and> written s' = material_enc crc m"
proof -
  let ?cs = "mt_contentsList m"
  let ?B = "contents_enc ?cs" and ?h = "be32 material_magic @ be32 material_version @ minfo_enc (mt_info m)"
  let ?f = "wr_and (ss_expand malloc 8) (wr_then (put4BytesUInt malloc material_magic) (wr_then (put4BytesUInt malloc material_version)
      (minfo_serialize malloc (mt_info m))))"
  have B: "length ?B \<le> 288230376151711744" using assms(2) by (simp add: material_wf_def)
  have size: "length (sized ?B) \<le> length ?B + 9" using length_varint_bytes(2) [of "word_of_nat (length ?B)"] by (simp add: sized_def)
  have "appends (ss_expand malloc 8) []" by (rule appends_expand [OF assms(1)]) simp
  then have "appends ?f ([] @ ?h)" by (intro appends_seq appends_put4 appends_minfo assms(1))
  then have "appends ?f ?h" by simp
  then obtain s1 where s1: "?f ss_init = Some (True, s1)" "ss_ok s1" "written s1 = written ss_init @ ?h"
    using ss_ok_init by (rule appendsD) (simp add: room_def ss_init_def minfo_enc_def)
  obtain e where e: "contents_serialize malloc ?cs ss_init = Some (True, None, map sorted_content ?cs, e)" "ss_ok e" "written e = ?B"
    using contents_serialize_appends [OF assms(1), of ?cs ss_init] assms(2) B by (auto simp: material_wf_def room_def ss_init_def [THEN arg_cong, of ss_cursor])
  have v: "view_ok (ss_finalize e)" "ud_bytes (ss_finalize e) = ?B" using ss_finalize_written [OF e(2)] e(3) by simp_all
  have "ss_cursor s1 = 32" using cursor_written [OF ss_ok_init s1(2,3)] by (simp add: ss_init_def minfo_enc_def)
  then have "room (length (be32 (data_sum crc ?B) @ sized ?B) + 32) s1" using B size by (simp add: room_def)
  with appends_serializeData [OF assms(1) v] s1(2) obtain s2 where
    "serializeData malloc crc (ss_finalize e) s1 = Some (True, s2)" "ss_ok s2" "written s2 = written s1 @ be32 (data_sum crc ?B) @ sized ?B"
    by (rule appendsD)
  then show ?thesis using s1 e(1) by (simp add: material_serialize_def material_enc_def Let_def)
qed

definition add_content :: "content \<Rightarrow> material \<Rightarrow> material" where
  "add_content c m = m\<lparr>mt_contentsList := mt_contentsList m @ [c],
     mt_contentsMap := (mt_contentsMap m)(ct_tableName c \<mapsto> length (mt_contentsList m))\<rparr>"

lemma fold_add_content:
  "fold add_content cs m = m\<lparr>mt_contentsList := mt_contentsList m @ cs,
     mt_contentsMap := mt_contentsMap m ++
       map_of (rev (zip (map ct_tableName cs) [length (mt_contentsList m) ..< length (mt_contentsList m) + length cs]))\<rparr>"
proof (induction cs arbitrary: m)
  case (Cons c cs)
  let ?n = "length (mt_contentsList m)"
  have upt: "[?n ..< ?n + length (c # cs)] = ?n # [Suc ?n ..< Suc ?n + length cs]" by (simp add: upt_conv_Cons del: upt_Suc)
  have fields: "mt_contentsList (add_content c m) = mt_contentsList m @ [c]"
    "mt_contentsMap (add_content c m) = (mt_contentsMap m)(ct_tableName c \<mapsto> ?n)"
    by (simp_all add: add_content_def)
  have ac: "add_content c m = m\<lparr>mt_contentsList := mt_contentsList m @ [c], mt_contentsMap := (mt_contentsMap m)(ct_tableName c \<mapsto> ?n)\<rparr>"
    by (simp add: add_content_def)
  have "fold add_content (c # cs) m = fold add_content cs (add_content c m)" by simp
  also note Cons.IH [of "add_content c m", unfolded fields]
  finally show ?case unfolding upt
    by (simp only:, intro material.equality) (simp_all add: ac fun_eq_iff map_add_def del: upt_Suc split: option.split)
qed simp

lemma ds_ended_remaining: "ds_ok r \<Longrightarrow> ds_ended r \<longleftrightarrow> remaining r = []"
  using length_remaining [of r] view_ok_size_bound [of "ds_data r"]
  by (auto simp: ds_ended_def iter_ended_def ds_ok_def to_off_small)

lemma contents_deserialize_enc:
  assumes "\<forall>c \<in> set cs. content_wf c" "ds_ok r" "remaining r = contents_enc cs" "ds_version r = material_version"
  shows "\<exists>r'. contents_deserialize m r = Some (Inr (fold add_content (map content_image cs) m), r')"
  using assms
proof (induction cs arbitrary: m r)
  case Nil
  then show ?case by (subst contents_deserialize.simps) (simp add: ds_ended_remaining contents_enc_def)
next
  case (Cons c cs)
  have rem: "remaining r = content_enc c @ contents_enc cs" using Cons.prems(3) by (simp add: contents_enc_def)
  have "content_enc c \<noteq> []" using sized_not_Nil by (simp add: content_enc_def)
  then have more: "\<not> ds_ended r" using Cons.prems(2) rem by (simp add: ds_ended_remaining)
  have "content_wf c" using Cons.prems(1) by simp
  from reads_content [OF this] Cons.prems(2) rem Cons.prems(4) obtain r1 where
    r1: "content_deserialize content_init r = Some (Inr (content_image c), r1)" "ds_ok r1" "remaining r1 = contents_enc cs"
      "ds_version r1 = material_version"
    by (rule readsD)
  obtain r2 where "contents_deserialize (add_content (content_image c) m) r1 = Some (Inr (fold add_content (map content_image cs) (add_content (content_image c) m)), r2)"
    using Cons.IH [of r1] Cons.prems(1) r1 by auto
  then show ?case using more r1(1) by (subst contents_deserialize.simps) (simp add: add_content_def)
qed

lemma data_assign_view:
  assumes "malloc_total malloc" "view_ok v" "ud_bytes v = bs" "bs \<noteq> []" "length bs \<le> 2305843009213693952"
  obtains data where "data_assign malloc ud_null v = Some data" "view_ok data" "ud_bytes data = bs"
proof (cases "ud_shared v")
  case True
  then show ?thesis using assms by (intro that [of v]) (simp_all add: data_assign_def)
next
  case False
  have len: "ud_size v = length bs" using assms(2,3) length_ud_bytes by metis
  obtain b where b: "malloc (length bs) = Some b" using assms(1,4,5) by (auto simp: malloc_total_def)
  have "ud_read v 0 (length bs) = Some bs" using ud_read_in_view [OF assms(2), of 0 "length bs"] len assms(3) by (simp add: bytes_at_def)
  then show ?thesis using False b len assms(4,5)
    by (intro that [of "\<lparr>ud_mem = bs, ud_off = 0, ud_size = length bs, ud_shared = True\<rparr>"])
      (simp_all add: data_assign_def data_reset_def view_ok_def ud_bytes_def)
qed

lemma ud_hash_view: "view_ok d \<Longrightarrow> ud_bytes d = bs \<Longrightarrow> bs \<noteq> [] \<Longrightarrow> ud_hash crc d = Some (data_sum crc bs)"
  using ud_read_in_view [of d 0 "length bs mod 4294967296"] length_ud_bytes [of d]
  by (auto simp: ud_hash_def data_sum_def bytes_at_def)

lemma deserializeData_enc:
  assumes "malloc_total malloc" "ds_ok r" "remaining r = be32 (data_sum crc bs) @ sized bs @ rest" "length bs \<le> 2305843009213693952"
  obtains data r' where "deserializeData malloc crc r = Some (Inr data, r')" "view_ok data" "ud_bytes data = bs" "ds_version r' = ds_version r"
proof -
  have enough: "ds_canAdvance 4 r" using canAdvance_remaining [OF assms(2), of 4] assms(3) by simp
  obtain r1 where r1: "advance4BytesUInt r = Some (data_sum crc bs, r1)" "ds_ok r1" "remaining r1 = sized bs @ rest" "ds_version r1 = ds_version r"
    using assms(2,3) by (rule advance4BytesUInt_enc)
  obtain v r2 where r2: "advanceSizedData r1 = Some ((length (sized bs), v), r2)" "view_ok v" "ud_bytes v = bs" "ds_version r2 = ds_version r1"
    using r1(2,3) by (rule advanceSizedData_enc)
  have len: "ud_size v = length bs" using r2(2,3) length_ud_bytes by metis
  have ne: "length (sized bs) \<noteq> 0" using sized_not_Nil by simp
  show ?thesis
  proof (cases "bs = []")
    case True
    then show ?thesis using enough r1 r2 len ne
      by (intro that [of ud_null r2])
        (simp_all add: deserializeData_def rd_bind_def rd_enough_def rd_guard_def rd_4BytesUInt_def ud_empty_def data_sum_def ud_bytes_def sized_not_Nil)
  next
    case False
    obtain data where data: "data_assign malloc ud_null v = Some data" "view_ok data" "ud_bytes data = bs"
      using assms(1) r2(2,3) False assms(4) by (rule data_assign_view)
    then show ?thesis using enough r1 r2 len ne False ud_hash_view [OF data(2,3) False, of crc]
      by (intro that [of data r2])
        (simp_all add: deserializeData_def rd_bind_def rd_enough_def rd_guard_def rd_4BytesUInt_def ud_empty_def sized_not_Nil)
  qed
qed

text \<open>The material after a round trip.\<close>

definition material_image :: "material \<Rightarrow> material" where
  "material_image m =
     (let cs = map content_image (mt_contentsList m)
      in \<lparr>mt_info = mt_info m, mt_contentsList = cs, mt_contentsMap = map_of (rev (zip (map ct_tableName cs) [0 ..< length cs]))\<rparr>)"

lemma material_deserialize_enc:
  assumes "malloc_total malloc" "material_wf m" "view_ok d" "ud_bytes d = material_enc crc m @ pad"
  shows "\<exists>r. material_deserialize malloc crc material_init (ds_init d) = Some (Inr (material_image m), r)"
proof -
  let ?B = "contents_enc (mt_contentsList m)"
  let ?r = "ds_init d"
  have r: "ds_ok ?r" "remaining ?r = be32 material_magic @ be32 material_version @ minfo_enc (mt_info m) @ be32 (data_sum crc ?B) @ sized ?B @ pad"
    using ds_ok_init(1) [OF assms(3)] ds_ok_init(2) [of d] assms(4) by (simp_all add: material_enc_def)
  have enough: "ds_canAdvance 8 ?r" using canAdvance_remaining [OF r(1), of 8] r(2) by simp
  obtain r1 where r1: "advance4BytesUInt ?r = Some (material_magic, r1)" "ds_ok r1"
    "remaining r1 = be32 material_version @ minfo_enc (mt_info m) @ be32 (data_sum crc ?B) @ sized ?B @ pad"
    using r by (rule advance4BytesUInt_enc)
  obtain r2 where r2: "advance4BytesUInt r1 = Some (material_version, r2)" "ds_ok r2"
    "remaining r2 = minfo_enc (mt_info m) @ be32 (data_sum crc ?B) @ sized ?B @ pad"
    using r1(2,3) by (rule advance4BytesUInt_enc)
  let ?r2 = "r2\<lparr>ds_version := material_version\<rparr>"
  have r2': "ds_ok ?r2" "remaining ?r2 = minfo_enc (mt_info m) @ be32 (data_sum crc ?B) @ sized ?B @ pad" "ds_version ?r2 = material_version"
    using r2 by (simp_all add: ds_ok_def remaining_def)
  obtain r3 where r3: "minfo_deserialize minfo_init ?r2 = Some (Inr (mt_info m), r3)" "ds_ok r3"
    "remaining r3 = be32 (data_sum crc ?B) @ sized ?B @ pad" "ds_version r3 = material_version"
    using reads_minfo r2' by (rule readsD)
  have "length ?B \<le> 2305843009213693952" using assms(2) by (simp add: material_wf_def)
  with assms(1) r3(2,3) obtain data r4 where r4: "deserializeData malloc crc r3 = Some (Inr data, r4)" "view_ok data" "ud_bytes data = ?B"
    "ds_version r4 = ds_version r3"
    by (rule deserializeData_enc)
  let ?dec = "(ds_init data)\<lparr>ds_version := material_version\<rparr>"
  have dec: "ds_ok ?dec" "remaining ?dec = ?B" "ds_version ?dec = material_version"
    using ds_ok_init(1) [OF r4(2)] ds_ok_init(2) [of data] r4(3) by (simp_all add: ds_ok_def remaining_def)
  have "\<forall>c \<in> set (mt_contentsList m). content_wf c" using assms(2) by (simp add: material_wf_def)
  from contents_deserialize_enc [OF this dec, of "material_init\<lparr>mt_info := mt_info m\<rparr>"] obtain r5 where
    r5: "contents_deserialize (material_init\<lparr>mt_info := mt_info m\<rparr>) ?dec =
       Some (Inr (fold add_content (map content_image (mt_contentsList m)) (material_init\<lparr>mt_info := mt_info m\<rparr>)), r5)" by blast
  have image: "fold add_content (map content_image (mt_contentsList m)) (material_init\<lparr>mt_info := mt_info m\<rparr>) = material_image m"
    unfolding fold_add_content by (simp add: material_init_def material_image_def Let_def)
  have info: "mt_info material_init = minfo_init" by (simp add: material_init_def)
  show ?thesis
    unfolding material_deserialize_def info
    using enough r1(1) r2(1) r3(1,4) r4(1,4) r5 image
    by (simp add: rd_bind_def rd_enough_def rd_guard_def rd_4BytesUInt_def rd_setVersion_def)
qed

section \<open>Properties\<close>


text \<open>A table with a deleted page, and one with an empty associated statement.\<close>

definition demo_content :: content where
  "demo_content = content_init\<lparr>ct_tableName := [116], ct_sql := [99], ct_associatedSQLs := [[105], [106, 107]], ct_rootPage := 2,
     ct_verifiedPagenos := [\<lparr>mp_number = 9, mp_hash = 1\<rparr>, \<lparr>mp_number = 0, mp_hash = 0\<rparr>, \<lparr>mp_number = 5, mp_hash = 2\<rparr>]\<rparr>"

definition demo_material :: material where
  "demo_material = material_init\<lparr>mt_contentsList := [demo_content]\<rparr>"

definition demo_malloc :: allocator where
  "demo_malloc n = Some (replicate n 0)"

lemma demo_malloc_total: "malloc_total demo_malloc"
  by (simp add: malloc_total_def malloc_ok_def demo_malloc_def)

lemma demo_material_wf: "material_wf demo_material"
proof -
  have "length (contents_enc [demo_content]) = 23" by code_simp
  then show ?thesis by (simp add: material_wf_def demo_material_def) (simp add: content_wf_def demo_content_def content_init_def)
qed


text \<open>
  \<open>serialize\<close> accepts an empty associated statement, and \<open>deserialize\<close> rejects the
  content it wrote as corrupted.
\<close>

theorem content_empty_statement_rejected:
  "(case content_serialize demo_malloc (demo_content\<lparr>ct_associatedSQLs := [[]]\<rparr>) ss_init of
      Some (ok, _, s) \<Rightarrow>
        Some (ok, map_option fst (content_deserialize content_init ((ds_init (ss_finalize s))\<lparr>ds_version := material_version\<rparr>)))
    | None \<Rightarrow> None) = Some (True, Some (Inl ''SQLs''))"
  by code_simp

end
