(* ===== verification/WCDB_Incremental.thy ===== *)
theory WCDB_Incremental
  imports WCDB_MaterialTrip
begin

unbundle bit_operations_syntax

text \<open>
  \<open>src/src/common/repair/mechanic/IncrementalMaterial.cpp\<close>: the pages that changed since the
  last backup, their binary form, and the way back.

  The type of a page is a \<open>char\<close>, kept as its byte.  The unordered map of the pages is a list of
  pages with different numbers in the order of its iteration.  \<open>lastNBackFill\<close>, which the
  constructor leaves uninitialized, is a parameter.
\<close>

section \<open>Info\<close>

record iinfo =
  ii_lastWalSalt :: "u32 \<times> u32"
  ii_currentWalSalt :: "u32 \<times> u32"
  ii_lastNBackFill :: u32
  ii_currentNBackFill :: u32
  ii_lastSchemaCookie :: u32
  ii_lastCheckPointFinish :: bool
  ii_lastBackupTime :: u32
  ii_incrementalBackupTimes :: u32

definition iinfo_init :: "u32 \<Rightarrow> iinfo" where
  "iinfo_init garbage = \<lparr>ii_lastWalSalt = (0, 0), ii_currentWalSalt = (0, 0), ii_lastNBackFill = garbage, ii_currentNBackFill = 0,
     ii_lastSchemaCookie = 0, ii_lastCheckPointFinish = False, ii_lastBackupTime = 0, ii_incrementalBackupTimes = 0\<rparr>"

text \<open>An \<open>int32_t\<close> that becomes a \<open>uint64_t\<close> is extended by its sign.\<close>

definition iinfo_serialize :: "allocator \<Rightarrow> iinfo \<Rightarrow> writer" where
  "iinfo_serialize malloc i =
     wr_and (ss_expand malloc 16)
       (wr_then (put4BytesUInt malloc (fst (ii_lastWalSalt i)))
       (wr_then (put4BytesUInt malloc (snd (ii_lastWalSalt i)))
       (wr_then (put4BytesUInt malloc (fst (ii_currentWalSalt i)))
       (wr_then (put4BytesUInt malloc (snd (ii_currentWalSalt i)))
       (wr_then (putVarint_ok malloc (ucast (ii_lastNBackFill i)))
       (wr_then (putVarint_ok malloc (ucast (ii_currentNBackFill i)))
       (wr_then (put4BytesUInt malloc (ii_lastSchemaCookie i))
       (wr_then (putVarint_ok malloc (of_bool (ii_lastCheckPointFinish i)))
       (wr_then (put4BytesUInt malloc (ii_lastBackupTime i))
       (wr_then (putVarint_ok malloc (scast (ii_incrementalBackupTimes i))) wr_true))))))))))"

text \<open>The two checks for four more bytes only set the error; the reads behind them are done anyway.\<close>

definition iinfo_deserialize :: "iinfo \<Rightarrow> iinfo reader" where
  "iinfo_deserialize i =
     rd_bind (rd_enough 16 ''Salt'') (\<lambda>_.
     rd_bind rd_4BytesUInt (\<lambda>last1.
     rd_bind rd_4BytesUInt (\<lambda>last2.
     rd_bind rd_4BytesUInt (\<lambda>current1.
     rd_bind rd_4BytesUInt (\<lambda>current2.
     rd_bind (rd_varint ''LastNBackfill'') (\<lambda>lastNBackFill.
     rd_bind (rd_varint ''MxFrame'') (\<lambda>currentNBackFill.
     rd_bind rd_4BytesUInt (\<lambda>lastSchemaCookie.
     rd_bind (rd_varint ''LastCheckpointFinish'') (\<lambda>lastCheckPointFinish.
     rd_bind rd_4BytesUInt (\<lambda>lastBackupTime.
     rd_bind (rd_varint ''BackupTimes'') (\<lambda>times.
     rd_return (i\<lparr>ii_lastWalSalt := (last1, last2), ii_currentWalSalt := (current1, current2),
       ii_lastNBackFill := ucast lastNBackFill, ii_currentNBackFill := ucast currentNBackFill,
       ii_lastSchemaCookie := lastSchemaCookie, ii_lastCheckPointFinish := lastCheckPointFinish \<noteq> 0,
       ii_lastBackupTime := lastBackupTime, ii_incrementalBackupTimes := ucast times\<rparr>))))))))))))"

section \<open>Pages\<close>

record ipage =
  ip_number :: u32
  ip_type :: byte
  ip_hash :: u32

definition ipage_init :: ipage where
  "ipage_init = \<lparr>ip_number = 0, ip_type = 0, ip_hash = 0\<rparr>"

definition ipage_serialize :: "allocator \<Rightarrow> ipage \<Rightarrow> writer" where
  "ipage_serialize malloc p =
     wr_and (putVarint_ok malloc (ucast (ip_number p)))
       (if ip_hash p \<noteq> 0
        then wr_and (putVarint_ok malloc (word_of_int (2 * sint (ip_type p) + 1))) (put4BytesUInt malloc (ip_hash p))
        else putVarint_ok malloc (word_of_int (2 * sint (ip_type p))))"

definition rd_4BytesInt :: "int reader" where
  "rd_4BytesInt r = map_option (map_prod Inr id) (advance4BytesInt r)"

definition ipage_deserialize :: "ipage \<Rightarrow> ipage reader" where
  "ipage_deserialize p =
     rd_bind (rd_varint ''PageNo'') (\<lambda>number.
     rd_bind (rd_varint ''PageType'') (\<lambda>varint.
     let p = p\<lparr>ip_number := ucast number, ip_type := ucast (varint div 2)\<rparr>
     in if varint mod 2 = 1
        then rd_bind (rd_enough 4 ''PageHash'') (\<lambda>_. rd_bind rd_4BytesInt (\<lambda>hash. rd_return (p\<lparr>ip_hash := word_of_int hash\<rparr>)))
        else rd_return p))"

section \<open>Material\<close>

record imaterial =
  im_info :: iinfo
  im_pages :: "ipage list"

definition imaterial_init :: "u32 \<Rightarrow> imaterial" where
  "imaterial_init garbage = \<lparr>im_info = iinfo_init garbage, im_pages = []\<rparr>"

definition imaterial_magic :: u32 where
  "imaterial_magic = 0x57434441"

definition imaterial_version :: u32 where
  "imaterial_version = 0x01000000"

fun ipages_serialize :: "allocator \<Rightarrow> ipage list \<Rightarrow> serialization \<Rightarrow> (bool \<times> string option \<times> serialization) option" where
  "ipages_serialize malloc [] s = Some (True, None, s)"
| "ipages_serialize malloc (p # ps) s =
     (if ip_number p = 0 then Some (False, Some ''Page'', s)
      else do {
        (ok, s) \<leftarrow> ipage_serialize malloc p s;
        if \<not> ok then Some (False, None, s) else ipages_serialize malloc ps s
      })"

definition imaterial_serialize :: "allocator \<Rightarrow> crc \<Rightarrow> imaterial \<Rightarrow> serialization \<Rightarrow> (bool \<times> string option \<times> serialization) option" where
  "imaterial_serialize malloc crc m s = do {
     (ok, s) \<leftarrow> wr_and (ss_expand malloc 8)
                (wr_then (put4BytesUInt malloc imaterial_magic)
                (wr_then (put4BytesUInt malloc imaterial_version)
                (iinfo_serialize malloc (im_info m)))) s;
     if \<not> ok then Some (False, None, s)
     else do {
       (ok, e, encoder) \<leftarrow> ipages_serialize malloc (im_pages m) ss_init;
       if \<not> ok then Some (False, e, s)
       else do {
         (ok, s) \<leftarrow> serializeData malloc crc (ss_finalize encoder) s;
         Some (ok, None, s)
       }
     }
   }"

text \<open>\<open>pages[page.number] = page\<close>.\<close>

definition ipages_put :: "ipage \<Rightarrow> ipage list \<Rightarrow> ipage list" where
  "ipages_put p ps = (if ip_number p \<in> ip_number ` set ps then map (\<lambda>q. if ip_number q = ip_number p then p else q) ps else ps @ [p])"

partial_function (option) ipages_deserialize :: "imaterial \<Rightarrow> deserialization \<Rightarrow> ((string + imaterial) \<times> deserialization) option" where
  "ipages_deserialize m decoder =
     (if ds_ended decoder then Some (Inr m, decoder)
      else do {
        (x, decoder) \<leftarrow> ipage_deserialize ipage_init decoder;
        case x of
          Inl e \<Rightarrow> Some (Inl e, decoder)
        | Inr p \<Rightarrow> ipages_deserialize (m\<lparr>im_pages := ipages_put p (im_pages m)\<rparr>) decoder
      })"

definition imaterial_deserialize :: "allocator \<Rightarrow> crc \<Rightarrow> imaterial \<Rightarrow> imaterial reader" where
  "imaterial_deserialize malloc crc m =
     rd_bind (rd_enough 8 ''Header'') (\<lambda>_.
     rd_bind rd_4BytesUInt (\<lambda>magicValue.
     rd_bind rd_4BytesUInt (\<lambda>versionValue.
     rd_bind (rd_guard (magicValue = imaterial_magic) ''Magic'') (\<lambda>_.
     rd_bind (rd_guard (versionValue = 0x01000000) ''Version'') (\<lambda>_.
     rd_bind (rd_setVersion versionValue) (\<lambda>_.
     rd_bind (iinfo_deserialize (im_info m)) (\<lambda>info.
     rd_bind (deserializeData malloc crc) (\<lambda>data r. do {
       (x, _) \<leftarrow> ipages_deserialize (m\<lparr>im_info := info\<rparr>) ((ds_init data)\<lparr>ds_version := ds_version r\<rparr>);
       Some (x, r)
     }))))))))"

section \<open>The encoding\<close>

definition iinfo_enc :: "iinfo \<Rightarrow> byte list" where
  "iinfo_enc i =
     be32 (fst (ii_lastWalSalt i)) @ be32 (snd (ii_lastWalSalt i)) @ be32 (fst (ii_currentWalSalt i)) @ be32 (snd (ii_currentWalSalt i)) @
     varint_bytes (ucast (ii_lastNBackFill i)) @ varint_bytes (ucast (ii_currentNBackFill i)) @ be32 (ii_lastSchemaCookie i) @
     varint_bytes (of_bool (ii_lastCheckPointFinish i)) @ be32 (ii_lastBackupTime i) @ varint_bytes (scast (ii_incrementalBackupTimes i))"

definition ipage_enc :: "ipage \<Rightarrow> byte list" where
  "ipage_enc p = varint_bytes (ucast (ip_number p)) @
     (if ip_hash p \<noteq> 0 then varint_bytes (word_of_int (2 * sint (ip_type p) + 1)) @ be32 (ip_hash p)
      else varint_bytes (word_of_int (2 * sint (ip_type p))))"

definition ipages_enc :: "ipage list \<Rightarrow> byte list" where
  "ipages_enc ps = concat (map ipage_enc ps)"

definition imaterial_enc :: "crc \<Rightarrow> imaterial \<Rightarrow> byte list" where
  "imaterial_enc crc m =
     be32 imaterial_magic @ be32 imaterial_version @ iinfo_enc (im_info m) @
     be32 (data_sum crc (ipages_enc (im_pages m))) @ sized (ipages_enc (im_pages m))"

definition imaterial_wf :: "imaterial \<Rightarrow> bool" where
  "imaterial_wf m \<longleftrightarrow> distinct (map ip_number (im_pages m)) \<and> (\<forall>p \<in> set (im_pages m). ip_number p \<noteq> 0 \<and> 0 \<le> sint (ip_type p)) \<and>
     length (ipages_enc (im_pages m)) \<le> 288230376151711744"

lemma appends_iinfo:
  assumes "malloc_total malloc"
  shows "appends (iinfo_serialize malloc i) (iinfo_enc i)"
  unfolding iinfo_serialize_def
  by (rule appends_eq, rule appends_seq(1) [OF appends_expand [OF assms]], simp,
      (rule appends_seq(2) [OF appends_put4 [OF assms]] appends_seq(2) [OF appends_varint [OF assms]])+, rule appends_true,
      simp add: iinfo_enc_def)

lemma scast_32_64_32: "(ucast (scast (x :: u32) :: u64) :: u32) = x"
  by (rule bit_word_eqI) (auto simp: bit_simps)

lemma reads_iinfo: "reads version (iinfo_deserialize i0) (iinfo_enc i) i"
  unfolding iinfo_deserialize_def iinfo_enc_def
  by (rule reads_enough_at, (rule reads_bind [OF reads_4BytesUInt] reads_bind [OF reads_varint])+)
   (auto intro!: reads_eq [OF reads_last [OF reads_varint]] simp: ucast_32_64_32 scast_32_64_32)

lemma word_of_be_sint: "word_of_int (be_sint (be32 v)) = v"
proof -
  have u: "uint v = be_uint (be32 v)"
  proof -
    let ?d = "\<lparr>ud_mem = be32 v, ud_off = 0, ud_size = 4, ud_shared = True\<rparr>"
    have d: "view_ok ?d" "ud_bytes ?d = be32 v" by (simp_all add: view_ok_def ud_bytes_def)
    have "get4BytesUInt ?d 0 = Some v" by (rule get4BytesUInt_enc [where rest = "[]"]) (use d in simp_all)
    then show ?thesis using get4BytesUInt_uint [of ?d 0] d by (simp add: bytes_at_def)
  qed
  have "word_of_int (be_uint (be32 v) - 4294967296) = (word_of_int (be_uint (be32 v)) :: u32)"
    by (simp add: word_uint_eq_iff uint_word_of_int del: of_int_diff)
  then have "word_of_int (be_sint (be32 v)) = (word_of_int (be_uint (be32 v)) :: u32)" by (simp add: be_sint_def del: of_int_diff)
  then show ?thesis by (simp flip: u)
qed

lemma reads_4BytesInt: "reads version rd_4BytesInt (be32 v) (be_sint (be32 v))"
proof (rule readsI)
  fix r rest
  assume r: "ds_ok r" "remaining r = be32 v @ rest"
  have len: "4 \<le> length (remaining r)" by (simp add: r(2))
  then have le: "ds_cursor r + 4 \<le> int (ud_size (ds_data r))" using length_remaining [OF r(1)] r(1) by (auto simp: ds_ok_def)
  have "get4BytesInt (ds_data r) (ds_cursor r) = Some (be_sint (be32 v))"
    using get4BytesInt_be [of "ds_data r" "ds_cursor r"] r le by (simp add: ds_ok_def bytes_at_def remaining_def)
  with r(1) show "\<exists>r'. rd_4BytesInt r = Some (Inr (be_sint (be32 v)), r') \<and> ds_ok r' \<and> remaining r' = rest \<and> ds_data r' = ds_data r \<and> ds_version r' = ds_version r"
    by (rule advance_read_ok [where n = 4]) (use len r(2) in \<open>simp_all add: rd_4BytesInt_def advance4BytesInt_def\<close>)
qed

lemma small_uint64: "0 \<le> n \<Longrightarrow> n < 1024 \<Longrightarrow> uint (word_of_int n :: u64) = n"
  by (simp add: uint_word_of_int)

lemma type_code:
  assumes "0 \<le> sint (t :: byte)"
  shows "(word_of_int (2 * sint t + 1) :: u64) mod 2 = 1" "ucast ((word_of_int (2 * sint t + 1) :: u64) div 2) = t"
    "(word_of_int (2 * sint t) :: u64) mod 2 \<noteq> 1" "ucast ((word_of_int (2 * sint t) :: u64) div 2) = t"
proof -
  have t: "sint t = uint t" "uint t < 128" using assms sint_byte [of t] byte_bounds [of t] by (auto split: if_splits)
  have w: "uint (word_of_int (2 * uint t + 1) :: u64) = 2 * uint t + 1" "uint (word_of_int (2 * uint t) :: u64) = 2 * uint t"
    using t(2) byte_bounds(1) [of t] by (intro small_uint64; linarith)+
  show "(word_of_int (2 * sint t + 1) :: u64) mod 2 = 1" unfolding t(1) word_uint_eq_iff uint_mod w by simp
  show "(word_of_int (2 * sint t) :: u64) mod 2 \<noteq> 1" unfolding t(1) word_uint_eq_iff uint_mod w by simp
  show "ucast ((word_of_int (2 * sint t + 1) :: u64) div 2) = t" "ucast ((word_of_int (2 * sint t) :: u64) div 2) = t"
    unfolding t(1) word_uint_eq_iff unsigned_ucast_eq uint_div w using byte_bounds [of t] by (simp_all add: take_bit_eq_mod)
qed

lemma appends_ipage:
  assumes "malloc_total malloc"
  shows "appends (ipage_serialize malloc p) (ipage_enc p)"
  unfolding ipage_serialize_def ipage_enc_def
  by (cases "ip_hash p = 0") (simp_all add: appends_seq appends_varint appends_put4 assms)

lemma reads_ipage:
  assumes "0 \<le> sint (ip_type p)"
  shows "reads version (ipage_deserialize ipage_init) (ipage_enc p) p"
proof -
  define v where "v = (word_of_int (2 * sint (ip_type p) + 1) :: u64)"
  define w where "w = (word_of_int (2 * sint (ip_type p)) :: u64)"
  have code: "v mod 2 = 1" "ucast (v div 2) = ip_type p" "w mod 2 \<noteq> 1" "ucast (w div 2) = ip_type p"
    unfolding v_def w_def using type_code [OF assms] by blast+
  have enc: "ipage_enc p = varint_bytes (ucast (ip_number p)) @ (if ip_hash p \<noteq> 0 then varint_bytes v @ be32 (ip_hash p) else varint_bytes w)"
    unfolding ipage_enc_def v_def w_def ..
  let ?q = "ipage_init\<lparr>ip_number := ip_number p, ip_type := ip_type p\<rparr>"
  have hash: "reads version (rd_bind (rd_enough 4 ''PageHash'') (\<lambda>_. rd_bind rd_4BytesInt (\<lambda>hash. rd_return (?q\<lparr>ip_hash := word_of_int hash\<rparr>))))
      (be32 (ip_hash p)) (?q\<lparr>ip_hash := ip_hash p\<rparr>)"
    by (rule reads_enough_at) (auto intro: reads_eq [OF reads_last [OF reads_4BytesInt]] simp: word_of_be_sint)
  show ?thesis
  proof (cases "ip_hash p = 0")
    case True
    then have p: "p = ?q" by (simp add: ipage_init_def)
    have "reads version (ipage_deserialize ipage_init) (varint_bytes (ucast (ip_number p)) @ varint_bytes w @ []) ?q"
      unfolding ipage_deserialize_def Let_def
      by (rule reads_bind [OF reads_varint], rule reads_bind [OF reads_varint]) (simp add: code ucast_32_64_32 reads_return)
    then show ?thesis using True p by (simp add: enc)
  next
    case False
    have p: "p = ?q\<lparr>ip_hash := ip_hash p\<rparr>" by (simp add: ipage_init_def)
    have "reads version (ipage_deserialize ipage_init) (varint_bytes (ucast (ip_number p)) @ varint_bytes v @ be32 (ip_hash p)) (?q\<lparr>ip_hash := ip_hash p\<rparr>)"
      unfolding ipage_deserialize_def Let_def using hash
      by (intro reads_bind [OF reads_varint]) (simp add: code ucast_32_64_32)
    then show ?thesis using False p by (simp add: enc)
  qed
qed

lemma ipages_serialize_appends:
  assumes "malloc_total malloc" "\<forall>p \<in> set ps. ip_number p \<noteq> 0" "ss_ok s" "room (length (ipages_enc ps) + 32) s"
  shows "\<exists>s'. ipages_serialize malloc ps s = Some (True, None, s') \<and> ss_ok s' \<and> written s' = written s @ ipages_enc ps"
  using assms(2-)
proof (induction ps arbitrary: s)
  case (Cons p ps)
  have enc: "ipages_enc (p # ps) = ipage_enc p @ ipages_enc ps" by (simp add: ipages_enc_def)
  have "room (length (ipage_enc p) + 32) s" using Cons.prems(3) by (auto simp: room_def enc)
  with appends_ipage [OF assms(1)] Cons.prems(2) obtain s1
    where s1: "ipage_serialize malloc p s = Some (True, s1)" "ss_ok s1" "written s1 = written s @ ipage_enc p"
    by (rule appendsD)
  have "room (length (ipages_enc ps) + 32) s1"
    using room_after [OF Cons.prems(2) s1(2,3), of "length (ipages_enc ps) + 32"] Cons.prems(3) by (simp add: room_def enc)
  then show ?case using Cons.IH [of s1] Cons.prems(1) s1 by (auto simp: enc)
qed (simp add: ipages_enc_def)

lemma ipages_deserialize_enc:
  assumes "\<forall>p \<in> set ps. 0 \<le> sint (ip_type p)" "ds_ok r" "remaining r = ipages_enc ps"
  shows "\<exists>r'. ipages_deserialize m r = Some (Inr (m\<lparr>im_pages := fold ipages_put ps (im_pages m)\<rparr>), r')"
  using assms
proof (induction ps arbitrary: m r)
  case Nil
  then show ?case by (subst ipages_deserialize.simps) (simp add: ds_ended_remaining ipages_enc_def)
next
  case (Cons p ps)
  have rem: "remaining r = ipage_enc p @ ipages_enc ps" using Cons.prems(3) by (simp add: ipages_enc_def)
  have "ipage_enc p \<noteq> []" using length_varint_bytes(1) [of "ucast (ip_number p)"] by (auto simp: ipage_enc_def)
  then have more: "\<not> ds_ended r" using Cons.prems(2) rem by (simp add: ds_ended_remaining)
  have "0 \<le> sint (ip_type p)" using Cons.prems(1) by simp
  from reads_ipage [OF this] Cons.prems(2) rem refl obtain r1 where
    r1: "ipage_deserialize ipage_init r = Some (Inr p, r1)" "ds_ok r1" "remaining r1 = ipages_enc ps"
    by (rule readsD)
  obtain r2 where "ipages_deserialize (m\<lparr>im_pages := ipages_put p (im_pages m)\<rparr>) r1 =
      Some (Inr (m\<lparr>im_pages := fold ipages_put ps (ipages_put p (im_pages m))\<rparr>), r2)"
    using Cons.IH [of r1 "m\<lparr>im_pages := ipages_put p (im_pages m)\<rparr>"] Cons.prems(1) r1 by auto
  then show ?case using more r1(1) by (subst ipages_deserialize.simps) simp
qed

lemma fold_ipages_put:
  "distinct (map ip_number (qs @ ps)) \<Longrightarrow> fold ipages_put ps qs = qs @ ps"
proof (induction ps arbitrary: qs)
  case (Cons p ps)
  then have "ip_number p \<notin> ip_number ` set qs" by auto
  then have "ipages_put p qs = qs @ [p]" by (simp add: ipages_put_def)
  then show ?case using Cons.IH [of "qs @ [p]"] Cons.prems by simp
qed simp

lemma imaterial_serialize_appends:
  assumes "malloc_total malloc" "imaterial_wf m"
  shows "\<exists>s'. imaterial_serialize malloc crc m ss_init = Some (True, None, s') \<and> ss_ok s' \<and> written s' = imaterial_enc crc m"
proof -
  let ?B = "ipages_enc (im_pages m)" and ?h = "be32 imaterial_magic @ be32 imaterial_version @ iinfo_enc (im_info m)"
  let ?f = "wr_and (ss_expand malloc 8) (wr_then (put4BytesUInt malloc imaterial_magic) (wr_then (put4BytesUInt malloc imaterial_version)
      (iinfo_serialize malloc (im_info m))))"
  have B: "length ?B \<le> 288230376151711744" using assms(2) by (simp add: imaterial_wf_def)
  have size: "length (sized ?B) \<le> length ?B + 9" using length_varint_bytes(2) [of "word_of_nat (length ?B)"] by (simp add: sized_def)
  have h: "length ?h \<le> 100"
    using length_varint_bytes(2) [of "ucast (ii_lastNBackFill (im_info m))"] length_varint_bytes(2) [of "ucast (ii_currentNBackFill (im_info m))"]
      length_varint_bytes(2) [of "of_bool (ii_lastCheckPointFinish (im_info m))"] length_varint_bytes(2) [of "scast (ii_incrementalBackupTimes (im_info m))"]
    by (simp add: iinfo_enc_def)
  have "appends (ss_expand malloc 8) []" by (rule appends_expand [OF assms(1)]) simp
  then have "appends ?f ([] @ ?h)" by (intro appends_seq appends_put4 appends_iinfo assms(1))
  then have "appends ?f ?h" by simp
  then obtain s1 where s1: "?f ss_init = Some (True, s1)" "ss_ok s1" "written s1 = written ss_init @ ?h"
    using ss_ok_init by (rule appendsD) (use h in \<open>simp add: room_def ss_init_def\<close>)
  obtain e where e: "ipages_serialize malloc (im_pages m) ss_init = Some (True, None, e)" "ss_ok e" "written e = ?B"
    using ipages_serialize_appends [OF assms(1), of "im_pages m" ss_init] assms(2) B
    by (auto simp: imaterial_wf_def room_def ss_init_def [THEN arg_cong, of ss_cursor])
  have v: "view_ok (ss_finalize e)" "ud_bytes (ss_finalize e) = ?B" using ss_finalize_written [OF e(2)] e(3) by simp_all
  have "ss_cursor s1 \<le> 100" using cursor_written [OF ss_ok_init s1(2,3)] h by (simp add: ss_init_def)
  then have "room (length (be32 (data_sum crc ?B) @ sized ?B) + 32) s1" using B size by (simp add: room_def)
  with appends_serializeData [OF assms(1) v] s1(2) obtain s2 where
    "serializeData malloc crc (ss_finalize e) s1 = Some (True, s2)" "ss_ok s2" "written s2 = written s1 @ be32 (data_sum crc ?B) @ sized ?B"
    by (rule appendsD)
  then show ?thesis using s1 e(1) by (simp add: imaterial_serialize_def imaterial_enc_def)
qed

lemma imaterial_deserialize_enc:
  assumes "malloc_total malloc" "imaterial_wf m" "view_ok d" "ud_bytes d = imaterial_enc crc m @ pad"
  shows "\<exists>r. imaterial_deserialize malloc crc (imaterial_init garbage) (ds_init d) = Some (Inr m, r)"
proof -
  let ?B = "ipages_enc (im_pages m)"
  let ?r = "ds_init d"
  have r: "ds_ok ?r" "remaining ?r = be32 imaterial_magic @ be32 imaterial_version @ iinfo_enc (im_info m) @ be32 (data_sum crc ?B) @ sized ?B @ pad"
    using ds_ok_init(1) [OF assms(3)] ds_ok_init(2) [of d] assms(4) by (simp_all add: imaterial_enc_def)
  have enough: "ds_canAdvance 8 ?r" using canAdvance_remaining [OF r(1), of 8] r(2) by simp
  obtain r1 where r1: "advance4BytesUInt ?r = Some (imaterial_magic, r1)" "ds_ok r1"
    "remaining r1 = be32 imaterial_version @ iinfo_enc (im_info m) @ be32 (data_sum crc ?B) @ sized ?B @ pad"
    using r by (rule advance4BytesUInt_enc)
  obtain r2 where r2: "advance4BytesUInt r1 = Some (imaterial_version, r2)" "ds_ok r2"
    "remaining r2 = iinfo_enc (im_info m) @ be32 (data_sum crc ?B) @ sized ?B @ pad"
    using r1(2,3) by (rule advance4BytesUInt_enc)
  let ?r2 = "r2\<lparr>ds_version := imaterial_version\<rparr>"
  have r2': "ds_ok ?r2" "remaining ?r2 = iinfo_enc (im_info m) @ be32 (data_sum crc ?B) @ sized ?B @ pad"
    using r2 by (simp_all add: ds_ok_def remaining_def)
  obtain r3 where r3: "iinfo_deserialize (iinfo_init garbage) ?r2 = Some (Inr (im_info m), r3)" "ds_ok r3"
    "remaining r3 = be32 (data_sum crc ?B) @ sized ?B @ pad"
    using reads_iinfo r2' refl by (rule readsD)
  have "length ?B \<le> 2305843009213693952" using assms(2) by (simp add: imaterial_wf_def)
  with assms(1) r3(2,3) obtain data r4 where r4: "deserializeData malloc crc r3 = Some (Inr data, r4)" "view_ok data" "ud_bytes data = ?B"
    by (rule deserializeData_enc)
  let ?dec = "(ds_init data)\<lparr>ds_version := ds_version r4\<rparr>" and ?m = "(imaterial_init garbage)\<lparr>im_info := im_info m\<rparr>"
  have dec: "ds_ok ?dec" "remaining ?dec = ?B"
    using ds_ok_init(1) [OF r4(2)] ds_ok_init(2) [of data] r4(3) by (simp_all add: ds_ok_def remaining_def)
  have "\<forall>p \<in> set (im_pages m). 0 \<le> sint (ip_type p)" using assms(2) by (simp add: imaterial_wf_def)
  from ipages_deserialize_enc [OF this dec, of ?m] obtain r5 where
    r5: "ipages_deserialize ?m ?dec = Some (Inr (?m\<lparr>im_pages := fold ipages_put (im_pages m) (im_pages ?m)\<rparr>), r5)" by blast
  have image: "?m\<lparr>im_pages := fold ipages_put (im_pages m) (im_pages ?m)\<rparr> = m"
    using fold_ipages_put [of "[]" "im_pages m"] assms(2) by (simp add: imaterial_init_def imaterial_wf_def)
  have info: "im_info (imaterial_init garbage) = iinfo_init garbage" by (simp add: imaterial_init_def)
  show ?thesis
    unfolding imaterial_deserialize_def info
    using enough r1(1) r2(1) r3(1) r4(1) r5 [unfolded image]
    by (simp add: rd_bind_def rd_enough_def rd_guard_def rd_4BytesUInt_def rd_setVersion_def imaterial_version_def)
qed

section \<open>Properties\<close>

text \<open>
  C18: the material of an incremental backup survives the round trip: for pages with different
  positive numbers \<open>serialize\<close> succeeds, and \<open>deserialize\<close> of the buffer, with any bytes behind it,
  gives the same info and the same pages, whatever the uninitialized member was.
\<close>

theorem incremental_round_trip:
  assumes "malloc_total malloc" "imaterial_wf m"
  shows "\<exists>s. imaterial_serialize malloc crc m ss_init = Some (True, None, s) \<and> view_ok (ss_finalize s) \<and>
    (\<forall>d pad garbage. view_ok d \<and> ud_bytes d = ud_bytes (ss_finalize s) @ pad \<longrightarrow>
       (\<exists>r. imaterial_deserialize malloc crc (imaterial_init garbage) (ds_init d) = Some (Inr m, r)))"
proof -
  obtain s where s: "imaterial_serialize malloc crc m ss_init = Some (True, None, s)" "ss_ok s" "written s = imaterial_enc crc m"
    using imaterial_serialize_appends [OF assms] by blast
  have "view_ok (ss_finalize s)" "ud_bytes (ss_finalize s) = imaterial_enc crc m" using ss_finalize_written [OF s(2)] s(3) by simp_all
  then show ?thesis using s(1) imaterial_deserialize_enc [OF assms] by auto
qed

definition demo_incremental :: imaterial where
  "demo_incremental = \<lparr>im_info = (iinfo_init 4)\<lparr>ii_incrementalBackupTimes := - 1\<rparr>,
     im_pages = [\<lparr>ip_number = 7, ip_type = 13, ip_hash = 0\<rparr>, \<lparr>ip_number = 3, ip_type = 5, ip_hash = 99\<rparr>]\<rparr>"

theorem incremental_round_trip_witness:
  "\<exists>s r. imaterial_serialize demo_malloc (\<lambda>_. 7) demo_incremental ss_init = Some (True, None, s) \<and>
     imaterial_deserialize demo_malloc (\<lambda>_. 7) (imaterial_init 8) (ds_init (ss_finalize s)) = Some (Inr demo_incremental, r)"
proof -
  have "length (ipages_enc (im_pages demo_incremental)) = 8" by code_simp
  then have "imaterial_wf demo_incremental"
    by (simp add: imaterial_wf_def) (simp add: demo_incremental_def)
  from incremental_round_trip [OF demo_malloc_total this, of "\<lambda>_. 7"] show ?thesis by fastforce
qed


end
