(* ===== verification/WCDB_Error.thy ===== *)
theory WCDB_Error
  imports WCDB_Prelude "HOL-Library.Sublist"
begin

text \<open>
  Errors: \<open>src/src/common/base/WCDBError.cpp\<close> with its header, \<open>ErrorProne.cpp\<close> and
  \<open>ThreadedErrors.cpp\<close>.

  The enumerations \<open>Level\<close>, \<open>Code\<close> and \<open>ExtCode\<close> are datatypes with the numbers the header
  gives them.  A cast of an integer to \<open>Code\<close> that names no enumerator is \<open>None\<close>.  An
  error is its level, its code, its message and the key/value list \<open>infos\<close>.  The C
  library's \<open>strerror\<close> and \<open>sqlite3_errstr\<close> are parameters.
\<close>

section \<open>Levels and codes\<close>

datatype error_level = Level_Ignore | Level_Debug | Level_Notice | Level_Warning | Level_Error | Level_Fatal

primrec level_number :: "error_level \<Rightarrow> int" where
  "level_number Level_Ignore = 1"
| "level_number Level_Debug = 2"
| "level_number Level_Notice = 3"
| "level_number Level_Warning = 4"
| "level_number Level_Error = 5"
| "level_number Level_Fatal = 6"

primrec levelName :: "error_level \<Rightarrow> string" where
  "levelName Level_Ignore = ''IGNORE''"
| "levelName Level_Debug = ''DEBUG''"
| "levelName Level_Notice = ''NOTICE''"
| "levelName Level_Warning = ''WARNING''"
| "levelName Level_Error = ''ERROR''"
| "levelName Level_Fatal = ''FATAL''"

datatype error_code =
    Code_OK | Code_Error | Code_Internal | Code_Permission | Code_Abort | Code_Busy
    | Code_Locked | Code_NoMemory | Code_Readonly | Code_Interrupt | Code_IOError
    | Code_Corrupt | Code_NotFound | Code_Full | Code_CantOpen | Code_Protocol | Code_Empty
    | Code_Schema | Code_Exceed | Code_Constraint | Code_Mismatch | Code_Misuse
    | Code_NoLargeFileSupport | Code_Authorization | Code_Format | Code_Range
    | Code_NotADatabase | Code_Notice | Code_Warning | Code_Row | Code_Done | Code_ZstdError

primrec c2rc :: "error_code \<Rightarrow> int" where
  "c2rc Code_OK = 0"
| "c2rc Code_Error = 1"
| "c2rc Code_Internal = 2"
| "c2rc Code_Permission = 3"
| "c2rc Code_Abort = 4"
| "c2rc Code_Busy = 5"
| "c2rc Code_Locked = 6"
| "c2rc Code_NoMemory = 7"
| "c2rc Code_Readonly = 8"
| "c2rc Code_Interrupt = 9"
| "c2rc Code_IOError = 10"
| "c2rc Code_Corrupt = 11"
| "c2rc Code_NotFound = 12"
| "c2rc Code_Full = 13"
| "c2rc Code_CantOpen = 14"
| "c2rc Code_Protocol = 15"
| "c2rc Code_Empty = 16"
| "c2rc Code_Schema = 17"
| "c2rc Code_Exceed = 18"
| "c2rc Code_Constraint = 19"
| "c2rc Code_Mismatch = 20"
| "c2rc Code_Misuse = 21"
| "c2rc Code_NoLargeFileSupport = 22"
| "c2rc Code_Authorization = 23"
| "c2rc Code_Format = 24"
| "c2rc Code_Range = 25"
| "c2rc Code_NotADatabase = 26"
| "c2rc Code_Notice = 27"
| "c2rc Code_Warning = 28"
| "c2rc Code_Row = 100"
| "c2rc Code_Done = 101"
| "c2rc Code_ZstdError = 1000"

primrec codeName :: "error_code \<Rightarrow> string" where
  "codeName Code_OK = ''OK''"
| "codeName Code_Error = ''Error''"
| "codeName Code_Internal = ''Internal''"
| "codeName Code_Permission = ''Permission''"
| "codeName Code_Abort = ''Abort''"
| "codeName Code_Busy = ''Busy''"
| "codeName Code_Locked = ''Locked''"
| "codeName Code_NoMemory = ''NoMemory''"
| "codeName Code_Readonly = ''Readonly''"
| "codeName Code_Interrupt = ''Interrupt''"
| "codeName Code_IOError = ''IOError''"
| "codeName Code_Corrupt = ''Corrupt''"
| "codeName Code_NotFound = ''NotFound''"
| "codeName Code_Full = ''Full''"
| "codeName Code_CantOpen = ''CantOpen''"
| "codeName Code_Protocol = ''Protocol''"
| "codeName Code_Empty = ''Empty''"
| "codeName Code_Schema = ''Schema''"
| "codeName Code_Exceed = ''Exceed''"
| "codeName Code_Constraint = ''Constraint''"
| "codeName Code_Mismatch = ''Mismatch''"
| "codeName Code_Misuse = ''Misuse''"
| "codeName Code_NoLargeFileSupport = ''NoLargeFileSupport''"
| "codeName Code_Authorization = ''Authorization''"
| "codeName Code_Format = ''Format''"
| "codeName Code_Range = ''Range''"
| "codeName Code_NotADatabase = ''NotADatabase''"
| "codeName Code_Notice = ''Notice''"
| "codeName Code_Warning = ''Warning''"
| "codeName Code_Row = ''Row''"
| "codeName Code_Done = ''Done''"
| "codeName Code_ZstdError = ''ZstdError''"

definition error_codes :: "error_code list" where
  "error_codes =
    [Code_OK, Code_Error, Code_Internal, Code_Permission, Code_Abort, Code_Busy, Code_Locked,
     Code_NoMemory, Code_Readonly, Code_Interrupt, Code_IOError, Code_Corrupt, Code_NotFound,
     Code_Full, Code_CantOpen, Code_Protocol, Code_Empty, Code_Schema, Code_Exceed,
     Code_Constraint, Code_Mismatch, Code_Misuse, Code_NoLargeFileSupport, Code_Authorization,
     Code_Format, Code_Range, Code_NotADatabase, Code_Notice, Code_Warning, Code_Row,
     Code_Done, Code_ZstdError]"

text \<open>\<open>ExtCode\<close>: each enumerator is a code with a number in the second byte.\<close>

definition ext_number :: "error_code \<Rightarrow> nat \<Rightarrow> int" where
  "ext_number code n = c2rc code OR push_bit 8 (int n)"

definition ext_codes :: "(string \<times> error_code \<times> nat) list" where
  "ext_codes =
    [(''ErrorMissingCollseq'', Code_Error, 1),
     (''ErrorRetry'', Code_Error, 2),
     (''ErrorSnapshot'', Code_Error, 3),
     (''IOErrorRead'', Code_IOError, 1),
     (''IOErrorShortRead'', Code_IOError, 2),
     (''IOErrorWrite'', Code_IOError, 3),
     (''IOErrorFsync'', Code_IOError, 4),
     (''IOErrorDirFsync'', Code_IOError, 5),
     (''IOErrorTruncate'', Code_IOError, 6),
     (''IOErrorFstat'', Code_IOError, 7),
     (''IOErrorUnlock'', Code_IOError, 8),
     (''IOErrorRdlock'', Code_IOError, 9),
     (''IOErrorDelete'', Code_IOError, 10),
     (''IOErrorBlocked'', Code_IOError, 11),
     (''IOErrorNoMemory'', Code_IOError, 12),
     (''IOErrorAccess'', Code_IOError, 13),
     (''IOErrorCheckReservedLock'', Code_IOError, 14),
     (''IOErrorLock'', Code_IOError, 15),
     (''IOErrorClose'', Code_IOError, 16),
     (''IOErrorDirClose'', Code_IOError, 17),
     (''IOErrorShmOpen'', Code_IOError, 18),
     (''IOErrorShmSize'', Code_IOError, 19),
     (''IOErrorShmLock'', Code_IOError, 20),
     (''IOErrorShmMap'', Code_IOError, 21),
     (''IOErrorSeek'', Code_IOError, 22),
     (''IOErrorDeleteNoEntry'', Code_IOError, 23),
     (''IOErrorMmap'', Code_IOError, 24),
     (''IOErrorGetTempPath'', Code_IOError, 25),
     (''IOErrorConvPath'', Code_IOError, 26),
     (''IOErrorVnode'', Code_IOError, 27),
     (''IOErrorAuthorization'', Code_IOError, 28),
     (''IOErrorBeginAtomic'', Code_IOError, 29),
     (''IOErrorCommitAtomic'', Code_IOError, 30),
     (''IOErrorRollbackAtomic'', Code_IOError, 31),
     (''LockedSharedCache'', Code_Locked, 1),
     (''LockedVirtualTable'', Code_Locked, 2),
     (''BusyRecovery'', Code_Busy, 1),
     (''BusySnapshot'', Code_Busy, 2),
     (''CantOpenNoTempDir'', Code_CantOpen, 1),
     (''CantOpenIsDir'', Code_CantOpen, 2),
     (''CantOpenFullPath'', Code_CantOpen, 3),
     (''CantOpenConvPath'', Code_CantOpen, 4),
     (''CantOpenDirtyWal'', Code_CantOpen, 5),
     (''CorruptVirtualTable'', Code_Corrupt, 1),
     (''CorruptSequence'', Code_Corrupt, 2),
     (''ReadonlyRecovery'', Code_Readonly, 1),
     (''ReadonlyCantLock'', Code_Readonly, 2),
     (''ReadonlyRollback'', Code_Readonly, 3),
     (''ReadonlyDatabaseMoved'', Code_Readonly, 4),
     (''ReadonlyCantInit'', Code_Readonly, 5),
     (''ReadonlyDirectory'', Code_Readonly, 6),
     (''AbortRollback'', Code_Abort, 2),
     (''ConstraintCheck'', Code_Constraint, 1),
     (''ConstraintCommitHook'', Code_Constraint, 2),
     (''ConstraintForeignKey'', Code_Constraint, 3),
     (''ConstraintFunction'', Code_Constraint, 4),
     (''ConstraintNotNull'', Code_Constraint, 5),
     (''ConstraintPrimaryKey'', Code_Constraint, 6),
     (''ConstraintTrigger'', Code_Constraint, 7),
     (''ConstraintUnique'', Code_Constraint, 8),
     (''ConstraintVirtualTable'', Code_Constraint, 9),
     (''ConstraintRowID'', Code_Constraint, 10),
     (''NoticeRecoverWal'', Code_Notice, 1),
     (''NoticeRecoverRollback'', Code_Notice, 2),
     (''WarningAutoIndex'', Code_Warning, 1),
     (''AuthorizationUser'', Code_Authorization, 1),
     (''OKLoadPermanently'', Code_OK, 1)]"

definition code_of_number :: "int \<Rightarrow> error_code option" where
  "code_of_number n = find (\<lambda>c. c2rc c = n) error_codes"

definition rc2c :: "int \<Rightarrow> error_code option" where
  "rc2c rc = code_of_number (rc AND 255)"

definition isError :: "int \<Rightarrow> bool" where
  "isError rc \<longleftrightarrow> rc \<noteq> 0 \<and> rc \<noteq> 100 \<and> rc \<noteq> 101"

section \<open>The error object\<close>

datatype info_value = Info_Text string | Info_Int int

record werror =
  er_level :: error_level
  er_code :: error_code
  er_message :: string
  er_infos :: "(string \<times> info_value) list"

definition error_init :: werror where
  "error_init = \<lparr>er_level = Level_Ignore, er_code = Code_OK, er_message = [], er_infos = []\<rparr>"

fun infos_erase :: "string \<Rightarrow> (string \<times> info_value) list \<Rightarrow> (string \<times> info_value) list" where
  "infos_erase k [] = []"
| "infos_erase k ((k', v) # xs) = (if k = k' then infos_erase k xs else (k', v) # infos_erase k xs)"

definition insert_or_assign :: "string \<Rightarrow> info_value \<Rightarrow> werror \<Rightarrow> werror" where
  "insert_or_assign k v e = e\<lparr>er_infos := (k, v) # infos_erase k (er_infos e)\<rparr>"

definition setCode :: "error_code \<Rightarrow> string \<Rightarrow> werror \<Rightarrow> werror" where
  "setCode code message e =
     e\<lparr>er_code := code, er_message := (if message = [] then codeName code else message)\<rparr>"

definition make_error :: "error_code \<Rightarrow> error_level \<Rightarrow> string \<Rightarrow> werror" where
  "make_error code level message = setCode code message (error_init\<lparr>er_level := level\<rparr>)"

datatype errno = EIO | ENOMEM | EACCES | EBUSY | ENOSPC | EAUTH | ENOENT
  | EINTR | EDEVERR | EILSEQ | EINVAL | Errno_other int

text \<open>The number and the text of an \<open>errno\<close> belong to the platform.\<close>

record libc =
  errno_number :: "errno \<Rightarrow> int"
  strerror :: "errno \<Rightarrow> string"

definition setSystemCode :: "libc \<Rightarrow> errno \<Rightarrow> error_code \<Rightarrow> string \<Rightarrow> werror \<Rightarrow> werror" where
  "setSystemCode lib systemCode codeIfUnresolved message e =
     (let code = (case systemCode of
          EIO \<Rightarrow> Code_IOError
        | ENOMEM \<Rightarrow> Code_NoMemory
        | EACCES \<Rightarrow> Code_Permission
        | EBUSY \<Rightarrow> Code_Busy
        | ENOSPC \<Rightarrow> Code_Full
        | EAUTH \<Rightarrow> Code_Authorization
        | ENOENT \<Rightarrow> Code_NotFound
        | _ \<Rightarrow> codeIfUnresolved);
          e = setCode code (if message = [] then strerror lib systemCode else message) e;
          e = insert_or_assign ''Source'' (Info_Text ''System'') e
      in insert_or_assign ''ExtCode'' (Info_Int (errno_number lib systemCode)) e)"

definition setSQLiteCode ::
  "libc \<Rightarrow> (int \<Rightarrow> string) \<Rightarrow> errno \<Rightarrow> int \<Rightarrow> string \<Rightarrow> werror \<Rightarrow> werror option" where
  "setSQLiteCode lib sqlite3_errstr err rc message e = do {
     code \<leftarrow> rc2c rc;
     let e = setCode code (if message = [] then sqlite3_errstr rc else message) e;
     let e = (if c2rc code = rc then e\<lparr>er_infos := infos_erase ''ExtCode'' (er_infos e)\<rparr>
              else insert_or_assign ''ExtCode'' (Info_Int rc) e);
     let e = insert_or_assign ''Source'' (Info_Text ''SQLite'') e;
     Some (if code = Code_CantOpen \<or> code = Code_IOError
           then insert_or_assign ''SystemErrMsg'' (Info_Text (strerror lib err))
             (insert_or_assign ''SystemErrno'' (Info_Int (errno_number lib err)) e)
           else e)
   }"

definition error_isOK :: "werror \<Rightarrow> bool" where
  "error_isOK e \<longleftrightarrow> er_code e = Code_OK"

definition isIgnorable :: "werror \<Rightarrow> bool" where
  "isIgnorable e \<longleftrightarrow> er_level e = Level_Ignore"

text \<open>\<open>UnsafeStringView::contain\<close>, by \<open>strstr\<close>; an empty target is never contained.\<close>

definition string_contain :: "string \<Rightarrow> string \<Rightarrow> bool" where
  "string_contain target s \<longleftrightarrow> \<not> (length target > length s \<or> length target = 0) \<and> sublist target s"

definition malformedSchemaMsg :: string where
  "malformedSchemaMsg = ''malformed database schema''"

definition isCorruption :: "werror \<Rightarrow> bool" where
  "isCorruption e \<longleftrightarrow> er_code e = Code_Corrupt \<or> er_code e = Code_NotADatabase
     \<or> (er_code e = Code_Error \<and> string_contain malformedSchemaMsg (er_message e))"

definition getExtCode :: "werror \<Rightarrow> int" where
  "getExtCode e = (case map_of (er_infos e) ''ExtCode'' of Some (Info_Int n) \<Rightarrow> n | _ \<Rightarrow> 0)"

section \<open>Properties\<close>

lemma map_of_infos_erase: "map_of (infos_erase k xs) = (map_of xs)(k := None)"
  by (induction k xs rule: infos_erase.induct) auto

lemma map_of_insert_or_assign [simp]:
  "map_of (er_infos (insert_or_assign k v e)) = (map_of (er_infos e))(k \<mapsto> v)"
  by (simp add: insert_or_assign_def map_of_infos_erase)

lemma insert_or_assign_simps [simp]:
  "er_code (insert_or_assign k v e) = er_code e" "er_level (insert_or_assign k v e) = er_level e"
  "er_message (insert_or_assign k v e) = er_message e"
  by (simp_all add: insert_or_assign_def)

lemma error_codes_complete: "c \<in> set error_codes"
  by (cases c) (simp_all add: error_codes_def)



text \<open>
  After \<open>setSQLiteCode\<close> the error holds the primary code of the result and the
  result itself is recovered as the extended code, unless it is a primary code.
\<close>

theorem setSQLiteCode_codes:
  assumes "setSQLiteCode lib errstr err rc message e = Some e'"
  shows "Some (er_code e') = rc2c rc \<and> er_level e' = er_level e \<and>
    getExtCode e' = (if c2rc (er_code e') = rc then 0 else rc)"
  using assms
  by (auto simp: setSQLiteCode_def setCode_def getExtCode_def map_of_infos_erase bind_Some_conv Let_def
      split: if_splits)

theorem setSQLiteCode_codes_witness:
  "\<exists>e'. setSQLiteCode \<lparr>errno_number = (\<lambda>_. 5), strerror = (\<lambda>_. ''Input/output error'')\<rparr>
      (\<lambda>_. ''disk I/O error'') EIO 266 [] error_init = Some e' \<and>
     er_code e' = Code_IOError \<and> getExtCode e' = 266"
proof -
  let ?r = "setSQLiteCode \<lparr>errno_number = (\<lambda>_. 5), strerror = (\<lambda>_. ''Input/output error'')\<rparr>
      (\<lambda>_. ''disk I/O error'') EIO 266 [] error_init"
  have rc: "rc2c 266 = Some Code_IOError" by code_simp
  then obtain e' where e': "?r = Some e'" by (auto simp: setSQLiteCode_def)
  from setSQLiteCode_codes [OF e'] rc show ?thesis by (auto simp: e')
qed

end
