(* ===== verification/WCDB_FileHandle.thy ===== *)
theory WCDB_FileHandle
  imports WCDB_Data WCDB_Error
begin

text \<open>
  Files: \<open>src/src/common/base/FileHandle.cpp\<close> (the POSIX branches), \<open>MappedData.cpp\<close> and
  \<open>FileManager::getFileSize\<close>.

  A handle holds the file it is opened on.  The answers of the operating system are the
  record \<open>sys\<close>: the \<open>t\<close>-th system call made through the handle is answered with the
  entry for \<open>t\<close>, an error number or the count that the call transfers, which is clipped to
  what was asked for and to what the file has.  \<open>errno\<close> can be read after every call, also
  after one that succeeded.  The thread's error slot is \<open>fh_error\<close>; the notifier that also
  sees the errors is not modelled.
\<close>

record sys =
  sys_lib :: libc
  sys_pagesize :: nat
  sys_malloc :: allocator
  sys_open :: "nat \<Rightarrow> bool"
  sys_stat :: "nat \<Rightarrow> bool"
  sys_lseek :: "nat \<Rightarrow> bool"
  sys_mmap :: "nat \<Rightarrow> bool"
  sys_read :: "nat \<Rightarrow> int"
  sys_write :: "nat \<Rightarrow> int"
  sys_errno :: "nat \<Rightarrow> errno"

datatype fh_mode = Mode_None | Mode_OverWrite | Mode_ReadOnly

record fh =
  fh_path :: string
  fh_file :: "byte list option"
  fh_isOpen :: bool
  fh_mode :: fh_mode
  fh_ignorable :: bool
  fh_fileSize :: int
  fh_error :: werror
  fh_tick :: nat
  fh_sys :: sys

definition fh_init :: "sys \<Rightarrow> string \<Rightarrow> byte list option \<Rightarrow> fh" where
  "fh_init sys path file =
     \<lparr>fh_path = path, fh_file = file, fh_isOpen = False, fh_mode = Mode_None, fh_ignorable = False,
      fh_fileSize = - 1, fh_error = error_init, fh_tick = 0, fh_sys = sys\<rparr>"

definition fh_content :: "fh \<Rightarrow> byte list" where
  "fh_content h = (case fh_file h of None \<Rightarrow> [] | Some bs \<Rightarrow> bs)"

text \<open>\<open>setThreadedError(message)\<close>: the error of the last system call.\<close>

definition fh_raise :: "errno \<Rightarrow> string \<Rightarrow> fh \<Rightarrow> fh" where
  "fh_raise err message h =
     (let e = error_init\<lparr>er_level := (if fh_ignorable h then Level_Warning else Level_Error)\<rparr>;
          e = setSystemCode (sys_lib (fh_sys h)) err Code_IOError message e
      in h\<lparr>fh_error := insert_or_assign ''AssociatePath'' (Info_Text (fh_path h)) e\<rparr>)"

definition fh_open :: "fh_mode \<Rightarrow> fh \<Rightarrow> bool \<times> fh" where
  "fh_open mode h =
     (let t = fh_tick h; h = h\<lparr>fh_tick := Suc t\<rparr>;
          ok = sys_open (fh_sys h) t \<and> (mode = Mode_OverWrite \<or> fh_file h \<noteq> None)
      in if \<not> ok then (False, fh_raise (sys_errno (fh_sys h) t) [] h)
         else (True, h\<lparr>fh_isOpen := True, fh_mode := mode,
                       fh_file := (if mode = Mode_OverWrite then Some [] else fh_file h)\<rparr>))"

definition fh_close :: "fh \<Rightarrow> fh" where
  "fh_close h = h\<lparr>fh_isOpen := False\<rparr>"

definition getFileSize :: "fh \<Rightarrow> nat option \<times> fh" where
  "getFileSize h =
     (let t = fh_tick h; h = h\<lparr>fh_tick := Suc t\<rparr>
      in if sys_stat (fh_sys h) t \<and> fh_file h \<noteq> None then (Some (length (fh_content h)), h)
         else if sys_errno (fh_sys h) t = ENOENT then (Some 0, h)
         else (None, fh_raise (sys_errno (fh_sys h) t) [] h))"

definition fh_size :: "fh \<Rightarrow> int \<times> fh" where
  "fh_size h =
     (if fh_mode h = Mode_ReadOnly \<and> fh_fileSize h \<ge> 0 then (fh_fileSize h, h)
      else let (n, h) = getFileSize h;
               h = (case n of None \<Rightarrow> h | Some n \<Rightarrow> h\<lparr>fh_fileSize := int n\<rparr>)
           in (fh_fileSize h, h))"

section \<open>Reading\<close>

text \<open>The system call at a file position.\<close>

definition sys_read_at :: "sys \<Rightarrow> byte list \<Rightarrow> nat \<Rightarrow> nat \<Rightarrow> nat \<Rightarrow> int" where
  "sys_read_at sys file t pos n =
     (if sys_read sys t < 0 then - 1 else min (sys_read sys t) (int (min n (length file - pos))))"

definition damaged :: "errno \<Rightarrow> bool" where
  "damaged err \<longleftrightarrow> err = EDEVERR \<or> err = EILSEQ \<or> err = EINVAL"

text \<open>
  The loop of \<open>read\<close>.  The result is the last count, \<open>prior\<close>, the call counter and the error
  that was raised.  An interrupted call is made again.
\<close>

partial_function (option) fh_read_loop ::
  "sys \<Rightarrow> byte list \<Rightarrow> nat \<Rightarrow> nat \<Rightarrow> nat \<Rightarrow> (int \<times> nat \<times> nat \<times> (errno \<times> string) option) option" where
  "fh_read_loop sys file t prior readSize =
     (let got = sys_read_at sys file t prior readSize; err = sys_errno sys t
      in if got = int readSize then Some (got, prior, Suc t, None)
         else if got \<le> 0 \<and> damaged err
         then Some (got, 0, Suc t, Some (err, ''This file may be permanently damaged''))
         else if got < 0
         then (if err = EINTR then fh_read_loop sys file (Suc t) prior readSize
               else Some (got, 0, Suc t, Some (err, [])))
         else if got > 0
         then fh_read_loop sys file (Suc t) (prior + nat got) (readSize - nat got)
         else Some (got, prior, Suc t, None))"

definition fh_read :: "nat \<Rightarrow> fh \<Rightarrow> (udata \<times> fh) option" where
  "fh_read n h =
     (if n = 0 then Some (ud_null, h)
      else case data_reset (sys_malloc (fh_sys h)) ud_null None n of
        None \<Rightarrow> None
      | Some (data, ok) \<Rightarrow>
          if ud_empty data then Some (ud_null, h)
          else let t = fh_tick h; h = h\<lparr>fh_tick := Suc t\<rparr>
            in if \<not> sys_lseek (fh_sys h) t
               then Some (ud_null, fh_raise (sys_errno (fh_sys h) t) [] h)
               else do {
                 (got, prior, t, err) \<leftarrow> fh_read_loop (fh_sys h) (fh_content h) (Suc t) 0 n;
                 let h = (case err of None \<Rightarrow> h | Some (e, message) \<Rightarrow> fh_raise e message h)\<lparr>fh_tick := t\<rparr>;
                 let total = got + int prior;
                 data \<leftarrow> ud_write data 0 (take (nat total) (fh_content h));
                 if to_size total = n then Some (data, h)
                 else Some (data_subdata data 0 (to_size total), fh_raise EIO ''Short read.'' h)
               })"

section \<open>Writing\<close>

definition sys_write_count :: "sys \<Rightarrow> nat \<Rightarrow> nat \<Rightarrow> int" where
  "sys_write_count sys t n = (if sys_write sys t < 0 then - 1 else min (sys_write sys t) (int n))"

partial_function (option) fh_write_loop ::
  "sys \<Rightarrow> nat \<Rightarrow> nat \<Rightarrow> nat \<Rightarrow> (int \<times> nat \<times> nat \<times> errno option) option" where
  "fh_write_loop sys t prior n =
     (let wrote = sys_write_count sys t n; err = sys_errno sys t
      in if wrote = int n then Some (wrote, prior, Suc t, None)
         else if wrote < 0
         then (if err = EINTR then fh_write_loop sys (Suc t) prior n
               else Some (wrote, prior, Suc t, Some err))
         else if wrote > 0 then fh_write_loop sys (Suc t) (prior + nat wrote) (n - nat wrote)
         else Some (wrote, prior, Suc t, None))"

definition fh_write :: "byte list \<Rightarrow> fh \<Rightarrow> (bool \<times> fh) option" where
  "fh_write bs h =
     (let t = fh_tick h; h = h\<lparr>fh_tick := Suc t\<rparr>
      in if \<not> sys_lseek (fh_sys h) t then Some (False, fh_raise (sys_errno (fh_sys h) t) [] h)
         else do {
           (wrote, prior, t, err) \<leftarrow> fh_write_loop (fh_sys h) (Suc t) 0 (length bs);
           let h = (case err of None \<Rightarrow> h | Some e \<Rightarrow> fh_raise e [] h)\<lparr>fh_tick := t\<rparr>;
           let stored = prior + nat wrote;
           let h = h\<lparr>fh_file := Some (take stored bs @ drop stored (fh_content h))\<rparr>;
           if wrote + int prior = int (length bs)
           then Some (True, h\<lparr>fh_fileSize := int (length bs)\<rparr>)
           else Some (False, fh_raise EIO ''Short write.'' (h\<lparr>fh_fileSize := - 1\<rparr>))
         })"

section \<open>Memory maps\<close>

text \<open>
  The window of \<open>map\<close>: offset and size are rounded to memory pages, the size is cut at the
  end of the file, and the result is the part of the mapping that was asked for.  The
  mapping shows the bytes of the file, as far as the file has them.
\<close>

definition fh_rounded :: "nat \<Rightarrow> nat \<Rightarrow> int \<Rightarrow> nat \<Rightarrow> int \<times> int \<times> nat" where
  "fh_rounded pageSize fileSize offset len =
     (let offsetAlignment = int (to_size offset mod pageSize);
          roundedOffset = offset - offsetAlignment;
          roundedSize = to_size (int len + offsetAlignment);
          sizeAlignment = roundedSize mod pageSize;
          roundedSize = (if sizeAlignment \<noteq> 0
                         then to_size (int roundedSize + int pageSize - int sizeAlignment) else roundedSize);
          roundedSize = (if to_size (int roundedSize + roundedOffset) > fileSize
                         then to_size (int fileSize - roundedOffset) else roundedSize)
      in (offsetAlignment, roundedOffset, roundedSize))"

definition fh_mapped :: "nat \<Rightarrow> nat \<Rightarrow> byte list \<Rightarrow> int \<Rightarrow> nat \<Rightarrow> udata" where
  "fh_mapped pageSize fileSize content offset len =
     (let (offsetAlignment, roundedOffset, roundedSize) = fh_rounded pageSize fileSize offset len
      in ud_subdata \<lparr>ud_mem = take roundedSize (drop (nat roundedOffset) content),
                     ud_off = 0, ud_size = roundedSize, ud_shared = True\<rparr>
           offsetAlignment (min len roundedSize))"

text \<open>Before a mapping at offset 0 the first bytes are read as a test of the file.\<close>

definition fh_test :: "int \<Rightarrow> fh \<Rightarrow> (bool \<times> fh) option" where
  "fh_test offset h =
     (if offset = 0 then do {
        (testData, h) \<leftarrow> fh_read 4 h;
        Some (ud_size testData > 0, h)
      } else Some (True, h))"

definition fh_mmap :: "nat \<Rightarrow> int \<Rightarrow> nat \<Rightarrow> fh \<Rightarrow> udata \<times> fh" where
  "fh_mmap fileSize offset len h =
     (let t = fh_tick h; h = h\<lparr>fh_tick := Suc t\<rparr>; page = sys_pagesize (fh_sys h);
          (_, _, roundedSize) = fh_rounded page fileSize offset len
      in if \<not> sys_mmap (fh_sys h) t
         then (ud_null, h\<lparr>fh_error := insert_or_assign ''MmapSize'' (Info_Int (int roundedSize))
                  (fh_error (fh_raise (sys_errno (fh_sys h) t) [] h))\<rparr>)
         else (fh_mapped page fileSize (fh_content h) offset len, h))"

definition fh_map :: "int \<Rightarrow> nat \<Rightarrow> fh \<Rightarrow> (udata \<times> fh) option" where
  "fh_map offset len h =
     (if fh_mode h \<noteq> Mode_ReadOnly then Some (ud_null, h)
      else let (fileSize, h) = fh_size h
           in do {
             (test, h) \<leftarrow> fh_test offset h;
             if \<not> test then Some (ud_null, h) else Some (fh_mmap (to_size fileSize) offset len h)
           })"

definition mapOrReadAllData :: "fh \<Rightarrow> (udata \<times> fh) option" where
  "mapOrReadAllData h =
     (let (fileSize, h) = fh_size h
      in if fileSize < 0 then Some (ud_null, h)
         else do {
           (data, h) \<leftarrow> fh_map 0 (nat fileSize) (h\<lparr>fh_ignorable := True\<rparr>);
           let h = h\<lparr>fh_ignorable := False\<rparr>;
           if ud_size data = nat fileSize then Some (data, h)
           else do {
             (data, h) \<leftarrow> fh_read (nat fileSize) h;
             Some (if ud_size data = nat fileSize then data else ud_null, h)
           }
         })"

section \<open>The loops come to an end\<close>

text \<open>
  The calls make progress: each call is interrupted or transfers something, and no call is
  interrupted forever.
\<close>

definition progresses :: "(nat \<Rightarrow> int) \<Rightarrow> (nat \<Rightarrow> errno) \<Rightarrow> bool" where
  "progresses call err \<longleftrightarrow> (\<forall>t. \<exists>t' \<ge> t. call t' > 0 \<and> (\<forall>u \<in> {t ..< t'}. call u < 0 \<and> err u = EINTR))"

lemma fh_read_loop_skip:
  assumes "t \<le> t'" "\<forall>u \<in> {t ..< t'}. sys_read sys u < 0 \<and> sys_errno sys u = EINTR"
  shows "fh_read_loop sys file t prior n = fh_read_loop sys file t' prior n"
  using assms
proof (induction t' rule: dec_induct)
  case (step m)
  then have "fh_read_loop sys file m prior n = fh_read_loop sys file (Suc m) prior n"
    by (subst fh_read_loop.simps) (simp add: sys_read_at_def damaged_def Let_def)
  with step show ?case by simp
qed simp

lemma fh_read_loop_complete:
  assumes "progresses (sys_read sys) (sys_errno sys)" "prior + n \<le> length file"
  shows "\<exists>got prior' t'. fh_read_loop sys file t prior n = Some (got, prior', t', None) \<and>
    0 \<le> got \<and> got + int prior' = int (prior + n)"
  using assms(2)
proof (induction n arbitrary: prior t rule: less_induct)
  case (less n)
  obtain t' where t': "t \<le> t'" "sys_read sys t' > 0" "\<forall>u \<in> {t ..< t'}. sys_read sys u < 0 \<and> sys_errno sys u = EINTR"
    using assms(1) by (auto simp: progresses_def)
  let ?got = "min (sys_read sys t') (int n)"
  have got: "sys_read_at sys file t' prior n = ?got" using t'(2) less.prems by (simp add: sys_read_at_def)
  have skip: "fh_read_loop sys file t prior n = fh_read_loop sys file t' prior n"
    using t'(1,3) by (rule fh_read_loop_skip)
  show ?case
  proof (cases "?got = int n")
    case True
    then show ?thesis using got by (subst skip, subst fh_read_loop.simps) (simp add: Let_def)
  next
    case False
    then have pos: "0 < ?got" "?got < int n" using t'(2) by auto
    have "fh_read_loop sys file t' prior n = fh_read_loop sys file (Suc t') (prior + nat ?got) (n - nat ?got)"
      using False pos got by (subst fh_read_loop.simps) (auto simp: Let_def)
    moreover have "\<exists>got prior' t''. fh_read_loop sys file (Suc t') (prior + nat ?got) (n - nat ?got) = Some (got, prior', t'', None) \<and>
      0 \<le> got \<and> got + int prior' = int (prior + nat ?got + (n - nat ?got))"
      by (rule less.IH) (use pos less.prems in auto)
    moreover have "prior + nat ?got + (n - nat ?got) = prior + n" using pos by auto
    ultimately show ?thesis by (simp only: skip)
  qed
qed

lemma fh_read_loop_total:
  assumes "progresses (sys_read sys) (sys_errno sys)"
  shows "\<exists>got prior' t' err. fh_read_loop sys file t prior n = Some (got, prior', t', err) \<and> got + int prior' \<le> int (prior + n)"
proof (induction n arbitrary: prior t rule: less_induct)
  case (less n)
  obtain t' where t': "t \<le> t'" "sys_read sys t' > 0" "\<forall>u \<in> {t ..< t'}. sys_read sys u < 0 \<and> sys_errno sys u = EINTR"
    using assms(1) by (auto simp: progresses_def)
  let ?got = "sys_read_at sys file t' prior n"
  have got: "0 \<le> ?got" "?got \<le> int n" using t'(2) by (auto simp: sys_read_at_def)
  have skip: "fh_read_loop sys file t prior n = fh_read_loop sys file t' prior n"
    using t'(1,3) by (rule fh_read_loop_skip)
  show ?case
  proof (cases "0 < ?got \<and> ?got < int n")
    case True
    then have "fh_read_loop sys file t' prior n = fh_read_loop sys file (Suc t') (prior + nat ?got) (n - nat ?got)"
      by (subst fh_read_loop.simps) (auto simp: Let_def)
    moreover have "\<exists>got prior' t'' err. fh_read_loop sys file (Suc t') (prior + nat ?got) (n - nat ?got) = Some (got, prior', t'', err) \<and>
      got + int prior' \<le> int (prior + nat ?got + (n - nat ?got))"
      by (rule less.IH) (use True in auto)
    moreover have "prior + nat ?got + (n - nat ?got) = prior + n" using True by auto
    ultimately show ?thesis by (simp only: skip)
  next
    case False
    then have "?got = 0 \<or> ?got = int n" using got by auto
    then show ?thesis by (subst skip, subst fh_read_loop.simps) (auto simp: Let_def)
  qed
qed

lemma fh_write_loop_skip:
  assumes "t \<le> t'" "\<forall>u \<in> {t ..< t'}. sys_write sys u < 0 \<and> sys_errno sys u = EINTR"
  shows "fh_write_loop sys t prior n = fh_write_loop sys t' prior n"
  using assms
proof (induction t' rule: dec_induct)
  case (step m)
  then have "fh_write_loop sys m prior n = fh_write_loop sys (Suc m) prior n"
    by (subst fh_write_loop.simps) (simp add: sys_write_count_def Let_def)
  with step show ?case by simp
qed simp

lemma fh_write_loop_complete:
  assumes "progresses (sys_write sys) (sys_errno sys)"
  shows "\<exists>wrote prior' t'. fh_write_loop sys t prior n = Some (wrote, prior', t', None) \<and>
    0 \<le> wrote \<and> wrote + int prior' = int (prior + n)"
proof (induction n arbitrary: prior t rule: less_induct)
  case (less n)
  obtain t' where t': "t \<le> t'" "sys_write sys t' > 0" "\<forall>u \<in> {t ..< t'}. sys_write sys u < 0 \<and> sys_errno sys u = EINTR"
    using assms(1) by (auto simp: progresses_def)
  let ?w = "min (sys_write sys t') (int n)"
  have w: "sys_write_count sys t' n = ?w" using t'(2) by (simp add: sys_write_count_def)
  have skip: "fh_write_loop sys t prior n = fh_write_loop sys t' prior n"
    using t'(1,3) by (rule fh_write_loop_skip)
  show ?case
  proof (cases "?w = int n")
    case True
    then show ?thesis using w by (subst skip, subst fh_write_loop.simps) (simp add: Let_def)
  next
    case False
    then have pos: "0 < ?w" "?w < int n" using t'(2) by auto
    have "fh_write_loop sys t' prior n = fh_write_loop sys (Suc t') (prior + nat ?w) (n - nat ?w)"
      using False pos w by (subst fh_write_loop.simps) (auto simp: Let_def)
    moreover have "\<exists>wrote prior' t''. fh_write_loop sys (Suc t') (prior + nat ?w) (n - nat ?w) = Some (wrote, prior', t'', None) \<and>
      0 \<le> wrote \<and> wrote + int prior' = int (prior + nat ?w + (n - nat ?w))"
      by (rule less.IH) (use pos in auto)
    moreover have "prior + nat ?w + (n - nat ?w) = prior + n" using pos by auto
    ultimately show ?thesis by (simp only: skip)
  qed
qed

section \<open>Properties\<close>

lemma fh_content_tick [simp]: "fh_content (h\<lparr>fh_tick := t\<rparr>) = fh_content h"
  by (simp add: fh_content_def)

lemma fh_raise_simps [simp]:
  "fh_file (fh_raise e m h) = fh_file h" "fh_content (fh_raise e m h) = fh_content h"
  "fh_mode (fh_raise e m h) = fh_mode h" "fh_sys (fh_raise e m h) = fh_sys h" "fh_tick (fh_raise e m h) = fh_tick h"
  "fh_fileSize (fh_raise e m h) = fh_fileSize h"
  by (simp_all add: fh_raise_def fh_content_def Let_def)

text \<open>
  C25: \<open>read\<close> is complete: when interrupted calls are eventually answered, the loop
  terminates and gives exactly the first \<open>n\<close> bytes of the file, however the system splits
  the transfer.
\<close>

theorem fh_read_complete:
  assumes "progresses (sys_read (fh_sys h)) (sys_errno (fh_sys h))" "0 < n" "n \<le> length (fh_content h)"
    "sys_lseek (fh_sys h) (fh_tick h)" "sys_malloc (fh_sys h) n = Some block" "length block = n"
    "n < 4611686018427387904"
  shows "\<exists>d h'. fh_read n h = Some (d, h') \<and> view_ok d \<and> ud_bytes d = take n (fh_content h) \<and>
    fh_content h' = fh_content h"
proof -
  obtain got prior t' where loop: "fh_read_loop (fh_sys h) (fh_content h) (Suc (fh_tick h)) 0 n = Some (got, prior, t', None)"
    "0 \<le> got" "got + int prior = int n"
    using fh_read_loop_complete [OF assms(1), of 0 n "fh_content h" "Suc (fh_tick h)"] assms(3) by auto
  have "to_size (got + int prior) = n" using loop(3) assms(7) by (simp add: to_size_nonneg size_max_def)
  then show ?thesis using loop assms
    by (auto simp: fh_read_def data_reset_def ud_empty_def ud_write_def view_ok_def ud_bytes_def Let_def fh_content_def)
qed

text \<open>
  C26: \<open>write\<close> is complete: under the same condition the loop terminates, \<open>write\<close> returns true,
  and the file that was opened for overwriting holds exactly the bytes.
\<close>

theorem fh_write_complete:
  assumes "progresses (sys_write (fh_sys h)) (sys_errno (fh_sys h))" "sys_lseek (fh_sys h) (fh_tick h)"
    "fh_file h = Some []"
  shows "\<exists>h'. fh_write bs h = Some (True, h') \<and> fh_file h' = Some bs"
proof -
  obtain w prior t' where loop: "fh_write_loop (fh_sys h) (Suc (fh_tick h)) 0 (length bs) = Some (w, prior, t', None)"
    "0 \<le> w" "w + int prior = int (length bs)"
    using fh_write_loop_complete [OF assms(1), of "Suc (fh_tick h)" 0 "length bs"] by auto
  then have "prior + nat w = length bs" by linarith
  then show ?thesis using loop assms by (auto simp: fh_write_def fh_content_def Let_def)
qed

text \<open>The answers of a system that never fails and transfers at most three bytes at a time.\<close>

definition demo_sys :: sys where
  "demo_sys = \<lparr>sys_lib = \<lparr>errno_number = (\<lambda>_. 5), strerror = (\<lambda>_. ''error'')\<rparr>, sys_pagesize = 4096,
     sys_malloc = (\<lambda>n. Some (replicate n 0)), sys_open = (\<lambda>_. True), sys_stat = (\<lambda>_. True),
     sys_lseek = (\<lambda>_. True), sys_mmap = (\<lambda>_. True), sys_read = (\<lambda>_. 3), sys_write = (\<lambda>_. 3),
     sys_errno = (\<lambda>_. EINVAL)\<rparr>"

definition demo_fh :: "byte list \<Rightarrow> fh" where
  "demo_fh bs = (fh_init demo_sys ''a.db'' (Some bs))\<lparr>fh_isOpen := True, fh_mode := Mode_ReadOnly\<rparr>"

lemma demo_progresses: "progresses (sys_read demo_sys) (sys_errno demo_sys)" "progresses (sys_write demo_sys) (sys_errno demo_sys)"
  by (auto simp: progresses_def demo_sys_def)

lemma demo_fh_simps:
  "fh_sys (demo_fh bs) = demo_sys" "fh_tick (demo_fh bs) = 0" "fh_content (demo_fh bs) = bs" "fh_mode (demo_fh bs) = Mode_ReadOnly"
  "fh_file (demo_fh bs) = Some bs" "fh_fileSize (demo_fh bs) = - 1"
  by (simp_all add: demo_fh_def fh_init_def fh_content_def)

theorem fh_read_complete_witness:
  "\<exists>d h'. fh_read 5 (demo_fh [1, 2, 3, 4, 5, 6]) = Some (d, h') \<and> ud_bytes d = [1, 2, 3, 4, 5]"
proof -
  have "\<exists>d h'. fh_read 5 (demo_fh [1, 2, 3, 4, 5, 6]) = Some (d, h') \<and> view_ok d \<and>
    ud_bytes d = take 5 (fh_content (demo_fh [1, 2, 3, 4, 5, 6])) \<and>
    fh_content h' = fh_content (demo_fh [1, 2, 3, 4, 5, 6])"
    by (rule fh_read_complete [where block = "replicate 5 0"])
      (simp_all add: demo_fh_simps demo_progresses, simp_all add: demo_sys_def)
  then show ?thesis by (auto simp: demo_fh_simps)
qed

theorem fh_write_complete_witness:
  "\<exists>h'. fh_write [7, 8, 9, 10] (demo_fh []) = Some (True, h') \<and> fh_file h' = Some [7, 8, 9, 10]"
  by (rule fh_write_complete) (simp_all add: demo_fh_simps demo_progresses, simp add: demo_sys_def)

text \<open>
  At the end of a short file \<open>read\<close> looks at \<open>errno\<close> although the call did not fail.  If
  an earlier call left \<open>EINVAL\<close> there, the bytes that were read are dropped.
\<close>

theorem fh_read_stale_errno:
  "\<exists>h'. fh_read 4 (demo_fh [1, 2, 3]) = Some (ud_null, h') \<and> er_message (fh_error h') = ''Short read.''"
proof -
  have loop: "fh_read_loop demo_sys [1, 2, 3] (Suc 0) 0 4
    = Some (0, 0, 3, Some (EINVAL, ''This file may be permanently damaged''))"
    by (subst fh_read_loop.simps, subst fh_read_loop.simps)
      (simp add: sys_read_at_def demo_sys_def damaged_def)
  have reset: "data_reset (sys_malloc demo_sys) ud_null None 4
    = Some (\<lparr>ud_mem = replicate 4 0, ud_off = 0, ud_size = 4, ud_shared = True\<rparr>, True)"
    by (simp add: data_reset_def demo_sys_def)
  have "sys_lseek demo_sys 0" by (simp add: demo_sys_def)
  then show ?thesis
    by (simp add: fh_read_def demo_fh_simps reset loop ud_empty_def ud_write_def data_subdata_def to_size_def)
      (simp add: fh_raise_def setSystemCode_def setCode_def Let_def)
qed

section \<open>What a mapping shows\<close>

text \<open>An opened file with its size known.\<close>

definition fh_ok :: "fh \<Rightarrow> bool" where
  "fh_ok h \<longleftrightarrow> fh_mode h = Mode_ReadOnly \<and> fh_fileSize h = int (length (fh_content h)) \<and>
     length (fh_content h) < 1152921504606846976 \<and> 0 < sys_pagesize (fh_sys h) \<and> sys_pagesize (fh_sys h) < 1152921504606846976"

lemma fh_rounded_values:
  assumes "0 < page" "page < 1152921504606846976" "0 \<le> offset" "offset < int fsize" "0 < len"
    "len < 1152921504606846976" "fsize < 1152921504606846976"
  obtains sz where "fh_rounded page fsize offset len = (offset mod int page, offset - offset mod int page, sz)"
    "sz = fsize - nat (offset - offset mod int page) \<or> len + nat (offset mod int page) \<le> sz"
    "sz \<le> fsize - nat (offset - offset mod int page)"
proof -
  define a where "a = nat (offset mod int page)"
  have a: "int a = offset mod int page" "a < page" using assms by (simp_all add: a_def nat_less_iff)
  have ro: "0 \<le> offset - int a" using a(1) assms(1,3) by (simp add: zmod_le_nonneg_dividend)
  have align: "int (to_size offset mod page) = int a"
    using assms by (simp add: a to_size_nonneg size_max_def nat_mod_distrib zmod_int)
  define rs0 where "rs0 = len + a"
  have rs0: "to_size (int len + int a) = rs0" "rs0 < 2305843009213693952"
    using assms a by (simp_all add: rs0_def to_size_nonneg size_max_def)
  define rs1 where "rs1 = (if rs0 mod page \<noteq> 0 then rs0 + page - rs0 mod page else rs0)"
  have rs1: "(if rs0 mod page \<noteq> 0 then to_size (int rs0 + int page - int (rs0 mod page)) else rs0) = rs1"
    "rs0 \<le> rs1" "rs1 < 4611686018427387904"
    using rs0(2) assms mod_less_divisor [OF assms(1), of rs0] unfolding rs1_def
    by (auto simp: to_size_nonneg size_max_def simp del: mod_less_divisor)
  have cut: "to_size (int rs1 + (offset - int a)) = rs1 + nat (offset - int a)"
    "to_size (int fsize - (offset - int a)) = fsize - nat (offset - int a)"
    using rs1(3) ro assms by (simp_all add: to_size_nonneg size_max_def nat_add_distrib nat_diff_distrib)
  let ?sz = "if fsize < rs1 + nat (offset - int a) then fsize - nat (offset - int a) else rs1"
  have "fh_rounded page fsize offset len = (int a, offset - int a, ?sz)"
    unfolding fh_rounded_def Let_def align rs0 rs1 cut by simp
  then show ?thesis using rs1(2) by (intro that [of ?sz]) (auto simp: a(1) [symmetric] rs0_def)
qed

lemma fh_mapped_content:
  assumes "0 < page" "page < 1152921504606846976" "0 \<le> offset" "offset < int (length content)" "0 < len"
    "len < 1152921504606846976" "length content < 1152921504606846976"
    "offset mod int page = 0 \<or> offset + int len \<le> int (length content)"
  shows "view_ok (fh_mapped page (length content) content offset len) \<and>
    ud_bytes (fh_mapped page (length content) content offset len) = take len (drop (nat offset) content)"
  using assms(1-7)
proof (rule fh_rounded_values)
  fix sz
  let ?a = "offset mod int page"
  let ?ro = "nat (offset - ?a)"
  let ?d = "\<lparr>ud_mem = take sz (drop ?ro content), ud_off = 0, ud_size = sz, ud_shared = True\<rparr>"
  assume rounded: "fh_rounded page (length content) offset len = (?a, offset - ?a, sz)"
    and sz: "sz = length content - ?ro \<or> len + nat ?a \<le> sz" "sz \<le> length content - ?ro"
  have a: "0 \<le> ?a" "?a \<le> offset" using assms by (simp_all add: zmod_le_nonneg_dividend)
  have d: "view_ok ?d" "ud_bytes ?d = take sz (drop ?ro content)"
    using sz assms by (auto simp: view_ok_def ud_bytes_def)
  have off: "?ro + nat ?a = nat offset" using a by linarith
  have "nat offset + len \<le> length content" if "?a \<noteq> 0" using that assms(3,8) by auto
  then have enough: "len + nat ?a \<le> sz" if "?a \<noteq> 0" using that sz(1) off by fastforce
  then have min: "min len sz + nat ?a \<le> sz" by (cases "?a = 0") auto
  have whole: "take (min len sz) (drop (nat offset) content) = take len (drop (nat offset) content)"
  proof (cases "len \<le> sz")
    case False
    with enough have "?a = 0" by fastforce
    with False sz off show ?thesis by (simp add: min_def)
  qed (simp add: min_def)
  have "fh_mapped page (length content) content offset len = ud_subdata ?d ?a (min len sz)"
    by (simp add: fh_mapped_def rounded)
  moreover have "view_ok (ud_subdata ?d ?a (min len sz))"
    using d a assms by (intro view_ok_subdata) (auto simp: size_max_def)
  moreover have "ud_bytes (ud_subdata ?d ?a (min len sz)) = take (min len sz) (drop (nat ?a) (take sz (drop ?ro content)))"
    using d a min by (subst ud_bytes_subdata) auto
  moreover have "take (min len sz) (drop (nat ?a) (take sz (drop ?ro content))) = take len (drop (nat offset) content)"
    using min off whole by (simp add: drop_take add.commute)
  ultimately show ?thesis by simp
qed

lemma fh_size_ok: "fh_ok h \<Longrightarrow> fh_size h = (int (length (fh_content h)), h)"
  by (simp add: fh_size_def fh_ok_def)

lemma fh_read_frame:
  "fh_read n h = Some (d, h') \<Longrightarrow> fh_content h' = fh_content h \<and> fh_mode h' = fh_mode h \<and> fh_sys h' = fh_sys h \<and>
     fh_fileSize h' = fh_fileSize h"
  by (auto simp: fh_read_def Let_def bind_Some_conv fh_content_def split: if_splits option.splits prod.splits)

lemma fh_read_total:
  assumes "progresses (sys_read (fh_sys h)) (sys_errno (fh_sys h))" "malloc_ok (sys_malloc (fh_sys h))"
  shows "fh_read n h \<noteq> None"
proof (cases "n = 0 \<or> sys_malloc (fh_sys h) n = None")
  case True
  then show ?thesis by (auto simp: fh_read_def data_reset_def ud_empty_def)
next
  case False
  then obtain block where block: "sys_malloc (fh_sys h) n = Some block" "length block = n"
    using assms(2) by (auto simp: malloc_ok_def)
  obtain got prior t' err where loop: "fh_read_loop (fh_sys h) (fh_content h) (Suc (fh_tick h)) 0 n = Some (got, prior, t', err)"
    "got + int prior \<le> int n"
    using fh_read_loop_total [OF assms(1), of "fh_content h" "Suc (fh_tick h)" 0 n] by auto
  then show ?thesis using False block
    by (auto simp: fh_read_def data_reset_def ud_empty_def ud_write_def Let_def split: option.splits)
qed

text \<open>A mapping either shows the window or is the null object; it leaves the file as it is.\<close>

lemma fh_test_frame:
  "fh_test offset h = Some (test, h') \<Longrightarrow> fh_content h' = fh_content h \<and> fh_mode h' = fh_mode h \<and> fh_sys h' = fh_sys h \<and>
     fh_fileSize h' = fh_fileSize h"
  by (auto simp: fh_test_def bind_Some_conv split: if_splits dest: fh_read_frame)

lemma fh_mmap_frame:
  assumes "fh_mmap fsize offset len h = (d, h')"
  shows "fh_content h' = fh_content h \<and> fh_mode h' = fh_mode h \<and> fh_sys h' = fh_sys h \<and> fh_fileSize h' = fh_fileSize h"
    "d = ud_null \<or> d = fh_mapped (sys_pagesize (fh_sys h)) fsize (fh_content h) offset len"
  using assms by (auto simp: fh_mmap_def Let_def fh_content_def split: if_splits prod.splits)

lemma fh_ok_frame:
  "fh_ok h \<Longrightarrow> fh_content h' = fh_content h \<Longrightarrow> fh_mode h' = fh_mode h \<Longrightarrow> fh_sys h' = fh_sys h \<Longrightarrow>
   fh_fileSize h' = fh_fileSize h \<Longrightarrow> fh_ok h'"
  by (simp add: fh_ok_def)

lemma fh_map_unfold:
  assumes "fh_ok h"
  shows "fh_map offset len h = do {
     (test, h) \<leftarrow> fh_test offset h;
     if \<not> test then Some (ud_null, h) else Some (fh_mmap (length (fh_content h)) offset len h)
   }"
proof -
  have "to_size (int (length (fh_content h))) = length (fh_content h)"
    using assms by (simp add: fh_ok_def to_size_nonneg size_max_def)
  moreover have "fh_mode h = Mode_ReadOnly" using assms by (simp add: fh_ok_def)
  moreover have "fh_test offset h = Some (t, h1) \<Longrightarrow> length (fh_content h1) = length (fh_content h)" for t h1
    by (auto dest: fh_test_frame)
  ultimately show ?thesis by (cases "fh_test offset h") (auto simp: fh_map_def fh_size_ok [OF assms])
qed

lemma fh_map_total:
  assumes "progresses (sys_read (fh_sys h)) (sys_errno (fh_sys h))" "malloc_ok (sys_malloc (fh_sys h))" "fh_ok h"
  obtains d h' where "fh_map offset len h = Some (d, h')"
proof -
  have "fh_test offset h \<noteq> None" using fh_read_total [OF assms(1,2), of 4] by (auto simp: fh_test_def split: prod.splits)
  then show ?thesis using that by (force simp: fh_map_unfold [OF assms(3)])
qed

lemma fh_map_cases:
  assumes "fh_ok h" "fh_map offset len h = Some (d, h')"
  shows "fh_ok h' \<and> fh_content h' = fh_content h \<and> fh_sys h' = fh_sys h \<and>
    (d = ud_null \<or> d = fh_mapped (sys_pagesize (fh_sys h)) (length (fh_content h)) (fh_content h) offset len)"
proof -
  obtain test h1 where test: "fh_test offset h = Some (test, h1)"
    and rest: "(if \<not> test then Some (ud_null, h1) else Some (fh_mmap (length (fh_content h1)) offset len h1)) = Some (d, h')"
    using assms(2) by (auto simp: fh_map_unfold [OF assms(1)] bind_Some_conv)
  note frame = fh_test_frame [OF test]
  show ?thesis
  proof (cases test)
    case True
    with rest have "fh_mmap (length (fh_content h1)) offset len h1 = (d, h')" by simp
    from fh_mmap_frame [OF this] frame assms(1) show ?thesis by (auto intro: fh_ok_frame)
  next
    case False
    with rest frame assms(1) show ?thesis by (auto intro: fh_ok_frame)
  qed
qed

text \<open>
  C30: a mapping of a part of the file that starts at a memory page, or ends inside of the
  file, shows exactly the bytes of the file; otherwise the result is the null object.
\<close>

theorem fh_map_content:
  assumes "fh_ok h" "fh_map offset len h = Some (d, h')" "0 \<le> offset" "offset < int (length (fh_content h))"
    "0 < len" "len < 1152921504606846976"
    "offset mod int (sys_pagesize (fh_sys h)) = 0 \<or> offset + int len \<le> int (length (fh_content h))"
  shows "d = ud_null \<or> view_ok d \<and> ud_bytes d = take len (drop (nat offset) (fh_content h))"
proof -
  have "0 < sys_pagesize (fh_sys h)" "sys_pagesize (fh_sys h) < 1152921504606846976" "length (fh_content h) < 1152921504606846976"
    using assms(1) by (auto simp: fh_ok_def)
  then show ?thesis
    using fh_map_cases [OF assms(1,2)] fh_mapped_content [of "sys_pagesize (fh_sys h)" offset "fh_content h" len] assms(3-7)
    by auto
qed

text \<open>
  The tail of the file cannot be mapped from inside of a memory page: when the window
  passes the end of the file, the result is the null object, and no error is raised.
\<close>

theorem fh_map_tail_null:
  assumes "fh_ok h" "0 < offset mod int (sys_pagesize (fh_sys h))" "0 < offset" "offset < int (length (fh_content h))"
    "0 < len" "len < 1152921504606846976" "int (length (fh_content h)) < offset + int len"
    "sys_mmap (fh_sys h) (fh_tick h)"
  shows "fh_map offset len h = Some (ud_null, h\<lparr>fh_tick := Suc (fh_tick h)\<rparr>)"
proof -
  let ?page = "sys_pagesize (fh_sys h)" and ?n = "length (fh_content h)"
  have ok: "0 < ?page" "?page < 1152921504606846976" "?n < 1152921504606846976" using assms(1) by (auto simp: fh_ok_def)
  have "fh_mapped ?page ?n (fh_content h) offset len = ud_null"
    using ok(1,2) less_imp_le [OF assms(3)] assms(4,5,6) ok(3)
  proof (rule fh_rounded_values)
    fix sz
    let ?a = "offset mod int ?page"
    assume r: "fh_rounded ?page ?n offset len = (?a, offset - ?a, sz)"
      and sz: "sz = ?n - nat (offset - ?a) \<or> len + nat ?a \<le> sz" "sz \<le> ?n - nat (offset - ?a)"
    have "?a \<le> offset" using assms(3) by (simp add: zmod_le_nonneg_dividend)
    then have cut: "sz = ?n - nat (offset - ?a)" "sz < len + nat ?a" using sz assms(2,4,7) by linarith+
    have small: "?a + int (min len sz) < size_max" using sz(2) ok assms(2) \<open>?a \<le> offset\<close> assms(4) by (simp add: size_max_def)
    have "to_size (?a + int (min len sz)) = nat ?a + min len sz"
      using small assms(2) by (simp add: to_size_nonneg nat_add_distrib)
    then show ?thesis using cut(2) assms(2) by (auto simp: fh_mapped_def r ud_subdata_def)
  qed
  then show ?thesis using assms
    by (auto simp: fh_map_unfold [OF assms(1)] fh_test_def fh_mmap_def Let_def fh_content_def split: prod.splits)
qed

definition demo_map_fh :: fh where
  "demo_map_fh = (demo_fh [1, 2, 3, 4, 5, 6])\<lparr>fh_fileSize := 6, fh_sys := demo_sys\<lparr>sys_pagesize := 4\<rparr>\<rparr>"

lemma demo_map_fh_simps:
  "fh_ok demo_map_fh" "fh_content demo_map_fh = [1, 2, 3, 4, 5, 6]" "sys_pagesize (fh_sys demo_map_fh) = 4"
  "sys_mmap (fh_sys demo_map_fh) t"
  by (simp_all add: demo_map_fh_def demo_fh_def fh_init_def fh_ok_def fh_content_def demo_sys_def)

theorem fh_map_content_witness:
  "\<exists>d h'. fh_map 1 2 demo_map_fh = Some (d, h') \<and> (d = ud_null \<or> view_ok d \<and> ud_bytes d = [2, 3])"
proof -
  obtain d h' where "fh_map 1 2 demo_map_fh = Some (d, h')"
    by (cases "fh_mmap 6 1 2 demo_map_fh") (auto simp: eval_nat_numeral fh_map_unfold demo_map_fh_simps fh_test_def)
  from fh_map_content [OF demo_map_fh_simps(1) this] this show ?thesis by (auto simp: demo_map_fh_simps)
qed

theorem fh_map_tail_null_witness:
  "fh_map 5 2 demo_map_fh = Some (ud_null, demo_map_fh\<lparr>fh_tick := Suc (fh_tick demo_map_fh)\<rparr>)"
  by (rule fh_map_tail_null) (simp_all add: demo_map_fh_simps)

end
