(* ===== verification/WCDB_Encrypted.thy ===== *)
theory WCDB_Encrypted
  imports WCDB_Incremental WCDB_FileHandle
begin

unbundle bit_operations_syntax

text \<open>
  \<open>src/src/common/repair/basic/EncryptedSerialization.cpp\<close>: a serialized object is cut into pages
  that SQLCipher encrypts, and written to a file; and the way back.

  The delegate of the cipher and \<open>sqlite3Codec\<close> are parameters (\<open>cipher\<close>): the page size (0 when the
  cipher could not be opened), the reserved bytes, and the two directions of the codec on a
  page and its number.  A failure is a value of \<open>cipher_failure\<close>; the object that \<open>return false\<close>
  makes is the empty buffer.
\<close>

record cipher =
  ci_pageSize :: nat
  ci_reserve :: nat
  ci_encode :: "byte list \<Rightarrow> nat \<Rightarrow> byte list option"
  ci_decode :: "byte list \<Rightarrow> nat \<Rightarrow> byte list option"

datatype cipher_failure = Fail_Empty | Fail_Cipher | Fail_Memory | Fail_Encrypt nat | Fail_Data | Fail_Page nat

definition ci_usable :: "cipher \<Rightarrow> nat" where
  "ci_usable c = to_size (int (ci_pageSize c) - int (ci_reserve c))"

section \<open>Encryption\<close>

text \<open>A page of the zeroed buffer with bytes copied into it.\<close>

definition fill_page :: "nat \<Rightarrow> nat \<Rightarrow> byte list \<Rightarrow> byte list option" where
  "fill_page n offset bs =
     (if offset + length bs \<le> n then Some (replicate offset 0 @ bs @ replicate (n - offset - length bs) 0) else None)"

text \<open>The length of the part of the data that goes to a page.\<close>

definition page_part :: "nat \<Rightarrow> nat \<Rightarrow> nat \<Rightarrow> nat" where
  "page_part usable len pageNo =
     (if pageNo = 1
      then (if usable > len + 16 then len else to_size (int usable - 16))
      else (if pageNo * usable > len + 16 then to_size (int (len + 16) - int ((pageNo - 1) * usable)) else usable))"

definition zero_page :: "nat \<Rightarrow> byte list \<Rightarrow> bool" where
  "zero_page n bs \<longleftrightarrow> take 1 bs = [0] \<and> take (n - 1) bs = take (n - 1) (drop 1 bs)"

fun encrypt_pages :: "cipher \<Rightarrow> udata \<Rightarrow> nat \<Rightarrow> nat \<Rightarrow> int \<Rightarrow> (cipher_failure + byte list) option" where
  "encrypt_pages c raw 0 pageNo dataAddr = Some (Inr [])"
| "encrypt_pages c raw (Suc n) pageNo dataAddr = do {
     bs \<leftarrow> ud_read raw dataAddr (page_part (ci_usable c) (ud_size raw) pageNo);
     page \<leftarrow> fill_page (ci_pageSize c) (if pageNo = 1 then 16 else 0) bs;
     out \<leftarrow> ci_encode c page pageNo;
     if zero_page (ci_pageSize c) out then Some (Inl (Fail_Encrypt pageNo))
     else do {
       rest \<leftarrow> encrypt_pages c raw n (Suc pageNo) (dataAddr + int (ci_usable c) - (if pageNo = 1 then 16 else 0));
       Some (map_sum id (\<lambda>bs. take (ci_pageSize c) out @ bs) rest)
     }
   }"

definition encryptedSerialize :: "allocator \<Rightarrow> cipher \<Rightarrow> udata \<Rightarrow> (cipher_failure + udata) option" where
  "encryptedSerialize malloc c raw =
     (if ud_empty raw then Some (Inl Fail_Empty)
      else if ci_pageSize c = 0 then Some (Inl Fail_Cipher)
      else if ci_usable c = 0 then None
      else
        let pageCount = narrow32 (int ((ud_size raw + 16 - 1) div ci_usable c)) + 1;
            totalSize = to_size (pageCount * int (ci_pageSize c))
        in do {
          (data, _) \<leftarrow> data_reset malloc ud_null None totalSize;
          if ud_size data \<noteq> totalSize then Some (Inl Fail_Memory)
          else do {
            x \<leftarrow> encrypt_pages c raw (nat pageCount) 1 0;
            case x of
              Inl e \<Rightarrow> Some (Inl e)
            | Inr bs \<Rightarrow> map_option Inr (ud_write data 0 bs)
          }
        })"

text \<open>\<open>encryptedSerialize(path)\<close>: the result is not checked before the file is opened.\<close>

definition encryptedSerialize_file :: "allocator \<Rightarrow> cipher \<Rightarrow> udata \<Rightarrow> fh \<Rightarrow> (bool \<times> fh) option" where
  "encryptedSerialize_file malloc c raw h = do {
     x \<leftarrow> encryptedSerialize malloc c raw;
     let data = (case x of Inl _ \<Rightarrow> ud_null | Inr d \<Rightarrow> d);
     let (ok, h) = fh_open Mode_OverWrite h;
     if \<not> ok then Some (False, h)
     else do {
       bs \<leftarrow> ud_read data 0 (ud_size data);
       (succeed, h) \<leftarrow> fh_write bs h;
       Some (succeed, fh_close h)
     }
   }"

section \<open>Decryption\<close>

fun decrypt_pages :: "cipher \<Rightarrow> udata \<Rightarrow> nat \<Rightarrow> nat \<Rightarrow> int \<Rightarrow> (cipher_failure + byte list) option" where
  "decrypt_pages c raw 0 pageNo rawAddr = Some (Inr [])"
| "decrypt_pages c raw (Suc n) pageNo rawAddr = do {
     page \<leftarrow> ud_read raw rawAddr (ci_pageSize c);
     case ci_decode c page pageNo of
       None \<Rightarrow> Some (Inl (Fail_Page pageNo))
     | Some out \<Rightarrow> if pageNo = 1 \<and> ci_usable c < 16 then None else do {
         rest \<leftarrow> decrypt_pages c raw n (Suc pageNo) (rawAddr + int (ci_pageSize c));
         Some (map_sum id (\<lambda>bs. drop (if pageNo = 1 then 16 else 0) (take (ci_usable c) out) @ bs) rest)
       }
   }"

text \<open>
  \<open>decryptedDeserialize(rawData, reloadSalt)\<close> up to the call of \<open>deserialize\<close>.  \<open>switchSalt\<close> is the
  cipher after \<open>switchCipherSalt\<close> with the first bytes of the data.
\<close>

definition decryptData :: "allocator \<Rightarrow> (byte list \<Rightarrow> cipher option) \<Rightarrow> bool \<Rightarrow> cipher \<Rightarrow> udata \<Rightarrow> (cipher_failure + udata) option" where
  "decryptData malloc switchSalt reloadSalt c raw =
     (if ci_pageSize c = 0 then Some (Inl Fail_Cipher)
      else if ud_size raw mod ci_pageSize c \<noteq> 0 then Some (Inl Fail_Data)
      else do {
        switched \<leftarrow> (if reloadSalt
                    then map_option switchSalt (ud_read (data_subdata raw 0 16) 0 (ud_size (data_subdata raw 0 16)))
                    else Some (Some c));
        case switched of
          None \<Rightarrow> Some (Inl Fail_Cipher)
        | Some c' \<Rightarrow>
            let c = c'\<lparr>ci_pageSize := ci_pageSize c\<rparr>;
                pageCount = narrow32 (int (ud_size raw div ci_pageSize c));
                totalSize = to_size (pageCount * int (ci_usable c) - 16)
            in do {
              (data, _) \<leftarrow> data_reset malloc ud_null None totalSize;
              if ud_size data \<noteq> totalSize then Some (Inl Fail_Memory)
              else do {
                x \<leftarrow> decrypt_pages c raw (nat pageCount) 1 0;
                case x of
                  Inl e \<Rightarrow> Some (Inl e)
                | Inr bs \<Rightarrow> map_option Inr (ud_write data 0 bs)
              }
            }
      })"

text \<open>\<open>decryptedDeserialize(path, reloadSalt)\<close> for an object whose \<open>deserialize\<close> is given.\<close>

definition decryptedDeserialize_file ::
  "allocator \<Rightarrow> (byte list \<Rightarrow> cipher option) \<Rightarrow> bool \<Rightarrow> cipher \<Rightarrow> 'a reader \<Rightarrow> fh \<Rightarrow> ('a option \<times> fh) option" where
  "decryptedDeserialize_file malloc switchSalt reloadSalt c deserialize h =
     (let (ok, h) = fh_open Mode_ReadOnly h
      in if \<not> ok then Some (None, h)
         else do {
           (raw, h) \<leftarrow> mapOrReadAllData h;
           if ud_empty raw then Some (None, h)
           else do {
             raw \<leftarrow> data_of malloc raw;
             x \<leftarrow> decryptData malloc switchSalt reloadSalt c raw;
             case x of
               Inl _ \<Rightarrow> Some (None, h)
             | Inr d \<Rightarrow> do {
                 (y, _) \<leftarrow> deserialize (ds_init d);
                 Some (case y of Inl _ \<Rightarrow> None | Inr v \<Rightarrow> Some v, h)
               }
           }
         })"

section \<open>The pages\<close>

text \<open>
  What the code relies on: the codec keeps the size of a page, and decoding an encoded page
  gives its usable bytes back, except for the salt in the first bytes of the first page.
\<close>

definition skipped :: "nat \<Rightarrow> nat" where
  "skipped pageNo = (if pageNo = 1 then 16 else 0)"

definition cipher_law :: "cipher \<Rightarrow> bool" where
  "cipher_law c \<longleftrightarrow> 0 < ci_pageSize c \<and> ci_pageSize c \<le> 65536 \<and> ci_reserve c + 17 \<le> ci_pageSize c \<and>
     (\<forall>page n. length page = ci_pageSize c \<longrightarrow>
        (\<exists>out q. ci_encode c page n = Some out \<and> length out = ci_pageSize c \<and> ci_decode c out n = Some q \<and>
           drop (skipped n) (take (ci_usable c) q) = drop (skipped n) (take (ci_usable c) page)))"

lemma cipher_usable:
  assumes "cipher_law c"
  shows "ci_usable c = ci_pageSize c - ci_reserve c" "17 \<le> ci_usable c" "ci_usable c \<le> ci_pageSize c" "ci_pageSize c \<le> 65536"
proof -
  have c: "ci_reserve c + 17 \<le> ci_pageSize c" "ci_pageSize c \<le> 65536" using assms by (simp_all add: cipher_law_def)
  have "int (ci_pageSize c) - int (ci_reserve c) = int (ci_pageSize c - ci_reserve c)" using c(1) by simp
  then show "ci_usable c = ci_pageSize c - ci_reserve c" using c by (simp only: ci_usable_def) (simp add: to_size_nonneg size_max_def)
  then show "17 \<le> ci_usable c" "ci_usable c \<le> ci_pageSize c" "ci_pageSize c \<le> 65536" using c by simp_all
qed

text \<open>The plain text of the pages: the data with a gap for the salt, cut into usable sizes, with zeros behind.\<close>

definition plain_part :: "nat \<Rightarrow> byte list \<Rightarrow> nat \<Rightarrow> byte list" where
  "plain_part usable bs pageNo = take usable (drop ((pageNo - 1) * usable) (replicate 16 0 @ bs))"

definition plain_page :: "cipher \<Rightarrow> byte list \<Rightarrow> nat \<Rightarrow> byte list" where
  "plain_page c bs pageNo = plain_part (ci_usable c) bs pageNo @ replicate (ci_pageSize c - length (plain_part (ci_usable c) bs pageNo)) 0"

lemma to_size_int: "n < 9223372036854775808 \<Longrightarrow> to_size (int n) = n"
  by (simp add: to_size_nonneg size_max_def)

lemma page_part_read:
  assumes "view_ok raw" "ud_bytes raw = bs" "bs \<noteq> []" "17 \<le> u" "u \<le> 65536" "1 \<le> pageNo" "(pageNo - 1) * u < length bs + 16"
  shows "ud_read raw (if pageNo = 1 then 0 else int ((pageNo - 1) * u) - 16) (page_part u (ud_size raw) pageNo) =
    Some (drop (skipped pageNo) (plain_part u bs pageNo))"
proof -
  have len: "ud_size raw = length bs" using assms(1,2) length_ud_bytes by metis
  have small: "length bs < 4611686018427387904" using view_ok_size_bound [OF assms(1)] len by simp
  show ?thesis
  proof (cases "pageNo = 1")
    case True
    have part: "page_part u (length bs) 1 = min (length bs) (u - 16)" using assms(4,5) by (auto simp: page_part_def to_size_nonneg size_max_def nat_diff_distrib)
    have "ud_read raw 0 (min (length bs) (u - 16)) = Some (take (min (length bs) (u - 16)) bs)"
      using ud_read_in_view [OF assms(1), of 0 "min (length bs) (u - 16)"] len assms(2) by (simp add: bytes_at_def)
    moreover have "take (min (length bs) (u - 16)) bs = take (u - 16) bs" by (simp add: min_def)
    ultimately show ?thesis using True part len assms(4) by (simp add: skipped_def plain_part_def)
  next
    case False
    define k where "k = (pageNo - 1) * u"
    have "1 * u \<le> k" unfolding k_def using False assms(6) by (intro mult_le_mono1) simp
    then have k: "u \<le> k" by (simp only: mult_1)
    then have k16: "16 \<le> k" using assms(4) by linarith
    have lt: "k < length bs + 16" using assms(7) by (simp add: k_def)
    have step: "pageNo * u = k + u" using assms(6) by (cases pageNo) (simp_all add: k_def)
    have diff: "int (length bs + 16) - int k = int (length bs + 16 - k)" using lt by simp
    have "to_size (int (length bs + 16) - int k) = length bs + 16 - k"
      unfolding diff by (rule to_size_int) (use small in linarith)
    then have part: "page_part u (length bs) pageNo = min (length bs + 16 - k) u"
      using False lt unfolding page_part_def k_def [symmetric] step by auto
    have off: "int k - 16 = int (k - 16)" using k16 by simp
    have le: "k - 16 + min (length bs + 16 - k) u \<le> length bs" using lt k16 by linarith
    have "ud_read raw (int (k - 16)) (min (length bs + 16 - k) u) = Some (take (min (length bs + 16 - k) u) (drop (k - 16) bs))"
      using ud_read_in_view [OF assms(1), of "int (k - 16)" "min (length bs + 16 - k) u"] len assms(2) le by simp
    moreover have "take (min (length bs + 16 - k) u) (drop (k - 16) bs) = take u (drop (k - 16) bs)"
      using k16 by (auto simp: min_def)
    moreover have "drop (skipped pageNo) (plain_part u bs pageNo) = take u (drop (k - 16) bs)"
      unfolding plain_part_def k_def [symmetric] using False k16 by (simp add: skipped_def)
    ultimately show ?thesis unfolding k_def [symmetric] len part off using False by (simp only: if_False)
  qed
qed

lemma length_plain_part: "length (plain_part u bs pageNo) \<le> u"
  unfolding plain_part_def length_take by simp

lemma length_plain_page: "cipher_law c \<Longrightarrow> length (plain_page c bs pageNo) = ci_pageSize c"
  using cipher_usable(3) [of c] length_plain_part [of "ci_usable c" bs pageNo] by (simp add: plain_page_def)

lemma take_plain_page:
  assumes "cipher_law c"
  shows "take (ci_usable c) (plain_page c bs pageNo) = take (ci_usable c) (plain_part (ci_usable c) bs pageNo @ replicate (ci_usable c) 0)"
proof -
  have "take (ci_usable c - length (plain_part (ci_usable c) bs pageNo)) (replicate (ci_pageSize c - length (plain_part (ci_usable c) bs pageNo)) (0 :: byte)) =
      take (ci_usable c - length (plain_part (ci_usable c) bs pageNo)) (replicate (ci_usable c) 0)"
    using cipher_usable(3) [OF assms] by (simp add: min_def)
  then show ?thesis by (simp only: plain_page_def take_append)
qed

lemma fill_plain_page:
  assumes "cipher_law c" "1 \<le> pageNo"
  shows "fill_page (ci_pageSize c) (skipped pageNo) (drop (skipped pageNo) (plain_part (ci_usable c) bs pageNo)) = Some (plain_page c bs pageNo)"
proof -
  note u = cipher_usable [OF assms(1)]
  let ?part = "plain_part (ci_usable c) bs pageNo"
  have first: "take (skipped pageNo) ?part = replicate (skipped pageNo) 0"
    using u(2) by (simp add: skipped_def plain_part_def min_def)
  have sk: "skipped pageNo \<le> length ?part" using arg_cong [OF first, of length] by simp
  have len: "length ?part \<le> ci_pageSize c" using u(3) length_plain_part [of "ci_usable c" bs pageNo] by simp
  have "replicate (skipped pageNo) 0 @ drop (skipped pageNo) ?part = ?part" using append_take_drop_id [of "skipped pageNo" ?part] by (simp only: first)
  then show ?thesis using sk len by (simp add: fill_page_def plain_page_def flip: append_assoc)
qed

text \<open>The encoded pages from a page on.\<close>

definition encoded :: "cipher \<Rightarrow> byte list \<Rightarrow> nat \<Rightarrow> byte list" where
  "encoded c bs pageNo = the (ci_encode c (plain_page c bs pageNo) pageNo)"

lemma encoded_law:
  assumes "cipher_law c"
  shows "ci_encode c (plain_page c bs n) n = Some (encoded c bs n)" "length (encoded c bs n) = ci_pageSize c"
    "\<exists>q. ci_decode c (encoded c bs n) n = Some q \<and>
       drop (skipped n) (take (ci_usable c) q) = drop (skipped n) (take (ci_usable c) (plain_page c bs n))"
proof -
  have "\<exists>out q. ci_encode c (plain_page c bs n) n = Some out \<and> length out = ci_pageSize c \<and> ci_decode c out n = Some q \<and>
      drop (skipped n) (take (ci_usable c) q) = drop (skipped n) (take (ci_usable c) (plain_page c bs n))"
    using assms length_plain_page [OF assms, of bs n] unfolding cipher_law_def by blast
  then show "ci_encode c (plain_page c bs n) n = Some (encoded c bs n)" "length (encoded c bs n) = ci_pageSize c"
    "\<exists>q. ci_decode c (encoded c bs n) n = Some q \<and>
       drop (skipped n) (take (ci_usable c) q) = drop (skipped n) (take (ci_usable c) (plain_page c bs n))"
    by (auto simp: encoded_def)
qed

definition data_addr :: "nat \<Rightarrow> nat \<Rightarrow> int" where
  "data_addr u pageNo = (if pageNo = 1 then 0 else int ((pageNo - 1) * u) - 16)"

lemma data_addr_next: "1 \<le> pageNo \<Longrightarrow> data_addr u pageNo + int u - (if pageNo = 1 then 16 else 0) = data_addr u (Suc pageNo)"
  by (cases pageNo) (auto simp: data_addr_def algebra_simps)

lemma encrypt_pages_spec:
  assumes "cipher_law c" "view_ok raw" "ud_bytes raw = bs" "bs \<noteq> []" "1 \<le> pageNo" "n = 0 \<or> (pageNo + n - 2) * ci_usable c < length bs + 16"
  shows "\<exists>x. encrypt_pages c raw n pageNo (data_addr (ci_usable c) pageNo) = Some x \<and>
    (case x of Inl e \<Rightarrow> \<exists>k \<in> {pageNo ..< pageNo + n}. e = Fail_Encrypt k \<and> zero_page (ci_pageSize c) (encoded c bs k)
     | Inr out \<Rightarrow> out = concat (map (encoded c bs) [pageNo ..< pageNo + n]))"
  using assms(5,6)
proof (induction n arbitrary: pageNo)
  case (Suc n)
  let ?u = "ci_usable c"
  note u = cipher_usable [OF assms(1)]
  have "(pageNo - 1) * ?u \<le> (pageNo + Suc n - 2) * ?u" using Suc.prems(1) by (intro mult_le_mono1) simp
  also have "\<dots> < length bs + 16" using Suc.prems(2) by blast
  finally have k: "(pageNo - 1) * ?u < length bs + 16" .
  have read: "ud_read raw (data_addr ?u pageNo) (page_part ?u (ud_size raw) pageNo) = Some (drop (skipped pageNo) (plain_part ?u bs pageNo))"
    unfolding data_addr_def using u(2-4) by (intro page_part_read [OF assms(2-4) _ _ Suc.prems(1) k]) simp_all
  have fill: "fill_page (ci_pageSize c) (if pageNo = 1 then 16 else 0) (drop (skipped pageNo) (plain_part ?u bs pageNo)) = Some (plain_page c bs pageNo)"
    using fill_plain_page [OF assms(1) Suc.prems(1), of bs] by (simp add: skipped_def)
  note enc = encoded_law [OF assms(1), of bs pageNo]
  have "n = 0 \<or> (Suc pageNo + n - 2) * ?u < length bs + 16" using Suc.prems by simp
  then obtain x where x: "encrypt_pages c raw n (Suc pageNo) (data_addr ?u (Suc pageNo)) = Some x"
    "case x of Inl e \<Rightarrow> \<exists>k \<in> {Suc pageNo ..< Suc pageNo + n}. e = Fail_Encrypt k \<and> zero_page (ci_pageSize c) (encoded c bs k)
     | Inr out \<Rightarrow> out = concat (map (encoded c bs) [Suc pageNo ..< Suc pageNo + n])"
    using Suc.IH [of "Suc pageNo"] by auto
  have rest: "encrypt_pages c raw n (Suc pageNo) (data_addr ?u pageNo + int ?u - (if pageNo = 1 then 16 else 0)) = Some x"
    using x(1) data_addr_next [OF Suc.prems(1)] by simp
  have upt: "[pageNo ..< pageNo + Suc n] = pageNo # [Suc pageNo ..< Suc pageNo + n]" by (simp add: upt_conv_Cons del: upt_Suc)
  show ?case
  proof (cases "zero_page (ci_pageSize c) (encoded c bs pageNo)")
    case True
    then have "encrypt_pages c raw (Suc n) pageNo (data_addr ?u pageNo) = Some (Inl (Fail_Encrypt pageNo))"
      unfolding encrypt_pages.simps read bind.bind_lunit fill enc(1) by simp
    then show ?thesis using True by (intro exI [of _ "Inl (Fail_Encrypt pageNo)"]) simp
  next
    case False
    then have eq: "encrypt_pages c raw (Suc n) pageNo (data_addr ?u pageNo) = Some (map_sum id (\<lambda>bs'. encoded c bs pageNo @ bs') x)"
      unfolding encrypt_pages.simps read bind.bind_lunit fill enc(1) rest using enc(2) by simp
    show ?thesis
    proof (cases x)
      case (Inl e)
      then show ?thesis unfolding eq using x(2) by auto
    next
      case (Inr out)
      then show ?thesis unfolding eq upt using x(2) by (simp del: upt_Suc)
    qed
  qed
qed simp

lemma decrypt_pages_spec:
  assumes "cipher_law c" "view_ok raw" "1 \<le> pageNo" "0 \<le> addr" "nat addr \<le> ud_size raw"
    "drop (nat addr) (ud_bytes raw) = concat (map (encoded c bs) [pageNo ..< pageNo + n])"
  shows "decrypt_pages c raw n pageNo addr =
    Some (Inr (concat (map (\<lambda>k. drop (skipped k) (take (ci_usable c) (plain_page c bs k))) [pageNo ..< pageNo + n])))"
  using assms(3-)
proof (induction n arbitrary: pageNo addr)
  case (Suc n)
  have upt: "[pageNo ..< pageNo + Suc n] = pageNo # [Suc pageNo ..< Suc pageNo + n]" by (simp add: upt_conv_Cons del: upt_Suc)
  note enc = encoded_law [OF assms(1), of bs]
  have bytes: "drop (nat addr) (ud_bytes raw) = encoded c bs pageNo @ concat (map (encoded c bs) [Suc pageNo ..< Suc pageNo + n])"
    using Suc.prems(4) unfolding upt by simp
  have "length (drop (nat addr) (ud_bytes raw)) = ci_pageSize c + length (concat (map (encoded c bs) [Suc pageNo ..< Suc pageNo + n]))"
    by (simp only: bytes length_append enc(2))
  then have le: "nat addr + ci_pageSize c \<le> ud_size raw" using length_ud_bytes [OF assms(2)] Suc.prems(3) by simp
  have read: "ud_read raw addr (ci_pageSize c) = Some (encoded c bs pageNo)"
    using ud_read_in_view [OF assms(2) Suc.prems(2), of "ci_pageSize c"] le Suc.prems(2) bytes enc(2) by simp
  obtain q where q: "ci_decode c (encoded c bs pageNo) pageNo = Some q"
    "drop (skipped pageNo) (take (ci_usable c) q) = drop (skipped pageNo) (take (ci_usable c) (plain_page c bs pageNo))"
    using enc(3) by blast
  have addr: "nat (addr + int (ci_pageSize c)) = nat addr + ci_pageSize c" using Suc.prems(2) by simp
  have "drop (nat addr + ci_pageSize c) (ud_bytes raw) = concat (map (encoded c bs) [Suc pageNo ..< Suc pageNo + n])"
    using arg_cong [OF bytes, of "drop (ci_pageSize c)"] enc(2) by (simp add: add.commute del: upt_Suc)
  then have "decrypt_pages c raw n (Suc pageNo) (addr + int (ci_pageSize c)) =
      Some (Inr (concat (map (\<lambda>k. drop (skipped k) (take (ci_usable c) (plain_page c bs k))) [Suc pageNo ..< Suc pageNo + n])))"
    using Suc.IH [of "Suc pageNo" "addr + int (ci_pageSize c)"] Suc.prems(2) le by (simp add: addr del: upt_Suc)
  moreover have "(if pageNo = 1 then 16 else 0) = skipped pageNo" by (simp add: skipped_def)
  ultimately show ?case using cipher_usable(2) [OF assms(1)]
    unfolding decrypt_pages.simps read bind.bind_lunit upt by (simp add: q del: upt_Suc)
qed simp

text \<open>The decoded pages together: the data and zeros.\<close>

lemma concat_parts:
  "concat (map (\<lambda>k. take u (drop (k * u) xs)) [0 ..< n]) = take (n * u) xs"
proof (induction n)
  case (Suc n)
  have "Suc n * u = n * u + u" by simp
  then show ?case using Suc by (simp only: take_add) simp
qed simp

lemma take_padded:
  assumes "m + u \<le> z"
  shows "take u (take u (drop m ys) @ replicate u (0 :: byte)) = take u (drop m (ys @ replicate z 0))"
proof (cases "length ys \<le> m")
  case True
  then show ?thesis using assms by (simp add: min_def)
next
  case False
  then show ?thesis using assms by (auto simp: min_def)
qed

lemma concat_skip_first:
  assumes "1 \<le> n" "16 \<le> length (P 1)"
  shows "concat (map (\<lambda>k. drop (skipped k) (P k)) [1 ..< 1 + n]) = drop 16 (concat (map P [1 ..< 1 + n]))"
proof -
  have upt: "[1 ..< 1 + n] = 1 # [2 ..< 1 + n]" using assms(1) by (simp add: upt_conv_Cons numeral_2_eq_2 del: upt_Suc)
  have "map (\<lambda>k. drop (skipped k) (P k)) [2 ..< 1 + n] = map P [2 ..< 1 + n]"
    by (rule map_cong [OF refl]) (auto simp: skipped_def simp del: upt_Suc)
  moreover have "skipped 1 = 16" by (simp add: skipped_def)
  ultimately show ?thesis using assms(2) unfolding upt by (simp only: list.map concat.simps drop_append) simp
qed

lemma decoded_parts:
  assumes "cipher_law c" "1 \<le> n" "length bs + 16 \<le> n * ci_usable c"
  shows "concat (map (\<lambda>k. drop (skipped k) (take (ci_usable c) (plain_page c bs k))) [1 ..< 1 + n]) =
    bs @ replicate (n * ci_usable c - 16 - length bs) 0"
proof -
  let ?u = "ci_usable c"
  let ?X = "(replicate 16 0 @ bs) @ replicate (n * ?u) (0 :: byte)"
  have P: "take ?u (plain_page c bs k) = take ?u (drop ((k - 1) * ?u) ?X)" if "k \<in> set [1 ..< 1 + n]" for k
  proof -
    have k: "1 \<le> k" "k \<le> n" using that by (auto simp del: upt_Suc)
    have "(k - 1) * ?u + ?u = k * ?u" using k(1) by (cases k) simp_all
    also have "\<dots> \<le> n * ?u" using k(2) by (rule mult_le_mono1)
    finally show ?thesis unfolding take_plain_page [OF assms(1)] plain_part_def by (rule take_padded)
  qed
  have len: "16 \<le> length (take ?u (drop ((1 - 1) * ?u) ?X))" using cipher_usable(2) [OF assms(1)] by simp
  have "concat (map (\<lambda>k. drop (skipped k) (take ?u (plain_page c bs k))) [1 ..< 1 + n]) =
      concat (map (\<lambda>k. drop (skipped k) (take ?u (drop ((k - 1) * ?u) ?X))) [1 ..< 1 + n])"
    by (rule arg_cong [where f = concat], rule map_cong [OF refl]) (simp only: P)
  also have "\<dots> = drop 16 (concat (map (\<lambda>k. take ?u (drop ((k - 1) * ?u) ?X)) [1 ..< 1 + n]))"
    using assms(2) len by (rule concat_skip_first)
  also have "map (\<lambda>k. take ?u (drop ((k - 1) * ?u) ?X)) [1 ..< 1 + n] = map (\<lambda>k. take ?u (drop (k * ?u) ?X)) [0 ..< n]"
    by (rule nth_equalityI) (simp_all del: upt_Suc)
  also have "drop 16 (concat (map (\<lambda>k. take ?u (drop (k * ?u) ?X)) [0 ..< n])) = drop 16 (take (n * ?u) ?X)"
    by (simp only: concat_parts)
  also have "\<dots> = bs @ replicate (n * ?u - 16 - length bs) 0" using assms(3) by (simp add: drop_take min_def)
  finally show ?thesis .
qed

section \<open>The buffers\<close>

definition page_count :: "cipher \<Rightarrow> byte list \<Rightarrow> nat" where
  "page_count c bs = (length bs + 15) div ci_usable c + 1"

lemma page_count_bounds:
  assumes "cipher_law c" "length bs \<le> 2147483647"
  shows "(page_count c bs - 1) * ci_usable c < length bs + 16" "length bs + 16 \<le> page_count c bs * ci_usable c"
    "page_count c bs \<le> 134217728"
proof -
  let ?u = "ci_usable c" and ?q = "(length bs + 15) div ci_usable c"
  note u = cipher_usable [OF assms(1)]
  have qr: "?q * ?u + (length bs + 15) mod ?u = length bs + 15" "(length bs + 15) mod ?u < ?u" using u(2) by simp_all
  have "?q * ?u < length bs + 16" using qr(1) by linarith
  then show "(page_count c bs - 1) * ?u < length bs + 16" by (simp add: page_count_def)
  have "page_count c bs * ?u = ?q * ?u + ?u" by (simp add: page_count_def)
  then show "length bs + 16 \<le> page_count c bs * ?u" using qr by linarith
  have "?q \<le> (length bs + 15) div 17" using u(2) by (intro div_le_mono2) simp_all
  also have "\<dots> \<le> 2147483662 div 17" using assms(2) by (intro div_le_mono) simp
  finally show "page_count c bs \<le> 134217728" by (simp add: page_count_def)
qed

lemma data_fill:
  assumes "malloc_total malloc" "0 < n" "n \<le> 1152921504606846976" "length bs = n"
  obtains d where "data_reset malloc ud_null None n = Some (d, True)" "ud_size d = n"
    "ud_write d 0 bs = Some \<lparr>ud_mem = bs, ud_off = 0, ud_size = n, ud_shared = True\<rparr>"
proof -
  obtain b where b: "malloc n = Some b" "length b = n" using assms by (auto simp: malloc_total_def malloc_ok_def)
  then show ?thesis using assms(2,4)
    by (intro that [of "\<lparr>ud_mem = b, ud_off = 0, ud_size = n, ud_shared = True\<rparr>"]) (simp_all add: data_reset_def ud_write_def)
qed

lemma length_encoded: "cipher_law c \<Longrightarrow> length (concat (map (encoded c bs) [1 ..< 1 + n])) = n * ci_pageSize c"
  by (induction n) (simp_all add: encoded_law(2))

lemma page_product:
  fixes n m :: nat
  assumes "n \<le> 134217728" "m \<le> 65536"
  shows "n * m \<le> 8796093022208"
  using mult_le_mono [OF assms] by simp

lemma encryptedSerialize_cases:
  assumes "malloc_total malloc" "cipher_law c" "view_ok raw" "ud_bytes raw = bs" "bs \<noteq> []" "length bs \<le> 2147483647"
  obtains (zero) k where "encryptedSerialize malloc c raw = Some (Inl (Fail_Encrypt k))"
  | (ok) d where "encryptedSerialize malloc c raw = Some (Inr d)" "view_ok d"
      "ud_bytes d = concat (map (encoded c bs) [1 ..< 1 + page_count c bs])" "ud_size d = page_count c bs * ci_pageSize c"
proof -
  let ?n = "page_count c bs" and ?u = "ci_usable c" and ?ps = "ci_pageSize c"
  note u = cipher_usable [OF assms(2)] and n = page_count_bounds [OF assms(2,6)]
  have len: "ud_size raw = length bs" using assms(3,4) length_ud_bytes by metis
  have pos: "0 < ?ps" "0 < ?n" using u by (auto simp: page_count_def)
  have np: "?n * ?ps \<le> 8796093022208" using n(3) u(4) by (rule page_product)
  have "(length bs + 15) div ?u \<le> 134217727" using n(3) by (simp add: page_count_def)
  then have "narrow32 (int ((length bs + 15) div ?u)) = int ((length bs + 15) div ?u)" by (intro narrow32_id) linarith+
  then have count: "narrow32 (int ((ud_size raw + 16 - 1) div ?u)) + 1 = int ?n" using len by (simp add: page_count_def add.commute)
  have total: "to_size (int ?n * int ?ps) = ?n * ?ps"
    using np by (simp only: of_nat_mult [symmetric]) (rule to_size_int, linarith)
  have start: "data_addr ?u 1 = 0" by (simp add: data_addr_def)
  have "?n = 0 \<or> (1 + ?n - 2) * ?u < length bs + 16" using n(1) by simp
  then obtain x where x: "encrypt_pages c raw ?n 1 0 = Some x"
    "case x of Inl e \<Rightarrow> \<exists>k \<in> {1 ..< 1 + ?n}. e = Fail_Encrypt k \<and> zero_page ?ps (encoded c bs k)
     | Inr out \<Rightarrow> out = concat (map (encoded c bs) [1 ..< 1 + ?n])"
    using encrypt_pages_spec [OF assms(2-5), of 1 ?n] unfolding start by auto
  have lout: "length (concat (map (encoded c bs) [1 ..< 1 + ?n])) = ?n * ?ps" by (rule length_encoded [OF assms(2)])
  obtain d where d: "data_reset malloc ud_null None (?n * ?ps) = Some (d, True)" "ud_size d = ?n * ?ps"
    "ud_write d 0 (concat (map (encoded c bs) [1 ..< 1 + ?n])) =
       Some \<lparr>ud_mem = concat (map (encoded c bs) [1 ..< 1 + ?n]), ud_off = 0, ud_size = ?n * ?ps, ud_shared = True\<rparr>"
    by (rule data_fill [OF assms(1) _ _ lout]) (use pos np in auto)
  have eq: "encryptedSerialize malloc c raw = (case x of Inl e \<Rightarrow> Some (Inl e) | Inr bs \<Rightarrow> map_option Inr (ud_write d 0 bs))"
    using assms(5) u(2) pos unfolding encryptedSerialize_def Let_def count total d(1) nat_int x(1)
    by (simp add: ud_empty_def len d(2))
  show ?thesis
  proof (cases x)
    case (Inl e)
    then show ?thesis using x(2) eq by (auto intro: zero)
  next
    case (Inr out)
    let ?d = "\<lparr>ud_mem = concat (map (encoded c bs) [1 ..< 1 + ?n]), ud_off = 0, ud_size = ?n * ?ps, ud_shared = True\<rparr>"
    have "view_ok ?d" unfolding view_ok_def udata.simps lout using np by auto
    moreover have "ud_bytes ?d = concat (map (encoded c bs) [1 ..< 1 + ?n])" unfolding ud_bytes_def udata.simps using lout by simp
    ultimately show ?thesis using Inr x(2) eq d(3) by (intro ok [of ?d]) (simp_all del: upt_Suc)
  qed
qed

lemma subdata_readable:
  assumes "view_ok d"
  obtains bs where "ud_read (data_subdata d 0 16) 0 (ud_size (data_subdata d 0 16)) = Some bs"
proof (cases "ud_shared d \<and> to_size (ud_off d + 0 + int 16) \<le> length (ud_mem d)")
  case True
  have "to_size (ud_off d + 0 + int 16) = nat (ud_off d + 16)"
    using assms by (simp add: to_size_nonneg view_ok_def size_max_def)
  then have "ud_off d + 16 \<le> int (length (ud_mem d))" using True assms by (simp add: view_ok_def nat_le_iff)
  then show ?thesis using True assms that by (auto simp: data_subdata_def ud_read_def view_ok_def)
next
  case False
  then have "data_subdata d 0 16 = ud_null" by (auto simp: data_subdata_def)
  then show ?thesis using that by (simp add: ud_read_def ud_null_def)
qed

lemma decryptData_encoded:
  assumes "malloc_total malloc" "cipher_law c" "view_ok raw" "bs \<noteq> []" "length bs \<le> 2147483647"
    "ud_bytes raw = concat (map (encoded c bs) [1 ..< 1 + page_count c bs])" "\<forall>salt. switchSalt salt = Some c"
  obtains d where "decryptData malloc switchSalt reloadSalt c raw = Some (Inr d)" "view_ok d"
    "ud_bytes d = bs @ replicate (page_count c bs * ci_usable c - 16 - length bs) 0"
proof -
  let ?n = "page_count c bs" and ?u = "ci_usable c" and ?ps = "ci_pageSize c"
  let ?out = "bs @ replicate (?n * ?u - 16 - length bs) 0"
  note u = cipher_usable [OF assms(2)] and n = page_count_bounds [OF assms(2,5)]
  have size: "ud_size raw = ?n * ?ps" using length_ud_bytes [OF assms(3)] length_encoded [OF assms(2)] assms(6) by metis
  have pos: "0 < ?ps" "1 \<le> ?n" "?u \<le> 65536" using u by (auto simp: page_count_def)
  have nu: "?n * ?u \<le> 8796093022208" using n(3) pos(3) by (rule page_product)
  have count: "narrow32 (int (ud_size raw div ?ps)) = int ?n"
    unfolding size using pos(1) n(3) by (simp add: narrow32_id)
  have "16 \<le> ?n * ?u" using n(2) by linarith
  then have diff: "int ?n * int ?u - 16 = int (?n * ?u - 16)" by (simp only: of_nat_diff of_nat_mult of_nat_numeral)
  have "?n * ?u - 16 < 9223372036854775808" using nu by linarith
  then have total: "to_size (int ?n * int ?u - 16) = ?n * ?u - 16" unfolding diff by (rule to_size_int)
  have lout: "length ?out = ?n * ?u - 16" using n(2) by simp
  have out: "decrypt_pages c raw ?n 1 0 = Some (Inr ?out)"
    using decrypt_pages_spec [OF assms(2,3), of 1 0 bs ?n] decoded_parts [OF assms(2) pos(2) n(2)] assms(6) by simp
  have "0 < ?n * ?u - 16" using n(2) assms(4) by (cases bs) auto
  then obtain d where d: "data_reset malloc ud_null None (?n * ?u - 16) = Some (d, True)" "ud_size d = ?n * ?u - 16"
    "ud_write d 0 ?out = Some \<lparr>ud_mem = ?out, ud_off = 0, ud_size = ?n * ?u - 16, ud_shared = True\<rparr>"
    by (rule data_fill [OF assms(1) _ _ lout]) (use nu in auto)
  obtain salt where salt: "ud_read (data_subdata raw 0 16) 0 (ud_size (data_subdata raw 0 16)) = Some salt"
    by (rule subdata_readable [OF assms(3)])
  have mod: "ud_size raw mod ?ps = 0" using size by simp
  have c: "c\<lparr>ci_pageSize := ?ps\<rparr> = c" by simp
  have eq: "decryptData malloc switchSalt reloadSalt c raw = map_option Inr (ud_write d 0 ?out)"
    using pos(1) assms(7) unfolding decryptData_def mod salt Let_def
    by (cases reloadSalt) (simp_all add: c count total d(1,2) out [simplified] del: of_nat_mult)
  let ?d = "\<lparr>ud_mem = ?out, ud_off = 0, ud_size = ?n * ?u - 16, ud_shared = True\<rparr>"
  have "view_ok ?d" unfolding view_ok_def udata.simps lout using nu by auto
  moreover have "ud_bytes ?d = ?out" unfolding ud_bytes_def udata.simps using lout by simp
  ultimately show ?thesis using eq d(3) by (intro that [of ?d]) simp_all
qed

section \<open>Properties\<close>



text \<open>A cipher that inverts every bit, with 16 reserved bytes in pages of 64.\<close>

definition demo_cipher :: cipher where
  "demo_cipher = \<lparr>ci_pageSize = 64, ci_reserve = 16, ci_encode = (\<lambda>page _. Some (map not page)), ci_decode = (\<lambda>page _. Some (map not page))\<rparr>"

lemma demo_cipher_law: "cipher_law demo_cipher"
  by (simp add: cipher_law_def demo_cipher_def o_def)

definition demo_raw :: udata where
  "demo_raw = \<lparr>ud_mem = [1, 2, 3], ud_off = 0, ud_size = 3, ud_shared = True\<rparr>"





end
