(* ===== verification/WCDB_Range.thy ===== *)
theory WCDB_Range
  imports WCDB_Prelude
begin

text \<open>
  Ranges of page numbers: \<open>src/src/common/base/Range.cpp\<close> and
  \<open>PageBasedFileHandle::restrictedRange\<close>.

  A location is an \<open>offset_t\<close> (an integer), a length a \<open>size_t\<close> (a natural number); a sum
  of both is computed in \<open>size_t\<close>.  \<open>rg_sane\<close> is the part of the ranges where nothing wraps:
  there a range is the set of its locations.
\<close>

record range =
  rg_loc :: int
  rg_len :: nat

definition rg_notFound :: range where
  "rg_notFound = \<lparr>rg_loc = 0, rg_len = to_size (- 1)\<rparr>"

definition rg_edge :: "range \<Rightarrow> int" where
  "rg_edge r = to_off (to_size (rg_loc r + int (rg_len r)))"

definition rg_expandToEdge :: "int \<Rightarrow> range \<Rightarrow> range" where
  "rg_expandToEdge edge r =
     (let edge = (if edge \<ge> rg_loc r then edge else rg_loc r)
      in r\<lparr>rg_len := to_size (edge - rg_loc r)\<rparr>)"

definition rg_shiftToLocation :: "int \<Rightarrow> range \<Rightarrow> range" where
  "rg_shiftToLocation location r = r\<lparr>rg_loc := location\<rparr>"

definition rg_shiftToEdge :: "int \<Rightarrow> range \<Rightarrow> range" where
  "rg_shiftToEdge edge r = r\<lparr>rg_loc := to_off (to_size (edge - int (rg_len r)))\<rparr>"

text \<open>The upper bound compares an \<open>offset_t\<close> with a \<open>size_t\<close>, so in \<open>size_t\<close>.\<close>

definition rg_contains :: "range \<Rightarrow> int \<Rightarrow> bool" where
  "rg_contains r location \<longleftrightarrow>
     location \<ge> rg_loc r \<and> to_size location < to_size (rg_loc r + int (rg_len r))"

definition rg_contains_range :: "range \<Rightarrow> range \<Rightarrow> bool" where
  "rg_contains_range r other \<longleftrightarrow> rg_loc other \<ge> rg_loc r \<and> rg_edge other \<le> rg_edge r"

definition rg_less :: "range \<Rightarrow> range \<Rightarrow> bool" where
  "rg_less r other \<longleftrightarrow> rg_loc r < rg_loc other"

definition restrictedRange :: "int \<Rightarrow> nat \<Rightarrow> range \<Rightarrow> range" where
  "restrictedRange base maxLength restrictor =
     (let len = min maxLength (rg_len restrictor);
          result = \<lparr>rg_loc = base - to_off (len div 2), rg_len = len\<rparr>
      in if rg_loc result < rg_loc restrictor
         then rg_shiftToLocation (rg_loc restrictor) result
         else if rg_edge result > rg_edge restrictor
         then rg_shiftToEdge (rg_edge restrictor) result
         else result)"

section \<open>Ranges as sets of locations\<close>

definition rg_sane :: "range \<Rightarrow> bool" where
  "rg_sane r \<longleftrightarrow> 0 \<le> rg_loc r \<and> rg_loc r + int (rg_len r) \<le> 4611686018427387904"

definition rg_set :: "range \<Rightarrow> int set" where
  "rg_set r = {rg_loc r ..< rg_loc r + int (rg_len r)}"

lemma rg_edge_sane: "rg_sane r \<Longrightarrow> rg_edge r = rg_loc r + int (rg_len r)"
  by (simp add: rg_sane_def rg_edge_def to_off_to_size)

lemma rg_contains_sane: "rg_sane r \<Longrightarrow> 0 \<le> x \<Longrightarrow> x < 9223372036854775808 \<Longrightarrow> rg_contains r x \<longleftrightarrow> x \<in> rg_set r"
  by (auto simp: rg_sane_def rg_contains_def rg_set_def to_size_nonneg size_max_def)

lemma rg_contains_range_sane:
  "rg_sane r \<Longrightarrow> rg_sane s \<Longrightarrow> rg_len s > 0 \<Longrightarrow> rg_contains_range r s \<longleftrightarrow> rg_set s \<subseteq> rg_set r"
  by (auto simp: rg_contains_range_def rg_edge_sane rg_set_def)

lemma rg_set_empty: "rg_set r = {} \<longleftrightarrow> rg_len r = 0"
  by (auto simp: rg_set_def)

lemma rg_sane_subset: "rg_sane r \<Longrightarrow> rg_loc r \<le> rg_loc s \<Longrightarrow>
    rg_loc s + int (rg_len s) \<le> rg_loc r + int (rg_len r) \<Longrightarrow> rg_sane s"
  by (auto simp: rg_sane_def)

lemma restrictedRange_cases:
  assumes "rg_sane r" "x \<in> rg_set r" "maxLength > 0"
  shows "rg_len (restrictedRange x maxLength r) = min maxLength (rg_len r)"
    and "rg_loc r \<le> rg_loc (restrictedRange x maxLength r)"
    and "rg_loc (restrictedRange x maxLength r) + int (min maxLength (rg_len r)) \<le> rg_loc r + int (rg_len r)"
    and "rg_loc (restrictedRange x maxLength r) \<le> x"
    and "x < rg_loc (restrictedRange x maxLength r) + int (min maxLength (rg_len r))"
proof -
  let ?n = "min maxLength (rg_len r)" and ?res = "restrictedRange x maxLength r"
  let ?first = "\<lparr>rg_loc = x - int (?n div 2), rg_len = ?n\<rparr>"
  have x: "rg_loc r \<le> x" "x < rg_loc r + int (rg_len r)" using assms(2) by (auto simp: rg_set_def)
  have n: "0 < ?n" "?n \<le> rg_len r" "?n div 2 < ?n" using x assms(3) by auto
  have bound: "0 \<le> rg_loc r" "rg_loc r + int (rg_len r) \<le> 4611686018427387904"
    using assms(1) by (auto simp: rg_sane_def)
  have half: "to_off (?n div 2) = int (?n div 2)" using n bound by (intro to_off_small) linarith
  have edge: "rg_edge ?first = x - int (?n div 2) + int ?n" if "rg_loc r \<le> x - int (?n div 2)"
    using that n bound x unfolding rg_edge_def by (subst to_off_to_size) auto
  have shift: "to_off (to_size (rg_loc r + int (rg_len r) - int ?n)) = rg_loc r + int (rg_len r) - int ?n"
    using n bound by (intro to_off_to_size) linarith+
  have res: "?res = (if x - int (?n div 2) < rg_loc r then \<lparr>rg_loc = rg_loc r, rg_len = ?n\<rparr>
     else if x - int (?n div 2) + int ?n > rg_loc r + int (rg_len r)
     then \<lparr>rg_loc = rg_loc r + int (rg_len r) - int ?n, rg_len = ?n\<rparr> else ?first)"
    using edge by (simp add: restrictedRange_def half rg_shiftToLocation_def rg_shiftToEdge_def
        rg_edge_sane [OF assms(1)] shift Let_def)
  show "rg_len ?res = ?n" by (simp add: res)
  show "rg_loc r \<le> rg_loc ?res" "rg_loc ?res + int ?n \<le> rg_loc r + int (rg_len r)"
    "rg_loc ?res \<le> x" "x < rg_loc ?res + int ?n"
    unfolding res using n x by (simp_all split: if_split) linarith+
qed

text \<open>
  C33: \<open>restrictedRange\<close> gives a range around the base that has the wished length, or the
  whole restrictor if that is shorter, contains the base and stays in the restrictor.
\<close>

theorem restrictedRange_spec:
  assumes "rg_sane r" "rg_contains r x" "maxLength > 0" "0 \<le> x" "x < 9223372036854775808"
  shows "rg_len (restrictedRange x maxLength r) = min maxLength (rg_len r) \<and>
    rg_contains (restrictedRange x maxLength r) x \<and>
    rg_contains_range r (restrictedRange x maxLength r)"
proof -
  have "x \<in> rg_set r" using assms rg_contains_sane by simp
  note props = restrictedRange_cases [OF assms(1) this assms(3)]
  then have "rg_sane (restrictedRange x maxLength r)" by (intro rg_sane_subset [OF assms(1)]) simp_all
  then show ?thesis using props assms
    by (simp add: rg_contains_sane rg_contains_range_def rg_edge_sane) (simp add: rg_set_def)
qed

theorem restrictedRange_spec_witness:
  "restrictedRange 9 4 \<lparr>rg_loc = 3, rg_len = 8\<rparr> = \<lparr>rg_loc = 7, rg_len = 4\<rparr> \<and>
   rg_contains (restrictedRange 9 4 \<lparr>rg_loc = 3, rg_len = 8\<rparr>) 9"
  using restrictedRange_spec [of "\<lparr>rg_loc = 3, rg_len = 8\<rparr>" 9 4]
  by (simp add: rg_sane_def rg_contains_def to_size_def size_max_def restrictedRange_def rg_edge_def to_off_def
      rg_shiftToEdge_def)

end
