(* ===== verification/WCDB_LRUCache.thy ===== *)
theory WCDB_LRUCache
  imports WCDB_Prelude
begin

text \<open>
  The cache template \<open>LRUCache<Key, Value>\<close> of \<open>src/src/common/base/LRUCache.hpp\<close>.

  \<open>m_list\<close> is a \<open>std::list\<close> with the most recent entry first.  Its nodes have an identity,
  because \<open>m_map\<close> holds iterators to them: the model numbers the nodes and \<open>lru_map\<close> maps a
  key to the number of its node.  \<open>m_map\<close> is a \<open>std::map\<close>, an association list in the order
  of the keys; \<open>ord\<close> is the order of the key type, and two keys with the same \<open>ord\<close> are the
  same key to the map.  The virtual functions \<open>shouldPurge\<close> and \<open>willPurge\<close> of a subclass
  are arguments, and \<open>lru_sub\<close> is the state of the subclass.
\<close>

section \<open>The ordered map\<close>

fun smap_find :: "('k \<Rightarrow> int) \<Rightarrow> 'k \<Rightarrow> ('k \<times> nat) list \<Rightarrow> nat option" where
  "smap_find ord k [] = None"
| "smap_find ord k ((k', i) # m) = (if ord k' = ord k then Some i else smap_find ord k m)"

fun smap_erase :: "('k \<Rightarrow> int) \<Rightarrow> 'k \<Rightarrow> ('k \<times> nat) list \<Rightarrow> ('k \<times> nat) list" where
  "smap_erase ord k [] = []"
| "smap_erase ord k ((k', i) # m) = (if ord k' = ord k then m else (k', i) # smap_erase ord k m)"

text \<open>\<open>m_map[key] = node\<close>: an equivalent key stays and gets the new node.\<close>

fun smap_put :: "('k \<Rightarrow> int) \<Rightarrow> 'k \<Rightarrow> nat \<Rightarrow> ('k \<times> nat) list \<Rightarrow> ('k \<times> nat) list" where
  "smap_put ord k n [] = [(k, n)]"
| "smap_put ord k n ((k', i) # m) =
     (if ord k < ord k' then (k, n) # (k', i) # m
      else if ord k' = ord k then (k', n) # m
      else (k', i) # smap_put ord k n m)"

section \<open>The cache\<close>

record ('k, 'v, 'x) lru =
  lru_list :: "(nat \<times> 'k \<times> 'v) list"
  lru_map :: "('k \<times> nat) list"
  lru_next :: nat
  lru_sub :: 'x

definition lru_init :: "'x \<Rightarrow> ('k, 'v, 'x) lru" where
  "lru_init x = \<lparr>lru_list = [], lru_map = [], lru_next = 0, lru_sub = x\<rparr>"

definition lru_erase_node :: "nat \<Rightarrow> (nat \<times> 'k \<times> 'v) list \<Rightarrow> (nat \<times> 'k \<times> 'v) list" where
  "lru_erase_node i xs = filter (\<lambda>(j, _). j \<noteq> i) xs"

primrec lru_purge ::
  "('k \<Rightarrow> int) \<Rightarrow> ('k \<Rightarrow> 'v \<Rightarrow> 'x \<Rightarrow> 'x) \<Rightarrow> nat \<Rightarrow> ('k, 'v, 'x) lru \<Rightarrow> ('k, 'v, 'x) lru" where
  "lru_purge ord willPurge 0 c = c"
| "lru_purge ord willPurge (Suc n) c =
     (if lru_list c = [] then c
      else let (i, k, v) = last (lru_list c)
           in lru_purge ord willPurge n
                (c\<lparr>lru_sub := willPurge k v (lru_sub c),
                   lru_map := smap_erase ord k (lru_map c),
                   lru_list := butlast (lru_list c)\<rparr>))"

text \<open>\<open>put\<close> up to the purge: the new node in front, the old node of the key erased.\<close>

definition lru_front :: "('k \<Rightarrow> int) \<Rightarrow> 'k \<Rightarrow> 'v \<Rightarrow> ('k, 'v, 'x) lru \<Rightarrow> ('k, 'v, 'x) lru" where
  "lru_front ord key value c =
     (let it = smap_find ord key (lru_map c);
          n = lru_next c;
          c = c\<lparr>lru_list := (n, key, value) # lru_list c, lru_next := Suc n\<rparr>;
          c = (case it of
                 None \<Rightarrow> c
               | Some i \<Rightarrow> c\<lparr>lru_list := lru_erase_node i (lru_list c),
                              lru_map := smap_erase ord key (lru_map c)\<rparr>)
      in c\<lparr>lru_map := smap_put ord key n (lru_map c)\<rparr>)"

definition lru_put ::
  "('k \<Rightarrow> int) \<Rightarrow> ('x \<Rightarrow> bool) \<Rightarrow> ('k \<Rightarrow> 'v \<Rightarrow> 'x \<Rightarrow> 'x) \<Rightarrow> 'k \<Rightarrow> 'v \<Rightarrow> ('k, 'v, 'x) lru \<Rightarrow> ('k, 'v, 'x) lru" where
  "lru_put ord shouldPurge willPurge key value c =
     (let c = lru_front ord key value c
      in if shouldPurge (lru_sub c) then lru_purge ord willPurge 1 c else c)"

text \<open>\<open>retain\<close>: splice the node to the front.  A dangling iterator is \<open>None\<close>.\<close>

definition lru_retain :: "nat \<Rightarrow> ('k, 'v, 'x) lru \<Rightarrow> ('v \<times> ('k, 'v, 'x) lru) option" where
  "lru_retain i c = do {
     (j, k, v) \<leftarrow> find (\<lambda>(j, _). j = i) (lru_list c);
     Some (v, c\<lparr>lru_list := (j, k, v) # lru_erase_node i (lru_list c)\<rparr>)
   }"

definition lru_get :: "('k \<Rightarrow> int) \<Rightarrow> 'k \<Rightarrow> ('k, 'v, 'x) lru \<Rightarrow> ('v \<times> ('k, 'v, 'x) lru) option" where
  "lru_get ord key c = do {
     i \<leftarrow> smap_find ord key (lru_map c);
     lru_retain i c
   }"

definition lru_exists :: "('k \<Rightarrow> int) \<Rightarrow> 'k \<Rightarrow> ('k, 'v, 'x) lru \<Rightarrow> bool" where
  "lru_exists ord key c \<longleftrightarrow> smap_find ord key (lru_map c) \<noteq> None"

definition lru_size :: "('k, 'v, 'x) lru \<Rightarrow> nat" where
  "lru_size c = length (lru_map c)"

definition lru_empty :: "('k, 'v, 'x) lru \<Rightarrow> bool" where
  "lru_empty c \<longleftrightarrow> lru_map c = []"

section \<open>The invariant and the abstract cache\<close>

text \<open>
  The iterators in the map are exactly the nodes of the list, and the map is sorted.
  The abstract cache is the list of the entries, the most recent one first.
\<close>

definition lru_inv :: "('k \<Rightarrow> int) \<Rightarrow> ('k, 'v, 'x) lru \<Rightarrow> bool" where
  "lru_inv ord c \<longleftrightarrow>
     distinct (map fst (lru_list c)) \<and> (\<forall>e \<in> set (lru_list c). fst e < lru_next c) \<and>
     sorted_wrt (<) (map (ord \<circ> fst) (lru_map c)) \<and>
     set (lru_map c) = (\<lambda>(i, k, v). (k, i)) ` set (lru_list c)"

definition lru_abs :: "('k, 'v, 'x) lru \<Rightarrow> ('k \<times> 'v) list" where
  "lru_abs c = map snd (lru_list c)"

definition other_key :: "('k \<Rightarrow> int) \<Rightarrow> 'k \<Rightarrow> 'k \<times> 'v \<Rightarrow> bool" where
  "other_key ord k e \<longleftrightarrow> ord (fst e) \<noteq> ord k"

lemma lru_init_inv [simp]: "lru_inv ord (lru_init x)"
  by (simp add: lru_inv_def lru_init_def)

lemma smap_find_Some:
  "sorted_wrt (<) (map (ord \<circ> fst) m) \<Longrightarrow>
   smap_find ord k m = Some i \<longleftrightarrow> (\<exists>k'. (k', i) \<in> set m \<and> ord k' = ord k)"
  by (induction ord k m rule: smap_find.induct) force+

lemma smap_find_None: "smap_find ord k m = None \<longleftrightarrow> (\<forall>e \<in> set m. ord (fst e) \<noteq> ord k)"
  by (induction ord k m rule: smap_find.induct) auto

lemma smap_erase_filter:
  "sorted_wrt (<) (map (ord \<circ> fst) m) \<Longrightarrow> smap_erase ord k m = filter (\<lambda>e. ord (fst e) \<noteq> ord k) m"
proof (induction ord k m rule: smap_erase.induct)
  case (2 ord k k' i m)
  then have "filter (\<lambda>e. ord (fst e) \<noteq> ord k) m = m" if "ord k' = ord k"
    using that by (intro filter_True) force
  with 2 show ?case by auto
qed simp

lemma smap_put_set:
  "\<forall>e \<in> set m. ord (fst e) \<noteq> ord k \<Longrightarrow> set (smap_put ord k n m) = insert (k, n) (set m)"
  by (induction ord k n m rule: smap_put.induct) auto

lemma smap_put_sorted:
  "sorted_wrt (<) (map (ord \<circ> fst) m) \<Longrightarrow> \<forall>e \<in> set m. ord (fst e) \<noteq> ord k \<Longrightarrow>
   sorted_wrt (<) (map (ord \<circ> fst) (smap_put ord k n m))"
  by (induction ord k n m rule: smap_put.induct) (auto simp: smap_put_set)

lemma sorted_filter_map:
  "sorted_wrt P (map f m) \<Longrightarrow> sorted_wrt P (map f (filter Q m))"
  by (induction m) auto

lemma lru_inv_sorted: "lru_inv ord c \<Longrightarrow> sorted_wrt (<) (map (ord \<circ> fst) (lru_map c))"
  by (simp add: lru_inv_def)

lemma lru_map_iff: "lru_inv ord c \<Longrightarrow> (k, i) \<in> set (lru_map c) \<longleftrightarrow> (\<exists>v. (i, k, v) \<in> set (lru_list c))"
  by (auto simp: lru_inv_def intro: rev_image_eqI)

lemma lru_inv_same_node:
  assumes "lru_inv ord c" "(i, k, v) \<in> set (lru_list c)" "(i', k', v') \<in> set (lru_list c)" "ord k = ord k'"
  shows "i = i' \<and> k = k' \<and> v = v'"
proof -
  have "(k, i) \<in> set (lru_map c)" "(k', i') \<in> set (lru_map c)"
    using assms(2,3) by (auto simp: lru_map_iff [OF assms(1)])
  then have "smap_find ord k (lru_map c) = Some i" "smap_find ord k (lru_map c) = Some i'"
    using assms(4) by (auto simp: smap_find_Some [OF lru_inv_sorted [OF assms(1)]])
  then have "i = i'" by simp
  then show ?thesis
    using assms eq_key_imp_eq_value [of "lru_list c" i "(k, v)" "(k', v')"] by (simp add: lru_inv_def)
qed

lemma lru_erase_node_key:
  assumes "lru_inv ord c" "(i, k, v) \<in> set (lru_list c)"
  shows "lru_erase_node i (lru_list c) = filter (\<lambda>e. ord (fst (snd e)) \<noteq> ord k) (lru_list c)"
  unfolding lru_erase_node_def
proof (rule filter_cong [OF refl])
  fix e assume e: "e \<in> set (lru_list c)"
  obtain j k' v' where eq: "e = (j, k', v')" by (cases e)
  have "j = i \<longleftrightarrow> ord k' = ord k"
  proof
    assume "j = i"
    with assms e eq have "(k', v') = (k, v)"
      by (intro eq_key_imp_eq_value [of "lru_list c" i]) (auto simp: lru_inv_def)
    then show "ord k' = ord k" by simp
  next
    assume "ord k' = ord k"
    then show "j = i" using lru_inv_same_node [OF assms(1), of j k' v' i k v] assms(2) e eq by simp
  qed
  with eq show "(case e of (j, _) \<Rightarrow> j \<noteq> i) = (ord (fst (snd e)) \<noteq> ord k)" by simp
qed

lemma lru_find_Some:
  assumes "lru_inv ord c"
  shows "smap_find ord k (lru_map c) = Some i \<longleftrightarrow> (\<exists>k' v. (i, k', v) \<in> set (lru_list c) \<and> ord k' = ord k)"
  unfolding smap_find_Some [OF lru_inv_sorted [OF assms]] lru_map_iff [OF assms] by blast

lemma lru_find_None:
  assumes "lru_inv ord c"
  shows "smap_find ord k (lru_map c) = None \<longleftrightarrow> (\<forall>e \<in> set (lru_list c). ord (fst (snd e)) \<noteq> ord k)"
  unfolding smap_find_None using lru_map_iff [OF assms] by (metis fst_conv prod.exhaust snd_conv)

lemma lru_exists_abs:
  "lru_inv ord c \<Longrightarrow> lru_exists ord k c \<longleftrightarrow> (\<exists>e \<in> set (lru_abs c). ord (fst e) = ord k)"
  by (auto simp: lru_exists_def lru_find_None lru_abs_def simp del: not_None_eq)

text \<open>\<open>lru_front\<close> in one line: the entries of the other keys behind the new entry.\<close>

lemma lru_front_lists:
  assumes "lru_inv ord c"
  shows "lru_list (lru_front ord k v c) = (lru_next c, k, v) # filter (\<lambda>e. ord (fst (snd e)) \<noteq> ord k) (lru_list c)"
    and "lru_map (lru_front ord k v c) = smap_put ord k (lru_next c) (filter (\<lambda>e. ord (fst e) \<noteq> ord k) (lru_map c))"
    and "lru_next (lru_front ord k v c) = Suc (lru_next c)" "lru_sub (lru_front ord k v c) = lru_sub c"
proof -
  let ?c = "lru_front ord k v c"
  have sorted: "sorted_wrt (<) (map (ord \<circ> fst) (lru_map c))" using assms by (simp add: lru_inv_def)
  have "lru_list ?c = (lru_next c, k, v) # filter (\<lambda>e. ord (fst (snd e)) \<noteq> ord k) (lru_list c) \<and>
    lru_map ?c = smap_put ord k (lru_next c) (filter (\<lambda>e. ord (fst e) \<noteq> ord k) (lru_map c)) \<and>
    lru_next ?c = Suc (lru_next c) \<and> lru_sub ?c = lru_sub c"
  proof (cases "smap_find ord k (lru_map c)")
    case None
    then have "filter (\<lambda>e. ord (fst (snd e)) \<noteq> ord k) (lru_list c) = lru_list c"
      "filter (\<lambda>e. ord (fst e) \<noteq> ord k) (lru_map c) = lru_map c"
      using lru_find_None [OF assms, of k] by (auto simp: smap_find_None)
    with None show ?thesis by (simp add: lru_front_def Let_def)
  next
    case (Some i)
    then obtain k' v' where node: "(i, k', v') \<in> set (lru_list c)" "ord k' = ord k"
      by (auto simp: lru_find_Some [OF assms])
    then have "i \<noteq> lru_next c" using assms by (auto simp: lru_inv_def)
    then show ?thesis using Some lru_erase_node_key [OF assms node(1)] node(2)
      by (simp add: lru_front_def Let_def smap_erase_filter [OF sorted]) (simp add: lru_erase_node_def)
  qed
  then show "lru_list ?c = (lru_next c, k, v) # filter (\<lambda>e. ord (fst (snd e)) \<noteq> ord k) (lru_list c)"
    "lru_map ?c = smap_put ord k (lru_next c) (filter (\<lambda>e. ord (fst e) \<noteq> ord k) (lru_map c))"
    "lru_next ?c = Suc (lru_next c)" "lru_sub ?c = lru_sub c" by auto
qed

lemma lru_inv_filter:
  assumes "lru_inv ord c"
  shows "set (filter (\<lambda>e. P (fst e)) (lru_map c)) = (\<lambda>(i, k, v). (k, i)) ` set (filter (\<lambda>e. P (fst (snd e))) (lru_list c))"
  using lru_map_iff [OF assms] by (force simp: image_iff)

lemma lru_front_inv:
  assumes "lru_inv ord c"
  shows "lru_inv ord (lru_front ord k v c)"
proof -
  let ?xs = "filter (\<lambda>e. ord (fst (snd e)) \<noteq> ord k) (lru_list c)"
  let ?m = "filter (\<lambda>e. ord (fst e) \<noteq> ord k) (lru_map c)"
  have new: "\<forall>e \<in> set (lru_list c). fst e < lru_next c" using assms by (simp add: lru_inv_def)
  have "distinct (map fst ?xs)" using assms by (simp add: lru_inv_def distinct_map_filter)
  then have "distinct (map fst ((lru_next c, k, v) # ?xs))" using new by fastforce
  moreover have "\<forall>e \<in> set ((lru_next c, k, v) # ?xs). fst e < Suc (lru_next c)"
    using new by (auto simp: less_Suc_eq)
  moreover have m: "sorted_wrt (<) (map (ord \<circ> fst) ?m)" "\<forall>e \<in> set ?m. ord (fst e) \<noteq> ord k"
    using assms by (simp_all add: lru_inv_def sorted_filter_map)
  then have "sorted_wrt (<) (map (ord \<circ> fst) (smap_put ord k (lru_next c) ?m))" by (rule smap_put_sorted)
  moreover have "set (smap_put ord k (lru_next c) ?m) = (\<lambda>(i, k, v). (k, i)) ` set ((lru_next c, k, v) # ?xs)"
    unfolding smap_put_set [OF m(2)] lru_inv_filter [OF assms, of "\<lambda>k'. ord k' \<noteq> ord k"] by simp
  ultimately show ?thesis unfolding lru_inv_def lru_front_lists [OF assms] by blast
qed

lemma lru_front_abs: "lru_inv ord c \<Longrightarrow> lru_abs (lru_front ord k v c) = (k, v) # filter (other_key ord k) (lru_abs c)"
  by (simp add: lru_front_lists lru_abs_def filter_map other_key_def [abs_def] comp_def)

lemma lru_purge_step_inv:
  assumes "lru_inv ord c" "lru_list c = xs @ [(i, k, v)]"
  shows "lru_inv ord (c\<lparr>lru_sub := x, lru_map := smap_erase ord k (lru_map c), lru_list := xs\<rparr>)"
proof -
  have node: "(i, k, v) \<in> set (lru_list c)" by (simp add: assms(2))
  have "i \<notin> set (map fst xs)" using assms by (simp add: lru_inv_def)
  then have "lru_erase_node i (lru_list c) = xs"
    by (auto simp: lru_erase_node_def assms(2) filter_id_conv image_iff)
  then have xs: "filter (\<lambda>e. ord (fst (snd e)) \<noteq> ord k) (lru_list c) = xs"
    using lru_erase_node_key [OF assms(1) node] by simp
  have "set (filter (\<lambda>e. ord (fst e) \<noteq> ord k) (lru_map c)) = (\<lambda>(i, k, v). (k, i)) ` set xs"
    using lru_inv_filter [OF assms(1), of "\<lambda>k'. ord k' \<noteq> ord k"] unfolding xs .
  then show ?thesis using assms(1) assms(2)
    by (simp add: lru_inv_def smap_erase_filter sorted_filter_map)
qed

lemma lru_purge_inv: "lru_inv ord c \<Longrightarrow> lru_inv ord (lru_purge ord will n c)"
proof (induction n arbitrary: c)
  case (Suc n)
  show ?case
  proof (cases "lru_list c" rule: rev_cases)
    case Nil
    with Suc.prems show ?thesis by simp
  next
    case (snoc xs e)
    obtain i k v where "e = (i, k, v)" by (cases e)
    with snoc Suc.IH [OF lru_purge_step_inv [OF Suc.prems, of xs i k v]] show ?thesis by simp
  qed
qed simp

lemma lru_purge_abs: "lru_abs (lru_purge ord will n c) = take (length (lru_abs c) - n) (lru_abs c)"
proof (induction n arbitrary: c)
  case (Suc n)
  show ?case
  proof (cases "lru_list c" rule: rev_cases)
    case Nil
    then show ?thesis by (simp add: lru_abs_def)
  next
    case (snoc xs e)
    with Suc.IH show ?thesis by (cases e) (simp add: lru_abs_def take_butlast)
  qed
qed simp

lemma lru_put_inv: "lru_inv ord c \<Longrightarrow> lru_inv ord (lru_put ord should will k v c)"
  by (simp add: lru_put_def lru_front_inv lru_purge_inv Let_def del: lru_purge.simps One_nat_def)

lemma find_node: "distinct (map fst xs) \<Longrightarrow> (i, y) \<in> set xs \<Longrightarrow> find (\<lambda>(j, _). j = i) xs = Some (i, y)"
  by (induction xs) force+

lemma lru_retain_node:
  assumes "lru_inv ord c" "(i, k, v) \<in> set (lru_list c)"
  obtains c' where "lru_retain i c = Some (v, c')" "lru_inv ord c'"
    "lru_abs c' = (k, v) # filter (other_key ord k) (lru_abs c)" "lru_map c' = lru_map c" "lru_sub c' = lru_sub c"
proof -
  let ?c = "c\<lparr>lru_list := (i, k, v) # lru_erase_node i (lru_list c)\<rparr>"
  have nodes: "distinct (map fst (lru_list c))" using assms(1) by (simp add: lru_inv_def)
  then have "find (\<lambda>(j, _). j = i) (lru_list c) = Some (i, k, v)"
    using assms(2) by (rule find_node)
  then have "lru_retain i c = Some (v, ?c)" by (simp add: lru_retain_def)
  moreover have only: "e = (i, k, v)" if "e \<in> set (lru_list c)" "fst e = i" for e
    using that eq_key_imp_eq_value [OF nodes assms(2), of "snd e"] by (metis prod.collapse)
  have "set (lru_erase_node i (lru_list c)) = set (lru_list c) - {(i, k, v)}"
    unfolding lru_erase_node_def case_prod_beta by (auto dest: only)
  then have "set (lru_list ?c) = set (lru_list c)" using assms(2) by auto
  moreover have "distinct (map fst (lru_list ?c))"
    using assms by (auto simp: lru_inv_def lru_erase_node_def distinct_map_filter)
  moreover have "lru_abs ?c = (k, v) # filter (other_key ord k) (lru_abs c)"
    by (simp add: lru_abs_def lru_erase_node_key [OF assms] filter_map other_key_def [abs_def] comp_def)
  ultimately show ?thesis using assms(1) by (intro that [of ?c]) (simp_all add: lru_inv_def del: set_simps)
qed

lemma lru_get_abs:
  assumes "lru_inv ord c" "lru_exists ord k c"
  obtains v k' c' where "lru_get ord k c = Some (v, c')" "lru_inv ord c'" "(k', v) \<in> set (lru_abs c)" "ord k' = ord k"
    "lru_abs c' = (k', v) # filter (other_key ord k) (lru_abs c)" "lru_map c' = lru_map c" "lru_sub c' = lru_sub c"
proof -
  obtain i where i: "smap_find ord k (lru_map c) = Some i" using assms(2) by (auto simp: lru_exists_def)
  then obtain k' v where node: "(i, k', v) \<in> set (lru_list c)" "ord k' = ord k"
    by (auto simp: lru_find_Some [OF assms(1)])
  have "other_key ord k = other_key ord k'" using node(2) by (simp add: other_key_def fun_eq_iff)
  moreover have "(k', v) \<in> set (lru_abs c)" using node(1) by (force simp: lru_abs_def)
  ultimately show ?thesis using lru_retain_node [OF assms(1) node(1)] i node(2)
    by (metis (no_types, lifting) lru_get_def bind.bind_lunit that)
qed

section \<open>Caches that account for their memory\<close>

text \<open>
  Both subclasses of the template keep a sum of the sizes of the cached values:
  \<open>insert\<close> adds the size before \<open>put\<close>, \<open>willPurge\<close> subtracts it, and \<open>shouldPurge\<close> compares
  it with a limit.
\<close>

definition lru_insert ::
  "('k \<Rightarrow> int) \<Rightarrow> ('x \<Rightarrow> bool) \<Rightarrow> ('k \<Rightarrow> 'v \<Rightarrow> 'x \<Rightarrow> 'x) \<Rightarrow> ('v \<Rightarrow> 'x \<Rightarrow> 'x) \<Rightarrow> 'k \<Rightarrow> 'v \<Rightarrow>
   ('k, 'v, 'x) lru \<Rightarrow> ('k, 'v, 'x) lru" where
  "lru_insert ord shouldPurge willPurge charge key value c =
     lru_put ord shouldPurge willPurge key value (c\<lparr>lru_sub := charge value (lru_sub c)\<rparr>)"

definition lru_accounted ::
  "('k \<Rightarrow> int) \<Rightarrow> ('v \<Rightarrow> nat) \<Rightarrow> ('x \<Rightarrow> nat) \<Rightarrow> ('k, 'v, 'x) lru \<Rightarrow> bool" where
  "lru_accounted ord weight used c \<longleftrightarrow>
     lru_inv ord c \<and> used (lru_sub c) = sum_list (map (weight \<circ> snd) (lru_abs c)) \<and> int (used (lru_sub c)) < size_max"

locale lru_policy =
  fixes ord :: "'k \<Rightarrow> int"
    and shouldPurge :: "'x \<Rightarrow> bool"
    and willPurge :: "'k \<Rightarrow> 'v \<Rightarrow> 'x \<Rightarrow> 'x"
    and charge :: "'v \<Rightarrow> 'x \<Rightarrow> 'x"
    and weight :: "'v \<Rightarrow> nat"
    and used :: "'x \<Rightarrow> nat"
    and limit :: "'x \<Rightarrow> nat"
  assumes shouldPurge_iff: "shouldPurge x \<longleftrightarrow> limit x < used x"
    and used_willPurge: "weight v \<le> used x \<Longrightarrow> int (used x) < size_max \<Longrightarrow> used (willPurge k v x) = used x - weight v"
    and limit_willPurge: "limit (willPurge k v x) = limit x"
    and used_charge: "int (used x) + int (weight v) < size_max \<Longrightarrow> used (charge v x) = used x + weight v"
    and limit_charge: "limit (charge v x) = limit x"
begin

lemma purge_accounted:
  "lru_accounted ord weight used c \<Longrightarrow> lru_accounted ord weight used (lru_purge ord willPurge n c) \<and>
     limit (lru_sub (lru_purge ord willPurge n c)) = limit (lru_sub c)"
proof (induction n arbitrary: c)
  case (Suc n)
  show ?case
  proof (cases "lru_list c" rule: rev_cases)
    case Nil
    with Suc.prems show ?thesis by simp
  next
    case (snoc xs e)
    obtain i k v where e: "e = (i, k, v)" by (cases e)
    let ?c = "c\<lparr>lru_sub := willPurge k v (lru_sub c), lru_map := smap_erase ord k (lru_map c), lru_list := xs\<rparr>"
    have "used (lru_sub c) = sum_list (map (weight \<circ> snd) (map snd xs)) + weight v"
      using Suc.prems snoc e by (simp add: lru_accounted_def lru_abs_def)
    moreover have "int (used (lru_sub c)) < size_max" using Suc.prems by (simp add: lru_accounted_def)
    ultimately have "lru_accounted ord weight used ?c"
      using Suc.prems snoc e lru_purge_step_inv [of ord c xs i k v]
      by (simp add: lru_accounted_def lru_abs_def used_willPurge)
    from Suc.IH [OF this] show ?thesis using snoc e by (simp add: limit_willPurge)
  qed
qed simp

lemma insert_front_accounted:
  assumes "lru_accounted ord weight used c" "\<not> lru_exists ord k c"
    "int (used (lru_sub c)) + int (weight v) < size_max"
  shows "lru_accounted ord weight used (lru_front ord k v (c\<lparr>lru_sub := charge v (lru_sub c)\<rparr>))"
    and "lru_abs (lru_front ord k v (c\<lparr>lru_sub := charge v (lru_sub c)\<rparr>)) = (k, v) # lru_abs c"
    and "used (lru_sub (lru_front ord k v (c\<lparr>lru_sub := charge v (lru_sub c)\<rparr>))) = used (lru_sub c) + weight v"
    and "limit (lru_sub (lru_front ord k v (c\<lparr>lru_sub := charge v (lru_sub c)\<rparr>))) = limit (lru_sub c)"
proof -
  let ?c = "c\<lparr>lru_sub := charge v (lru_sub c)\<rparr>"
  have inv: "lru_inv ord c" "lru_inv ord ?c" using assms(1) by (simp_all add: lru_accounted_def lru_inv_def)
  have abs: "lru_abs ?c = lru_abs c" by (simp add: lru_abs_def)
  have "filter (other_key ord k) (lru_abs c) = lru_abs c"
    using assms(2) lru_exists_abs [OF inv(1), of k] by (auto simp: other_key_def filter_id_conv)
  then show front: "lru_abs (lru_front ord k v ?c) = (k, v) # lru_abs c"
    by (simp add: lru_front_abs [OF inv(2)] abs)
  show sub: "used (lru_sub (lru_front ord k v ?c)) = used (lru_sub c) + weight v"
    by (simp add: lru_front_lists [OF inv(2)] used_charge [OF assms(3)])
  show "limit (lru_sub (lru_front ord k v ?c)) = limit (lru_sub c)"
    by (simp add: lru_front_lists [OF inv(2)] limit_charge)
  show "lru_accounted ord weight used (lru_front ord k v ?c)"
    using assms(1,3) lru_front_inv [OF inv(2)] front sub by (simp add: lru_accounted_def)
qed

text \<open>Inserting a new key keeps the account, and puts the entry in front; at most the oldest entry goes.\<close>

lemma insert_accounted:
  assumes "lru_accounted ord weight used c" "\<not> lru_exists ord k c"
    "int (used (lru_sub c)) + int (weight v) < size_max"
  shows "lru_accounted ord weight used (lru_insert ord shouldPurge willPurge charge k v c)"
    and "lru_abs (lru_insert ord shouldPurge willPurge charge k v c)
       = (if limit (lru_sub c) < used (lru_sub c) + weight v then butlast ((k, v) # lru_abs c) else (k, v) # lru_abs c)"
    and "limit (lru_sub (lru_insert ord shouldPurge willPurge charge k v c)) = limit (lru_sub c)"
  using insert_front_accounted [OF assms] purge_accounted [of "lru_front ord k v (c\<lparr>lru_sub := charge v (lru_sub c)\<rparr>)" 1]
  by (simp_all add: lru_insert_def lru_put_def Let_def shouldPurge_iff lru_purge_abs butlast_conv_take
      del: lru_purge.simps One_nat_def)

text \<open>With values of one size the limit is never exceeded.\<close>

lemma insert_within_limit:
  assumes "lru_accounted ord weight used c" "\<not> lru_exists ord k c"
    "\<forall>e \<in> set (lru_abs c). weight (snd e) = w" "weight v = w" "w \<le> limit (lru_sub c)"
    "used (lru_sub c) \<le> limit (lru_sub c)" "int (limit (lru_sub c)) + int w < size_max"
  shows "used (lru_sub (lru_insert ord shouldPurge willPurge charge k v c)) \<le> limit (lru_sub c)"
proof -
  let ?c = "lru_insert ord shouldPurge willPurge charge k v c"
  have room: "int (used (lru_sub c)) + int (weight v) < size_max" using assms(4,6,7) by linarith
  note ins = insert_accounted [OF assms(1,2) room]
  have sum: "used (lru_sub ?c) = sum_list (map (weight \<circ> snd) (lru_abs ?c))" using ins(1) by (simp add: lru_accounted_def)
  have old: "used (lru_sub c) = length (lru_abs c) * w"
  proof -
    have "map (weight \<circ> snd) (lru_abs c) = replicate (length (lru_abs c)) w"
      using assms(3) by (simp add: map_replicate_const [symmetric] cong: map_cong)
    then show ?thesis using assms(1) by (simp add: lru_accounted_def sum_list_replicate)
  qed
  show ?thesis
  proof (cases "limit (lru_sub c) < used (lru_sub c) + weight v")
    case True
    have "map (weight \<circ> snd) (butlast ((k, v) # lru_abs c)) = replicate (length (lru_abs c)) w"
      using assms(3,4) by (intro replicate_eqI) (auto split: if_splits dest!: in_set_butlastD)
    with True show ?thesis using sum ins(2) old assms(6) by (simp add: sum_list_replicate)
  next
    case False
    with sum ins(2) assms(1) show ?thesis by (simp add: lru_accounted_def)
  qed
qed

end

section \<open>Properties\<close>

text \<open>
  C22: \<open>put\<close> refines the abstract cache: the iterators stay consistent with the list, the new
  entry comes first, the old entry of the key is gone, the other entries keep their order,
  and when the subclass asks for a purge exactly the least recent entry is dropped.
\<close>

theorem lru_put_refines:
  assumes "lru_inv ord c"
  shows "lru_inv ord (lru_put ord shouldPurge willPurge k v c) \<and>
    lru_abs (lru_put ord shouldPurge willPurge k v c) =
      (let xs = (k, v) # filter (other_key ord k) (lru_abs c)
       in if shouldPurge (lru_sub c) then butlast xs else xs)"
proof
  show "lru_inv ord (lru_put ord shouldPurge willPurge k v c)" using assms by (rule lru_put_inv)
  show "lru_abs (lru_put ord shouldPurge willPurge k v c) =
      (let xs = (k, v) # filter (other_key ord k) (lru_abs c)
       in if shouldPurge (lru_sub c) then butlast xs else xs)"
    using assms by (simp add: lru_put_def Let_def lru_front_abs lru_front_lists lru_purge_abs butlast_conv_take
        del: lru_purge.simps One_nat_def)
qed

text \<open>
  C23: \<open>get\<close> on a key that exists returns the value stored for it and makes the entry the most
  recent one, without touching the map or any other entry.
\<close>

theorem lru_get_refines:
  assumes "lru_inv ord c" "lru_exists ord k c"
  shows "\<exists>v k' c'. lru_get ord k c = Some (v, c') \<and> lru_inv ord c' \<and> (k', v) \<in> set (lru_abs c) \<and>
    ord k' = ord k \<and> lru_abs c' = (k', v) # filter (other_key ord k) (lru_abs c) \<and> lru_map c' = lru_map c"
  using assms by (rule lru_get_abs) blast

definition lru_demo :: "(int, nat, nat) lru" where
  "lru_demo = lru_put id (\<lambda>_. False) (\<lambda>_ _ x. x) 2 20 (lru_put id (\<lambda>_. False) (\<lambda>_ _ x. x) 1 10 (lru_init 0))"

theorem lru_put_refines_witness:
  "lru_inv id lru_demo \<and> lru_abs (lru_put id (\<lambda>_. True) (\<lambda>_ _ x. x) 3 30 lru_demo) = [(3, 30), (2, 20)]"
proof -
  have inv: "lru_inv id lru_demo" by (simp add: lru_demo_def lru_put_inv)
  have "lru_abs lru_demo = [(2, 20), (1, 10)]" by code_simp
  then show ?thesis using inv lru_put_refines [OF inv, of "\<lambda>_. True" "\<lambda>_ _ x. x" 3 30]
    by (simp add: other_key_def)
qed

theorem lru_get_refines_witness:
  "lru_exists id 1 lru_demo \<and>
   (\<exists>v k' c'. lru_get id 1 lru_demo = Some (v, c') \<and> lru_inv id c' \<and> lru_abs c' = [(1, 10), (2, 20)])"
proof -
  have inv: "lru_inv id lru_demo" by (simp add: lru_demo_def lru_put_inv)
  have ex: "lru_exists id 1 lru_demo" by code_simp
  have abs: "lru_abs lru_demo = [(2, 20), (1, 10)]" by code_simp
  from lru_get_refines [OF inv ex] ex show ?thesis unfolding abs
    by (auto simp: other_key_def)
qed

end
