(* ===== verification/WCDB_PageFile.thy ===== *)
theory WCDB_PageFile
  imports WCDB_Range WCDB_LRUCache WCDB_FileHandle
begin

text \<open>
  \<open>src/src/common/repair/parse/PageBasedFileHandle.cpp\<close>: a file mapped in ranges of
  cache pages, with the least recently used mappings purged.

  The cache maps ranges of cache page numbers to mappings.  Its subclass state is the
  range of all the cache pages and the account of the mapped memory.  \<open>mapPage\<close> looks for a
  mapping that contains the page; without one it maps a range around the page inside of the
  gap between the cached ranges, and while that fails it halves the range or purges the cache.
\<close>

section \<open>The cache of mappings\<close>

record pbc_state =
  pbc_range :: range
  pbc_max :: nat
  pbc_used :: nat

type_synonym pbc = "(range, udata, pbc_state) lru"

definition pbc_init :: "nat \<Rightarrow> pbc" where
  "pbc_init maxAllowedMemory = lru_init \<lparr>pbc_range = rg_notFound, pbc_max = maxAllowedMemory, pbc_used = 0\<rparr>"

definition pbc_setRange :: "range \<Rightarrow> pbc \<Rightarrow> pbc" where
  "pbc_setRange r c = c\<lparr>lru_sub := (lru_sub c)\<lparr>pbc_range := r\<rparr>\<rparr>"

definition pbc_shouldPurge :: "pbc_state \<Rightarrow> bool" where
  "pbc_shouldPurge x \<longleftrightarrow> pbc_used x > pbc_max x"

definition pbc_willPurge :: "range \<Rightarrow> udata \<Rightarrow> pbc_state \<Rightarrow> pbc_state" where
  "pbc_willPurge r d x = x\<lparr>pbc_used := to_size (int (pbc_used x) - int (ud_size d))\<rparr>"

definition pbc_charge :: "udata \<Rightarrow> pbc_state \<Rightarrow> pbc_state" where
  "pbc_charge d x = x\<lparr>pbc_used := to_size (int (pbc_used x) + int (ud_size d))\<rparr>"

definition pbc_purge :: "nat \<Rightarrow> pbc \<Rightarrow> pbc" where
  "pbc_purge n c = lru_purge rg_loc pbc_willPurge n c"

definition pbc_insert :: "range \<Rightarrow> udata \<Rightarrow> pbc \<Rightarrow> pbc" where
  "pbc_insert r d c = lru_insert rg_loc pbc_shouldPurge pbc_willPurge pbc_charge r d c"

text \<open>\<open>findIterator\<close>: the first range that ends behind the location, and the ranges before it.\<close>

definition pbc_findIterator :: "int \<Rightarrow> pbc \<Rightarrow> (range \<times> nat) list \<times> (range \<times> nat) list" where
  "pbc_findIterator location c =
     (takeWhile (\<lambda>(r, _). \<not> location < rg_edge r) (lru_map c),
      dropWhile (\<lambda>(r, _). \<not> location < rg_edge r) (lru_map c))"

definition pbc_find :: "int \<Rightarrow> pbc \<Rightarrow> (range \<times> udata option \<times> pbc) option" where
  "pbc_find location c =
     (let m_range = pbc_range (lru_sub c);
          (previous, match) = pbc_findIterator location c
      in case match of
        (r, i) # _ \<Rightarrow>
          if rg_contains r location then do {
            (v, c) \<leftarrow> lru_retain i c;
            Some (r, Some v, c)
          } else
            let start = (if previous \<noteq> [] then rg_edge (fst (last previous)) else rg_loc m_range)
            in Some (rg_expandToEdge (rg_loc r) \<lparr>rg_loc = start, rg_len = 0\<rparr>, None, c)
      | [] \<Rightarrow>
          let start = (if lru_map c \<noteq> [] then rg_edge (fst (last (lru_map c))) else rg_loc m_range)
          in Some (rg_expandToEdge (rg_edge m_range) \<lparr>rg_loc = start, rg_len = 0\<rparr>, None, c))"

section \<open>The file handle\<close>

record pbf =
  pf_file :: fh
  pf_pageSize :: nat
  pf_cachePageSize :: nat
  pf_cache :: pbc

definition pf_init :: "fh \<Rightarrow> pbf" where
  "pf_init h = \<lparr>pf_file = h, pf_pageSize = 0, pf_cachePageSize = 0, pf_cache = pbc_init 16777216\<rparr>"

definition cachePagePerRange :: "pbf \<Rightarrow> nat" where
  "cachePagePerRange p = 1048576 div pf_cachePageSize p"

definition pf_setPageSize :: "nat \<Rightarrow> pbf \<Rightarrow> pbf" where
  "pf_setPageSize pageSize p =
     (let memory = sys_pagesize (fh_sys (pf_file p));
          alignment = pageSize mod memory;
          cachePageSize = (if alignment > 0 then to_size (int pageSize - int alignment + int memory) else pageSize);
          cachePageSize = max memory cachePageSize;
          (fileSize, h) = fh_size (pf_file p);
          fileSize = to_size fileSize;
          restrictCachePageno = fileSize div cachePageSize + (if fileSize mod cachePageSize > 0 then 1 else 0)
      in p\<lparr>pf_file := h, pf_pageSize := pageSize, pf_cachePageSize := cachePageSize,
           pf_cache := pbc_setRange \<lparr>rg_loc = 0, rg_len = restrictCachePageno\<rparr> (pf_cache p)\<rparr>)"

definition pf_purgeAll :: "pbf \<Rightarrow> pbf" where
  "pf_purgeAll p = p\<lparr>pf_cache := pbc_purge (lru_size (pf_cache p)) (pf_cache p)\<rparr>"

definition pf_purgeOne :: "pbf \<Rightarrow> bool \<times> pbf" where
  "pf_purgeOne p =
     (if lru_empty (pf_cache p) then (False, p) else (True, p\<lparr>pf_cache := pbc_purge 1 (pf_cache p)\<rparr>))"

text \<open>The loop of \<open>mapPage\<close>; a failed mapping is the empty object.\<close>

partial_function (option) mapPage_loop ::
  "int \<Rightarrow> int \<Rightarrow> nat \<Rightarrow> pbf \<Rightarrow> range \<Rightarrow> nat \<Rightarrow> (udata \<times> pbf) option" where
  "mapPage_loop offset cachePageno sizeWithinPage p gap maxLength =
     (let r = restrictedRange cachePageno maxLength gap;
          cuttable = rg_len r > 1;
          purgeable = \<not> lru_empty (pf_cache p);
          cps = pf_cachePageSize p
      in Option.bind
          (fh_map (to_off (to_size (rg_loc r * int cps))) (to_size (int (rg_len r) * int cps))
             ((pf_file p)\<lparr>fh_ignorable := cuttable \<or> purgeable\<rparr>))
          (\<lambda>(mappedData, h).
             let p = p\<lparr>pf_file := h\<lparr>fh_ignorable := False\<rparr>\<rparr>
             in if \<not> ud_empty mappedData
                then Some (ud_subdata mappedData (to_off (to_size (offset - rg_loc r * int cps))) sizeWithinPage,
                           p\<lparr>pf_cache := pbc_insert r mappedData (pf_cache p)\<rparr>)
                else if cuttable
                then mapPage_loop offset cachePageno sizeWithinPage p gap ((rg_len r + 1) div 2)
                else if purgeable
                then Option.bind (pbc_find cachePageno (pbc_purge 1 (pf_cache p)))
                  (\<lambda>(gap, _, cache).
                     mapPage_loop offset cachePageno sizeWithinPage (p\<lparr>pf_cache := cache\<rparr>) gap (cachePagePerRange p))
                else Some (ud_null, p)))"

definition mapPage_part :: "int \<Rightarrow> int \<Rightarrow> nat \<Rightarrow> pbf \<Rightarrow> (udata \<times> pbf) option" where
  "mapPage_part pageno offsetWithinPage sizeWithinPage p =
     (let cps = pf_cachePageSize p;
          offset = to_off (to_size ((pageno - 1) * int (pf_pageSize p) + offsetWithinPage));
          cachePageno = to_off (to_size offset div cps)
      in do {
        (gap, cachedData, cache) \<leftarrow> pbc_find cachePageno (pf_cache p);
        let p = p\<lparr>pf_cache := cache\<rparr>;
        case cachedData of
          Some d \<Rightarrow> Some (ud_subdata d (to_off (to_size (offset - rg_loc gap * int cps))) sizeWithinPage, p)
        | None \<Rightarrow> mapPage_loop offset cachePageno sizeWithinPage p gap (cachePagePerRange p)
      })"

definition mapPage :: "int \<Rightarrow> pbf \<Rightarrow> (udata \<times> pbf) option" where
  "mapPage pageno p = mapPage_part pageno 0 (pf_pageSize p) p"

section \<open>The account of the mapped memory\<close>

interpretation pbc: lru_policy rg_loc pbc_shouldPurge pbc_willPurge pbc_charge ud_size pbc_used pbc_max
  by unfold_locales (auto simp: pbc_shouldPurge_def pbc_willPurge_def pbc_charge_def to_size_nonneg)

section \<open>The cached ranges\<close>

text \<open>
  The cached ranges are disjoint parts of the file, and each mapping shows the bytes of its
  range.
\<close>

definition cached_ranges :: "pbc \<Rightarrow> range set" where
  "cached_ranges c = fst ` set (lru_map c)"

definition range_bytes :: "byte list \<Rightarrow> nat \<Rightarrow> range \<Rightarrow> byte list" where
  "range_bytes content cps r = take (rg_len r * cps) (drop (nat (rg_loc r) * cps) content)"

definition pbc_ok :: "byte list \<Rightarrow> nat \<Rightarrow> pbc \<Rightarrow> bool" where
  "pbc_ok content cps c \<longleftrightarrow>
     lru_inv rg_loc c \<and> rg_sane (pbc_range (lru_sub c)) \<and>
     (\<forall>r \<in> cached_ranges c. rg_sane r \<and> rg_len r > 0 \<and> rg_set r \<subseteq> rg_set (pbc_range (lru_sub c))) \<and>
     (\<forall>r \<in> cached_ranges c. \<forall>s \<in> cached_ranges c. r \<noteq> s \<longrightarrow> rg_set r \<inter> rg_set s = {}) \<and>
     (\<forall>(r, d) \<in> set (lru_abs c). view_ok d \<and> ud_bytes d = range_bytes content cps r)"

lemma cached_ranges_abs: "lru_inv rg_loc c \<Longrightarrow> cached_ranges c = fst ` set (lru_abs c)"
  by (simp add: cached_ranges_def lru_abs_def lru_inv_def image_image case_prod_beta)

lemma pbc_ok_disjoint:
  "pbc_ok content cps c \<Longrightarrow> r \<in> cached_ranges c \<Longrightarrow> s \<in> cached_ranges c \<Longrightarrow> r \<noteq> s \<Longrightarrow> rg_set r \<inter> rg_set s = {}"
  unfolding pbc_ok_def by blast

lemma pbc_ok_key:
  "pbc_ok content cps c \<Longrightarrow> r \<in> cached_ranges c \<Longrightarrow> rg_sane r \<and> rg_len r > 0 \<and> rg_set r \<subseteq> rg_set (pbc_range (lru_sub c))"
  unfolding pbc_ok_def by blast

lemma pbc_ok_entry:
  "pbc_ok content cps c \<Longrightarrow> (r, d) \<in> set (lru_abs c) \<Longrightarrow> view_ok d \<and> ud_bytes d = range_bytes content cps r"
  unfolding pbc_ok_def by blast

lemma pbc_okI:
  assumes "lru_inv rg_loc c" "rg_sane (pbc_range (lru_sub c))"
    "\<And>r. r \<in> cached_ranges c \<Longrightarrow> rg_sane r \<and> rg_len r > 0 \<and> rg_set r \<subseteq> rg_set (pbc_range (lru_sub c))"
    "\<And>r s. r \<in> cached_ranges c \<Longrightarrow> s \<in> cached_ranges c \<Longrightarrow> r \<noteq> s \<Longrightarrow> rg_set r \<inter> rg_set s = {}"
    "\<And>r d. (r, d) \<in> set (lru_abs c) \<Longrightarrow> view_ok d \<and> ud_bytes d = range_bytes content cps r"
  shows "pbc_ok content cps c"
  unfolding pbc_ok_def using assms by auto

lemma disjoint_order:
  assumes "rg_set r \<inter> rg_set s = {}" "rg_len r > 0" "rg_len s > 0" "rg_loc r < rg_loc s"
  shows "rg_loc r + int (rg_len r) \<le> rg_loc s"
proof (rule ccontr)
  assume "\<not> ?thesis"
  then have "rg_loc s \<in> rg_set r \<inter> rg_set s" using assms by (auto simp: rg_set_def)
  with assms(1) show False by simp
qed

lemma gap_range:
  assumes "0 \<le> a" "a \<le> x" "x < b" "b \<le> 4611686018427387904"
  shows "rg_loc (rg_expandToEdge b \<lparr>rg_loc = a, rg_len = 0\<rparr>) = a"
    "rg_set (rg_expandToEdge b \<lparr>rg_loc = a, rg_len = 0\<rparr>) = {a ..< b}"
    "rg_sane (rg_expandToEdge b \<lparr>rg_loc = a, rg_len = 0\<rparr>)"
  using assms by (auto simp: rg_expandToEdge_def rg_set_def rg_sane_def to_size_nonneg size_max_def)

text \<open>What \<open>find\<close> promises: the cached range of the location, or the gap around it.\<close>

definition is_gap :: "pbc \<Rightarrow> int \<Rightarrow> range \<Rightarrow> bool" where
  "is_gap c x g \<longleftrightarrow> rg_sane g \<and> x \<in> rg_set g \<and> rg_set g \<subseteq> rg_set (pbc_range (lru_sub c)) \<and>
     (\<forall>r \<in> cached_ranges c. rg_set g \<inter> rg_set r = {})"

lemma pbc_find_gap:
  assumes ok: "pbc_ok content cps c" and x: "x \<in> rg_set (pbc_range (lru_sub c))"
    and split: "lru_map c = prev @ match" "\<forall>e \<in> set prev. rg_edge (fst e) \<le> x" "\<forall>e \<in> set match. x < rg_loc (fst e)"
    and a: "a = (if prev \<noteq> [] then rg_edge (fst (last prev)) else rg_loc (pbc_range (lru_sub c)))"
    and b: "b = (if match \<noteq> [] then rg_loc (fst (hd match)) else rg_edge (pbc_range (lru_sub c)))"
  shows "is_gap c x (rg_expandToEdge b \<lparr>rg_loc = a, rg_len = 0\<rparr>)"
proof -
  let ?R = "pbc_range (lru_sub c)"
  have R: "rg_sane ?R" "rg_edge ?R = rg_loc ?R + int (rg_len ?R)" using ok by (auto simp: pbc_ok_def rg_edge_sane)
  have key: "rg_sane r \<and> rg_len r > 0 \<and> rg_set r \<subseteq> rg_set ?R \<and> rg_edge r = rg_loc r + int (rg_len r)"
    if "r \<in> cached_ranges c" for r using that ok by (auto simp: pbc_ok_def rg_edge_sane)
  have sorted: "sorted_wrt (<) (map (rg_loc \<circ> fst) (prev @ match))"
    using ok split(1) by (simp add: pbc_ok_def lru_inv_def)
  have mem: "fst e \<in> cached_ranges c" if "e \<in> set prev \<union> set match" for e
    using that split(1) by (auto simp: cached_ranges_def)
  have before: "rg_edge (fst e) \<le> a" if e: "e \<in> set prev" for e
  proof (cases "e = last prev")
    case True
    with e a show ?thesis by (cases prev) auto
  next
    case False
    obtain ys z where prev: "prev = ys @ [z]" using e by (cases prev rule: rev_cases) auto
    with False e sorted have "rg_loc (fst e) < rg_loc (fst z)" by (auto simp: sorted_wrt_append)
    moreover from this have "fst e \<noteq> fst z" by auto
    then have "rg_set (fst e) \<inter> rg_set (fst z) = {}"
      using mem [of e] mem [of z] e prev by (intro pbc_ok_disjoint [OF ok]) auto
    ultimately have "rg_loc (fst e) + int (rg_len (fst e)) \<le> rg_loc (fst z)"
      using key mem [of e] mem [of z] e prev by (intro disjoint_order) auto
    moreover have "fst e \<in> cached_ranges c" "fst z \<in> cached_ranges c" using mem [of e] mem [of z] e prev by fastforce+
    ultimately show ?thesis using a prev key [of "fst e"] key [of "fst z"] by simp
  qed
  have behind: "b \<le> rg_loc (fst e)" if "e \<in> set match" for e
    using that b sorted by (cases match) (auto simp: sorted_wrt_append)
  have inside: "rg_loc ?R \<le> rg_loc r \<and> rg_loc r + int (rg_len r) \<le> rg_edge ?R" if "r \<in> cached_ranges c" for r
    using key [OF that] R(2) by (auto simp: rg_set_def)
  have lower: "rg_loc ?R \<le> a \<and> a \<le> x"
  proof (cases "prev = []")
    case False
    then have last: "last prev \<in> set prev" by simp
    then have k: "fst (last prev) \<in> cached_ranges c" by (intro mem) simp
    have "rg_edge (fst (last prev)) \<le> x" using split(2) last by blast
    with False show ?thesis using a inside [OF k] key [OF k] by simp
  qed (use a x in \<open>simp add: rg_set_def\<close>)
  have upper: "x < b \<and> b \<le> rg_edge ?R"
  proof (cases "match = []")
    case False
    then have hd: "hd match \<in> set match" by simp
    then have k: "fst (hd match) \<in> cached_ranges c" by (intro mem) simp
    have "x < rg_loc (fst (hd match))" using split(3) hd by blast
    with False show ?thesis using b inside [OF k] by simp
  qed (use b x R(2) in \<open>simp add: rg_set_def\<close>)
  have ab: "rg_loc ?R \<le> a" "a \<le> x" "x < b" "b \<le> rg_edge ?R" using lower upper by auto
  have sane: "0 \<le> a" "b \<le> 4611686018427387904" using ab R by (auto simp: rg_sane_def)
  have "{a ..< b} \<inter> rg_set r = {}" if r: "r \<in> cached_ranges c" for r
  proof -
    obtain e where e: "e \<in> set (prev @ match)" "r = fst e" using r split(1) by (auto simp: cached_ranges_def)
    then show ?thesis using before [of e] behind [of e] key [OF r] by (auto simp: rg_set_def)
  qed
  moreover have "{a ..< b} \<subseteq> rg_set ?R" using ab R by (auto simp: rg_set_def)
  ultimately show ?thesis
    using gap_range [OF sane(1) ab(2,3) sane(2)] ab by (auto simp: is_gap_def)
qed


lemma pbc_find_spec:
  assumes ok: "pbc_ok content cps c" and x: "x \<in> rg_set (pbc_range (lru_sub c))"
  obtains (hit) r d c' where "pbc_find x c = Some (r, Some d, c')" "pbc_ok content cps c'"
      "r \<in> cached_ranges c" "x \<in> rg_set r" "view_ok d" "ud_bytes d = range_bytes content cps r"
      "lru_sub c' = lru_sub c" "lru_map c' = lru_map c"
    | (gap) g where "pbc_find x c = Some (g, None, c)" "is_gap c x g"
proof -
  obtain prev match where it: "pbc_findIterator x c = (prev, match)" by (cases "pbc_findIterator x c")
  then have split: "lru_map c = prev @ match" "\<forall>e \<in> set prev. rg_edge (fst e) \<le> x"
    by (auto simp: pbc_findIterator_def dest: set_takeWhileD)
  have sorted: "sorted_wrt (<) (map (rg_loc \<circ> fst) (lru_map c))" using ok by (simp add: pbc_ok_def lru_inv_def)
  have x0: "0 \<le> x" "x < 9223372036854775808" using x ok by (auto simp: pbc_ok_def rg_sane_def rg_set_def)
  show ?thesis
  proof (cases match)
    case Nil
    then show ?thesis
      using it split pbc_find_gap [OF ok x split(1,2) _ refl refl] by (intro gap) (auto simp: pbc_find_def Let_def)
  next
    case (Cons e rest)
    obtain r i where e: "e = (r, i)" by (cases e)
    have r: "r \<in> cached_ranges c" "(r, i) \<in> set (lru_map c)" using split(1) Cons e by (force simp: cached_ranges_def)+
    have key: "rg_sane r" "rg_edge r = rg_loc r + int (rg_len r)" using ok r(1) by (auto simp: pbc_ok_def rg_edge_sane)
    have "\<not> \<not> x < rg_edge r" using it Cons e hd_dropWhile [of "\<lambda>(r, _). \<not> x < rg_edge r" "lru_map c"]
      by (auto simp: pbc_findIterator_def)
    then have less: "x < rg_edge r" by simp
    show ?thesis
    proof (cases "rg_contains r x")
      case True
      have inv: "lru_inv rg_loc c" using ok by (simp add: pbc_ok_def)
      obtain d where d: "(i, r, d) \<in> set (lru_list c)" using r(2) lru_map_iff [OF inv, of r i] by auto
      obtain c' where c': "lru_retain i c = Some (d, c')" "lru_inv rg_loc c'"
        "lru_abs c' = (r, d) # filter (other_key rg_loc r) (lru_abs c)" "lru_map c' = lru_map c" "lru_sub c' = lru_sub c"
        by (rule lru_retain_node [OF inv d])
      have mem: "(r, d) \<in> set (lru_abs c)" using d by (force simp: lru_abs_def)
      then have "pbc_ok content cps c'" using ok c' by (auto simp: pbc_ok_def cached_ranges_def)
      moreover have "x \<in> rg_set r" using True rg_contains_sane [OF key(1) x0] by simp
      ultimately show ?thesis
        using True it Cons e c' r(1) mem ok by (intro hit [of r d c']) (auto simp: pbc_find_def pbc_ok_def Let_def)
    next
      case False
      then have "x < rg_loc r" using less key x0 by (auto simp: rg_contains_sane rg_set_def)
      moreover have "rg_loc r < rg_loc (fst e')" if "e' \<in> set rest" for e'
        using sorted split(1) Cons e that by (auto simp: sorted_wrt_append)
      ultimately have "\<forall>e \<in> set match. x < rg_loc (fst e)" using Cons e by fastforce
      from pbc_find_gap [OF ok x split this refl refl] show ?thesis
        using False it Cons e by (intro gap) (auto simp: pbc_find_def Let_def)
    qed
  qed
qed


section \<open>Every operation keeps the cached ranges\<close>

lemma pbc_ok_subset:
  assumes "pbc_ok content cps c" "lru_inv rg_loc c'" "set (lru_abs c') \<subseteq> set (lru_abs c)"
    "pbc_range (lru_sub c') = pbc_range (lru_sub c)"
  shows "pbc_ok content cps c'"
proof -
  have "cached_ranges c' \<subseteq> cached_ranges c"
    using assms by (auto simp: cached_ranges_abs pbc_ok_def)
  note sub = subsetD [OF this]
  show ?thesis
  proof (rule pbc_okI)
    fix r s assume "r \<in> cached_ranges c'" "s \<in> cached_ranges c'" "r \<noteq> s"
    then show "rg_set r \<inter> rg_set s = {}" using sub by (intro pbc_ok_disjoint [OF assms(1)])
  next
    fix r assume "r \<in> cached_ranges c'"
    then show "rg_sane r \<and> rg_len r > 0 \<and> rg_set r \<subseteq> rg_set (pbc_range (lru_sub c'))"
      unfolding assms(4) using sub by (intro pbc_ok_key [OF assms(1)])
  next
    fix r d assume "(r, d) \<in> set (lru_abs c')"
    then show "view_ok d \<and> ud_bytes d = range_bytes content cps r"
      using assms(3) by (intro pbc_ok_entry [OF assms(1)]) auto
  qed (use assms in \<open>simp_all add: pbc_ok_def\<close>)
qed

lemma pbc_purge_range: "pbc_range (lru_sub (pbc_purge n c)) = pbc_range (lru_sub c)"
  unfolding pbc_purge_def by (induction n arbitrary: c) (auto simp: pbc_willPurge_def split: prod.splits)

lemma pbc_purge_ok:
  assumes "pbc_ok content cps c"
  shows "pbc_ok content cps (pbc_purge n c)"
proof (rule pbc_ok_subset [OF assms])
  show "lru_inv rg_loc (pbc_purge n c)" using assms by (simp add: pbc_ok_def pbc_purge_def lru_purge_inv)
  show "set (lru_abs (pbc_purge n c)) \<subseteq> set (lru_abs c)"
    by (auto simp: pbc_purge_def lru_purge_abs dest: in_set_takeD)
qed (rule pbc_purge_range)

lemma pbc_purge_ranges:
  assumes "lru_inv rg_loc c"
  shows "cached_ranges (pbc_purge n c) \<subseteq> cached_ranges c"
proof -
  have "lru_inv rg_loc (pbc_purge n c)" using assms by (simp add: pbc_purge_def lru_purge_inv)
  moreover have "set (lru_abs (pbc_purge n c)) \<subseteq> set (lru_abs c)"
    by (auto simp: pbc_purge_def lru_purge_abs dest: in_set_takeD)
  ultimately show ?thesis using assms by (auto simp: cached_ranges_abs)
qed

lemma lru_empty_list: "lru_inv ord c \<Longrightarrow> lru_empty c \<longleftrightarrow> lru_list c = []"
  by (auto simp: lru_empty_def lru_inv_def)

lemma pbc_purge_size:
  assumes "lru_inv rg_loc c" "\<not> lru_empty c"
  shows "length (lru_abs (pbc_purge 1 c)) < length (lru_abs c)"
proof -
  have "lru_abs c \<noteq> []" using assms by (simp add: lru_empty_list lru_abs_def)
  then show ?thesis by (simp add: pbc_purge_def lru_purge_abs del: lru_purge.simps One_nat_def)
qed

lemma pbc_insert_range:
  assumes "lru_inv rg_loc c"
  shows "pbc_range (lru_sub (pbc_insert r d c)) = pbc_range (lru_sub c)"
proof -
  let ?c = "c\<lparr>lru_sub := pbc_charge d (lru_sub c)\<rparr>"
  have "lru_inv rg_loc ?c" using assms by (simp add: lru_inv_def)
  then have "pbc_range (lru_sub (lru_front rg_loc r d ?c)) = pbc_range (lru_sub c)"
    by (simp add: lru_front_lists(4)) (simp add: pbc_charge_def)
  then show ?thesis using pbc_purge_range [of 1 "lru_front rg_loc r d ?c"]
    by (simp add: pbc_insert_def lru_insert_def lru_put_def Let_def pbc_purge_def del: lru_purge.simps One_nat_def)
qed

lemma pbc_insert_ok:
  assumes ok: "pbc_ok content cps c" and r: "rg_sane r" "rg_len r > 0" "rg_set r \<subseteq> rg_set (pbc_range (lru_sub c))"
    and disj: "\<forall>s \<in> cached_ranges c. rg_set r \<inter> rg_set s = {}"
    and d: "view_ok d" "ud_bytes d = range_bytes content cps r"
  shows "pbc_ok content cps (pbc_insert r d c)"
proof -
  let ?c = "c\<lparr>lru_sub := pbc_charge d (lru_sub c)\<rparr>"
  let ?f = "lru_front rg_loc r d ?c"
  have inv: "lru_inv rg_loc c" "lru_inv rg_loc ?c" using ok by (simp_all add: pbc_ok_def lru_inv_def)
  have abs: "lru_abs ?f = (r, d) # filter (other_key rg_loc r) (lru_abs c)"
    by (simp add: lru_front_abs [OF inv(2)]) (simp add: lru_abs_def)
  have inv_f: "lru_inv rg_loc ?f" by (rule lru_front_inv [OF inv(2)])
  have keys: "cached_ranges ?f \<subseteq> insert r (cached_ranges c)"
    by (auto simp: cached_ranges_abs [OF inv_f] cached_ranges_abs [OF inv(1)] abs)
  have sub: "pbc_range (lru_sub ?f) = pbc_range (lru_sub c)"
    unfolding lru_front_lists(4) [OF inv(2)] by (simp add: pbc_charge_def)
  have "pbc_ok content cps ?f"
  proof (rule pbc_okI)
    fix s assume "s \<in> cached_ranges ?f"
    then have "s = r \<or> s \<in> cached_ranges c" using keys by blast
    then show "rg_sane s \<and> rg_len s > 0 \<and> rg_set s \<subseteq> rg_set (pbc_range (lru_sub ?f))"
      unfolding sub using r pbc_ok_key [OF ok] by blast
  next
    fix s t assume "s \<in> cached_ranges ?f" "t \<in> cached_ranges ?f" "s \<noteq> t"
    then show "rg_set s \<inter> rg_set t = {}" using keys disj pbc_ok_disjoint [OF ok] by blast
  next
    fix s e assume "(s, e) \<in> set (lru_abs ?f)"
    then show "view_ok e \<and> ud_bytes e = range_bytes content cps s"
      using d pbc_ok_entry [OF ok] by (auto simp: abs)
  qed (use inv_f ok sub in \<open>simp_all add: pbc_ok_def\<close>)
  then show ?thesis
    using pbc_purge_ok [of content cps ?f 1]
    by (simp add: pbc_insert_def lru_insert_def lru_put_def Let_def pbc_purge_def del: lru_purge.simps One_nat_def)
qed

section \<open>Mapping a page\<close>

text \<open>The state between the calls.\<close>

definition pf_ok :: "pbf \<Rightarrow> bool" where
  "pf_ok p \<longleftrightarrow>
     fh_ok (pf_file p) \<and> 0 < pf_cachePageSize p \<and> pf_cachePageSize p \<le> 1048576 \<and>
     pf_cachePageSize p mod sys_pagesize (fh_sys (pf_file p)) = 0 \<and>
     pbc_ok (fh_content (pf_file p)) (pf_cachePageSize p) (pf_cache p) \<and>
     (\<forall>x \<in> rg_set (pbc_range (lru_sub (pf_cache p))). nat x * pf_cachePageSize p < length (fh_content (pf_file p)))"

text \<open>The system answers: interrupted reads are answered at some time.\<close>

definition sys_live :: "sys \<Rightarrow> bool" where
  "sys_live sys \<longleftrightarrow> progresses (sys_read sys) (sys_errno sys) \<and> malloc_ok (sys_malloc sys)"

lemma range_bytes_part:
  assumes view: "view_ok d" "ud_bytes d = range_bytes content cps r" and r: "0 \<le> rg_loc r" "rg_len r > 0"
    and off: "0 \<le> offset" "offset div int cps \<in> rg_set r" "offset mod int cps + int n \<le> int cps"
      "offset + int n \<le> int (length content)" and cps: "0 < cps" and small: "length content < 1152921504606846976"
  shows "view_ok (ud_subdata d (to_off (to_size (offset - rg_loc r * int cps))) n) \<and>
    ud_bytes (ud_subdata d (to_off (to_size (offset - rg_loc r * int cps))) n) = take n (drop (nat offset) content)"
proof -
  let ?o = "offset - rg_loc r * int cps" and ?q = "offset div int cps"
  have q: "rg_loc r \<le> ?q" "?q < rg_loc r + int (rg_len r)" using off(2) by (auto simp: rg_set_def)
  have split: "offset = ?q * int cps + offset mod int cps" by simp
  have lower: "rg_loc r * int cps \<le> ?q * int cps" using q(1) by (intro mult_right_mono) auto
  have upper: "(?q + 1) * int cps \<le> (rg_loc r + int (rg_len r)) * int cps" using q(2) by (intro mult_right_mono) auto
  have o: "0 \<le> ?o" using lower split pos_mod_sign [of "int cps" offset] cps by linarith
  have fits: "?o + int n \<le> int (rg_len r) * int cps"
    using upper split off(3) unfolding distrib_right by linarith
  have len: "ud_size d = min (rg_len r * cps) (length content - nat (rg_loc r) * cps)"
    using view by (simp add: range_bytes_def flip: length_ud_bytes)
  have loc: "int (nat (rg_loc r) * cps) = rg_loc r * int cps" using r(1) by simp
  have "?o + int n \<le> int (length content - nat (rg_loc r) * cps)" using off(4) o loc by linarith
  with fits len have size: "?o + int n \<le> int (ud_size d)" by (simp add: min_def)
  have "0 \<le> rg_loc r * int cps" using r(1) by simp
  then have same: "to_off (to_size ?o) = ?o" using o off(4) small by (intro to_off_to_size) linarith+
  have "view_ok (ud_subdata d ?o n)"
    using view(1) o size view_ok_size_bound [OF view(1)] by (intro view_ok_subdata) (auto simp: size_max_def)
  moreover have "ud_bytes (ud_subdata d ?o n) = take n (drop (nat ?o) (ud_bytes d))"
    using view(1) o size by (rule ud_bytes_subdata)
  moreover have "nat ?o + n \<le> rg_len r * cps" using fits o by (simp flip: of_nat_mult)
  then have "take n (drop (nat ?o) (ud_bytes d)) = take n (drop (nat (rg_loc r) * cps + nat ?o) content)"
    unfolding view(2) range_bytes_def by (simp add: drop_take add.commute)
  moreover have "nat (rg_loc r) * cps + nat ?o = nat offset" using o loc by linarith
  ultimately show ?thesis by (simp only: same)
qed


lemma pf_ok_mapped:
  assumes ok: "pf_ok p" and r: "rg_sane r" "rg_len r > 0" "rg_set r \<subseteq> rg_set (pbc_range (lru_sub (pf_cache p)))"
    "rg_len r * pf_cachePageSize p < 1152921504606846976"
    and map: "fh_map (to_off (to_size (rg_loc r * int (pf_cachePageSize p)))) (to_size (int (rg_len r) * int (pf_cachePageSize p)))
      ((pf_file p)\<lparr>fh_ignorable := b\<rparr>) = Some (d, h)"
  shows "fh_ok h \<and> fh_content h = fh_content (pf_file p) \<and> fh_sys h = fh_sys (pf_file p) \<and>
    (ud_empty d \<or> view_ok d \<and> ud_bytes d = range_bytes (fh_content (pf_file p)) (pf_cachePageSize p) r)"
proof -
  let ?cps = "pf_cachePageSize p" and ?content = "fh_content (pf_file p)" and ?page = "sys_pagesize (fh_sys (pf_file p))"
  let ?h = "(pf_file p)\<lparr>fh_ignorable := b\<rparr>"
  have fh: "fh_ok ?h" "fh_content ?h = ?content" "fh_sys ?h = fh_sys (pf_file p)"
    using ok by (auto simp: pf_ok_def fh_ok_def fh_content_def)
  have page: "0 < ?page" "?page < 1152921504606846976" "length ?content < 1152921504606846976"
    using ok by (auto simp: pf_ok_def fh_ok_def)
  have loc: "0 \<le> rg_loc r" "rg_loc r \<in> rg_set (pbc_range (lru_sub (pf_cache p)))"
    using r by (auto simp: rg_sane_def rg_set_def)
  have start: "nat (rg_loc r) * ?cps < length ?content" using ok loc(2) by (auto simp: pf_ok_def)
  have int: "rg_loc r * int ?cps = int (nat (rg_loc r) * ?cps)" using loc(1) by simp
  have off: "to_off (to_size (rg_loc r * int ?cps)) = int (nat (rg_loc r) * ?cps)"
    unfolding int using start page(3) by (intro to_off_to_size) linarith+
  have len: "to_size (int (rg_len r) * int ?cps) = rg_len r * ?cps"
    using r(4) by (simp add: to_size_nonneg size_max_def flip: of_nat_mult)
  have aligned: "int (nat (rg_loc r) * ?cps) mod int ?page = 0"
    using ok by (simp add: pf_ok_def mod_mult_right_eq flip: of_nat_mult zmod_int) (metis mod_mult_right_eq mult_0_right mod_0)
  have pos: "0 < rg_len r * ?cps" using r(2) ok by (simp add: pf_ok_def)
  have content: "view_ok (fh_mapped ?page (length ?content) ?content (int (nat (rg_loc r) * ?cps)) (rg_len r * ?cps)) \<and>
    ud_bytes (fh_mapped ?page (length ?content) ?content (int (nat (rg_loc r) * ?cps)) (rg_len r * ?cps))
      = take (rg_len r * ?cps) (drop (nat (int (nat (rg_loc r) * ?cps))) ?content)"
    by (rule fh_mapped_content) (use page start pos r(4) aligned in \<open>simp_all del: of_nat_mult int_nat_eq\<close>)
  from fh_map_cases [OF fh(1) map [unfolded off len]] content show ?thesis
    unfolding fh(2,3) range_bytes_def nat_int by (auto simp: ud_empty_def ud_null_def simp del: of_nat_mult int_nat_eq)
qed


text \<open>What a call of \<open>mapPage\<close> promises.\<close>

definition map_result :: "int \<Rightarrow> nat \<Rightarrow> pbf \<Rightarrow> udata \<times> pbf \<Rightarrow> bool" where
  "map_result offset n p res \<longleftrightarrow>
     pf_ok (snd res) \<and> fh_content (pf_file (snd res)) = fh_content (pf_file p) \<and>
     fh_sys (pf_file (snd res)) = fh_sys (pf_file p) \<and>
     pf_pageSize (snd res) = pf_pageSize p \<and> pf_cachePageSize (snd res) = pf_cachePageSize p \<and>
     pbc_range (lru_sub (pf_cache (snd res))) = pbc_range (lru_sub (pf_cache p)) \<and>
     (fst res = ud_null \<or> view_ok (fst res) \<and> ud_bytes (fst res) = take n (drop (nat offset) (fh_content (pf_file p))))"

lemma cachePagePerRange_bounds:
  "pf_ok p \<Longrightarrow> 0 < cachePagePerRange p \<and> cachePagePerRange p \<le> 1048576 \<and> cachePagePerRange p * pf_cachePageSize p \<le> 1048576"
  using div_le_dividend [of 1048576 "pf_cachePageSize p"]
  by (auto simp: pf_ok_def cachePagePerRange_def div_greater_zero_iff)

lemma is_gap_restricted:
  assumes "is_gap c q gap" "0 < maxLength"
  shows "rg_sane (restrictedRange q maxLength gap)" "0 < rg_len (restrictedRange q maxLength gap)"
    "q \<in> rg_set (restrictedRange q maxLength gap)" "rg_set (restrictedRange q maxLength gap) \<subseteq> rg_set gap"
    "rg_len (restrictedRange q maxLength gap) \<le> maxLength"
proof -
  have gap: "rg_sane gap" "q \<in> rg_set gap" using assms(1) by (auto simp: is_gap_def)
  note props = restrictedRange_cases [OF gap assms(2)]
  have "rg_len gap > 0" using gap(2) by (auto simp: rg_set_def)
  then show "0 < rg_len (restrictedRange q maxLength gap)" using props(1) assms(2) by simp
  show "rg_sane (restrictedRange q maxLength gap)" using props by (intro rg_sane_subset [OF gap(1)]) simp_all
  show "q \<in> rg_set (restrictedRange q maxLength gap)" using props by (simp add: rg_set_def)
  show "rg_set (restrictedRange q maxLength gap) \<subseteq> rg_set gap" using props by (auto simp: rg_set_def)
  show "rg_len (restrictedRange q maxLength gap) \<le> maxLength" using props(1) by simp
qed

lemma mapPage_loop_total:
  assumes "pf_ok p" "sys_live (fh_sys (pf_file p))" "is_gap (pf_cache p) q gap" "0 < maxLength" "maxLength \<le> cachePagePerRange p"
    "q = offset div int (pf_cachePageSize p)" "0 \<le> offset" "offset mod int (pf_cachePageSize p) + int n \<le> int (pf_cachePageSize p)"
    "offset + int n \<le> int (length (fh_content (pf_file p)))"
  shows "\<exists>res. mapPage_loop offset q n p gap maxLength = Some res \<and> map_result offset n p res"
  using assms
proof (induction "length (lru_abs (pf_cache p)) * 1048577 + maxLength" arbitrary: p gap maxLength rule: less_induct)
  case less
  note ok = less.prems(1)
  let ?r = "restrictedRange q maxLength gap" and ?cps = "pf_cachePageSize p" and ?c = "pf_cache p"
  let ?b = "rg_len ?r > 1 \<or> \<not> lru_empty ?c"
  note range = is_gap_restricted [OF less.prems(3,4)]
  note bounds = cachePagePerRange_bounds [OF ok]
  have fh: "fh_ok ((pf_file p)\<lparr>fh_ignorable := b\<rparr>)" for b using ok by (simp add: pf_ok_def fh_ok_def fh_content_def)
  obtain d h where map: "fh_map (to_off (to_size (rg_loc ?r * int ?cps))) (to_size (int (rg_len ?r) * int ?cps))
      ((pf_file p)\<lparr>fh_ignorable := ?b\<rparr>) = Some (d, h)"
    by (rule fh_map_total [OF _ _ fh]) (use less.prems(2) in \<open>auto simp: sys_live_def\<close>)
  have part: "rg_set ?r \<subseteq> rg_set (pbc_range (lru_sub ?c))" "\<forall>s \<in> cached_ranges ?c. rg_set ?r \<inter> rg_set s = {}"
    using less.prems(3) range(4) by (auto simp: is_gap_def)
  have small: "rg_len ?r * ?cps < 1152921504606846976"
    using range(5) less.prems(5) bounds mult_le_mono1 [of "rg_len ?r" "cachePagePerRange p" ?cps] by linarith
  note mapped = pf_ok_mapped [OF ok range(1,2) part(1) small map]
  let ?p = "p\<lparr>pf_file := h\<lparr>fh_ignorable := False\<rparr>\<rparr>"
  have fh': "fh_ok (h\<lparr>fh_ignorable := False\<rparr>)" "fh_content (h\<lparr>fh_ignorable := False\<rparr>) = fh_content (pf_file p)"
    "fh_sys (h\<lparr>fh_ignorable := False\<rparr>) = fh_sys (pf_file p)"
    using mapped by (auto simp: fh_ok_def fh_content_def)
  have ok': "pf_ok ?p" using ok fh' by (simp add: pf_ok_def)
  have inv: "lru_inv rg_loc ?c" "pbc_ok (fh_content (pf_file p)) ?cps ?c" using ok by (simp_all add: pf_ok_def pbc_ok_def)
  have trans: "map_result offset n p res" if "map_result offset n p' res" "fh_content (pf_file p') = fh_content (pf_file p)"
    "fh_sys (pf_file p') = fh_sys (pf_file p)" "pf_pageSize p' = pf_pageSize p" "pf_cachePageSize p' = ?cps"
    "pbc_range (lru_sub (pf_cache p')) = pbc_range (lru_sub ?c)" for p' res
    using that by (simp add: map_result_def)
  have unfold: "mapPage_loop offset q n p gap maxLength =
    (if \<not> ud_empty d then Some (ud_subdata d (to_off (to_size (offset - rg_loc ?r * int ?cps))) n, ?p\<lparr>pf_cache := pbc_insert ?r d ?c\<rparr>)
     else if rg_len ?r > 1 then mapPage_loop offset q n ?p gap ((rg_len ?r + 1) div 2)
     else if \<not> lru_empty ?c
     then Option.bind (pbc_find q (pbc_purge 1 ?c))
       (\<lambda>(gap, _, cache). mapPage_loop offset q n (?p\<lparr>pf_cache := cache\<rparr>) gap (cachePagePerRange ?p))
     else Some (ud_null, ?p))"
    by (subst mapPage_loop.simps) (simp add: Let_def map del: One_nat_def)
  consider (mapped) "\<not> ud_empty d" | (cut) "ud_empty d" "rg_len ?r > 1"
    | (purge) "ud_empty d" "\<not> rg_len ?r > 1" "\<not> lru_empty ?c" | (stop) "ud_empty d" "\<not> rg_len ?r > 1" "lru_empty ?c" by blast
  then show ?case
  proof cases
    case mapped
    then have d: "view_ok d" "ud_bytes d = range_bytes (fh_content (pf_file p)) ?cps ?r"
      using pf_ok_mapped [OF ok range(1,2) part(1) small map] by auto
    have "pf_ok (?p\<lparr>pf_cache := pbc_insert ?r d ?c\<rparr>)"
      using ok' pbc_insert_ok [OF inv(2) range(1,2) part d] by (simp add: pf_ok_def fh' pbc_insert_range [OF inv(1)])
    moreover have "view_ok (ud_subdata d (to_off (to_size (offset - rg_loc ?r * int ?cps))) n) \<and>
      ud_bytes (ud_subdata d (to_off (to_size (offset - rg_loc ?r * int ?cps))) n) = take n (drop (nat offset) (fh_content (pf_file p)))"
      by (rule range_bytes_part [OF d]) (use range ok less.prems in \<open>auto simp: rg_sane_def pf_ok_def fh_ok_def\<close>)
    ultimately show ?thesis using mapped fh' by (auto simp: unfold map_result_def pbc_insert_range [OF inv(1)])
  next
    case cut
    then have "\<exists>res. mapPage_loop offset q n ?p gap ((rg_len ?r + 1) div 2) = Some res \<and> map_result offset n ?p res"
      using range(5) less.prems ok' fh' by (intro less.hyps) (auto simp: cachePagePerRange_def)
    then show ?thesis using cut trans [of ?p] fh' by (auto simp: unfold)
  next
    case purge
    let ?c' = "pbc_purge 1 ?c"
    have c': "pbc_ok (fh_content (pf_file p)) ?cps ?c'" by (rule pbc_purge_ok [OF inv(2)])
    have q: "q \<in> rg_set (pbc_range (lru_sub ?c'))" "q \<in> rg_set gap"
      using less.prems(3) by (auto simp: is_gap_def pbc_purge_range)
    have keys: "cached_ranges ?c' \<subseteq> cached_ranges ?c" by (rule pbc_purge_ranges [OF inv(1)])
    obtain g where g: "pbc_find q ?c' = Some (g, None, ?c')" "is_gap ?c' q g"
      using c' q(1)
    proof (cases rule: pbc_find_spec)
      case (hit r d c'')
      then have "r \<in> cached_ranges ?c" "q \<in> rg_set gap \<inter> rg_set r" using keys q(2) by auto
      then show ?thesis using less.prems(3) by (auto simp: is_gap_def)
    qed (rule that)
    let ?p' = "?p\<lparr>pf_cache := ?c'\<rparr>"
    have "pf_ok ?p'" using ok' c' by (simp add: pf_ok_def fh' pbc_purge_range)
    moreover have "length (lru_abs ?c') < length (lru_abs ?c)" by (rule pbc_purge_size [OF inv(1) purge(3)])
    then have "length (lru_abs ?c') * 1048577 + cachePagePerRange p < length (lru_abs ?c) * 1048577 + maxLength"
      using bounds by linarith
    ultimately have "\<exists>res. mapPage_loop offset q n ?p' g (cachePagePerRange p) = Some res \<and> map_result offset n ?p' res"
      using g(2) less.prems fh' bounds by (intro less.hyps) (auto simp: cachePagePerRange_def)
    moreover have "cachePagePerRange ?p = cachePagePerRange p" by (simp add: cachePagePerRange_def)
    ultimately show ?thesis using purge g(1) trans [of ?p'] fh' by (auto simp: unfold pbc_purge_range)
  next
    case stop
    then show ?thesis using ok' fh' by (auto simp: unfold map_result_def)
  qed
qed


lemma map_hit:
  assumes "pf_ok p" "0 \<le> offset" "offset mod int (pf_cachePageSize p) + int n \<le> int (pf_cachePageSize p)"
    "offset + int n \<le> int (length (fh_content (pf_file p)))"
    "pbc_ok (fh_content (pf_file p)) (pf_cachePageSize p) c'" "lru_sub c' = lru_sub (pf_cache p)"
    "r \<in> cached_ranges (pf_cache p)" "offset div int (pf_cachePageSize p) \<in> rg_set r" "view_ok d"
    "ud_bytes d = range_bytes (fh_content (pf_file p)) (pf_cachePageSize p) r"
  shows "map_result offset n p (ud_subdata d (to_off (to_size (offset - rg_loc r * int (pf_cachePageSize p)))) n, p\<lparr>pf_cache := c'\<rparr>)"
proof -
  have "rg_sane r \<and> rg_len r > 0" using assms(1,7) pbc_ok_key by (auto simp: pf_ok_def)
  then have "view_ok (ud_subdata d (to_off (to_size (offset - rg_loc r * int (pf_cachePageSize p)))) n) \<and>
    ud_bytes (ud_subdata d (to_off (to_size (offset - rg_loc r * int (pf_cachePageSize p)))) n)
      = take n (drop (nat offset) (fh_content (pf_file p)))"
    using assms by (intro range_bytes_part) (auto simp: rg_sane_def pf_ok_def fh_ok_def)
  then show ?thesis using assms by (simp add: map_result_def pf_ok_def)
qed

text \<open>\<open>setPageSize\<close> establishes the invariant.\<close>

lemma rounded_page:
  assumes "0 < m" "m \<le> 65536" "0 < n" "n \<le> 65536"
  defines "c \<equiv> max m (if n mod m > 0 then to_size (int n - int (n mod m) + int m) else n)"
  shows "0 < c \<and> c \<le> 131072 \<and> c mod m = 0 \<and> n \<le> c"
proof (cases "n mod m = 0")
  case True
  then have "m \<le> n" using assms(3) by (auto intro: dvd_imp_le)
  with True assms show ?thesis by (auto simp: max_def)
next
  case False
  have le: "n mod m \<le> n" "n mod m < m" using assms by auto
  have size: "to_size (int n - int (n mod m) + int m) = n - n mod m + m"
    using assms le by (simp add: to_size_nonneg size_max_def nat_add_distrib nat_diff_distrib)
  have "max m (n - n mod m + m) = n - n mod m + m" by (rule max_absorb2) (rule le_add2)
  with False have c: "c = n - n mod m + m" unfolding c_def size by auto
  have "n - n mod m = n div m * m" by (simp add: minus_mod_eq_div_mult)
  then have "c mod m = 0" unfolding c by simp
  moreover have "0 < c" "c \<le> 131072" "n \<le> c" unfolding c using le assms(1-4) by linarith+
  ultimately show ?thesis by blast
qed

lemma ceil_pages:
  assumes "0 < (c :: nat)" "x < len div c + (if len mod c > 0 then 1 else 0)"
  shows "x * c < len"
proof -
  have split: "len = len div c * c + len mod c" by simp
  show ?thesis
  proof (cases "x < len div c")
    case True
    then have "(x + 1) * c \<le> len div c * c" by (intro mult_le_mono1) simp
    then show ?thesis using split assms(1) unfolding distrib_right by linarith
  next
    case False
    then have x: "x = len div c" "0 < len mod c" using assms(2) by (auto split: if_splits)
    show ?thesis unfolding x(1) using split x(2) by linarith
  qed
qed

lemma setPageSize_ok:
  assumes "fh_ok h" "sys_pagesize (fh_sys h) \<le> 65536" "0 < n" "n \<le> 65536"
  shows "pf_ok (pf_setPageSize n (pf_init h))"
    and "pf_file (pf_setPageSize n (pf_init h)) = h" "pf_pageSize (pf_setPageSize n (pf_init h)) = n"
    and "n \<le> pf_cachePageSize (pf_setPageSize n (pf_init h))"
proof -
  let ?m = "sys_pagesize (fh_sys h)" and ?len = "length (fh_content h)"
  let ?c = "max ?m (if n mod ?m > 0 then to_size (int n - int (n mod ?m) + int ?m) else n)"
  let ?R = "\<lparr>rg_loc = 0, rg_len = ?len div ?c + (if ?len mod ?c > 0 then 1 else 0)\<rparr>"
  have h: "0 < ?m" "?len < 1152921504606846976" using assms(1) by (auto simp: fh_ok_def)
  have c: "0 < ?c \<and> ?c \<le> 131072 \<and> ?c mod ?m = 0 \<and> n \<le> ?c" using h(1) assms(2-4) by (rule rounded_page)
  have size: "to_size (int ?len) = ?len" using h(2) by (simp add: to_size_nonneg size_max_def)
  have p: "pf_setPageSize n (pf_init h) = \<lparr>pf_file = h, pf_pageSize = n, pf_cachePageSize = ?c,
    pf_cache = pbc_setRange ?R (pbc_init 16777216)\<rparr>"
    unfolding pf_setPageSize_def pf_init_def Let_def by (simp add: fh_size_ok [OF assms(1)] size)
  have "?len div ?c + (if ?len mod ?c > 0 then 1 else 0) \<le> ?len + 1" by (rule add_mono) auto
  then have R: "rg_sane ?R" using h(2) unfolding rg_sane_def range.simps by linarith
  have "pbc_ok (fh_content h) ?c (pbc_setRange ?R (pbc_init 16777216))"
    using R by (simp add: pbc_ok_def pbc_setRange_def pbc_init_def lru_inv_def lru_init_def cached_ranges_def lru_abs_def)
  moreover have "nat x * ?c < ?len" if "x \<in> rg_set ?R" for x
    using that c by (intro ceil_pages) (auto simp: rg_set_def nat_less_iff)
  ultimately show "pf_ok (pf_setPageSize n (pf_init h))"
    unfolding p pf_ok_def using assms(1) c by (simp add: pbc_setRange_def)
  show "pf_file (pf_setPageSize n (pf_init h)) = h" "pf_pageSize (pf_setPageSize n (pf_init h)) = n"
    "n \<le> pf_cachePageSize (pf_setPageSize n (pf_init h))"
    unfolding p using c by simp_all
qed

text \<open>
  C24: \<open>find\<close> is exact.  For every location of the file it returns the cached range that
  contains the location with the bytes of that range, or a gap that contains it, lies in the
  file and meets no cached range.
\<close>

theorem cache_find_exact:
  assumes "pbc_ok content cps c" "x \<in> rg_set (pbc_range (lru_sub c))"
  shows "(\<exists>r d c'. pbc_find x c = Some (r, Some d, c') \<and> r \<in> cached_ranges c \<and> x \<in> rg_set r \<and>
      ud_bytes d = range_bytes content cps r \<and> pbc_ok content cps c') \<or>
    (\<exists>g. pbc_find x c = Some (g, None, c) \<and> is_gap c x g)"
  using assms by (rule pbc_find_spec) blast+

lemma mapPage_part_total:
  assumes "pf_ok p" "sys_live (fh_sys (pf_file p))" "0 < pageno" "0 \<le> off" "0 < n"
    "offset = (pageno - 1) * int (pf_pageSize p) + off"
    "offset mod int (pf_cachePageSize p) + int n \<le> int (pf_cachePageSize p)"
    "offset + int n \<le> int (length (fh_content (pf_file p)))"
    "offset div int (pf_cachePageSize p) \<in> rg_set (pbc_range (lru_sub (pf_cache p)))"
  shows "\<exists>res. mapPage_part pageno off n p = Some res \<and> map_result offset n p res"
proof -
  let ?cps = "pf_cachePageSize p" and ?q = "offset div int (pf_cachePageSize p)"
  have cps: "0 < ?cps" and size: "length (fh_content (pf_file p)) < 1152921504606846976"
    and cache: "pbc_ok (fh_content (pf_file p)) ?cps (pf_cache p)"
    using assms(1) by (auto simp: pf_ok_def fh_ok_def)
  have off: "0 \<le> offset" "offset < 1152921504606846976" using assms(3-6,8) size by auto
  have offset: "to_off (to_size ((pageno - 1) * int (pf_pageSize p) + off)) = offset"
    using off assms(6) by (simp add: to_off_to_size)
  have q: "to_off (to_size offset div ?cps) = ?q"
  proof -
    have "int (to_size offset div ?cps) = ?q" using off by (simp add: to_size_nonneg size_max_def zdiv_int)
    moreover have "to_size offset div ?cps \<le> nat offset"
      using off div_le_dividend [of "nat offset" ?cps] by (simp add: to_size_nonneg size_max_def)
    ultimately show ?thesis using off by (simp add: to_off_small)
  qed
  show ?thesis using cache assms(9)
  proof (cases rule: pbc_find_spec)
    case (hit r d c')
    then show ?thesis
      using map_hit [OF assms(1) off(1) assms(7,8) hit(2,7,3,4,5,6)] by (auto simp: mapPage_part_def offset q Let_def)
  next
    case (gap g)
    have "\<exists>res. mapPage_loop offset ?q n p g (cachePagePerRange p) = Some res \<and> map_result offset n p res"
      using assms gap(2) off cachePagePerRange_bounds [OF assms(1)] by (intro mapPage_loop_total) auto
    then show ?thesis using gap(1) by (auto simp: mapPage_part_def offset q Let_def)
  qed
qed

text \<open>
  C4: \<open>mapPage\<close> terminates and is coherent.  For a page that lies in the file and in one cache
  page, whatever mappings fail, the call returns: with the bytes of the file at the page, or
  with the null object when not even one cache page can be mapped; the cached ranges stay
  disjoint and each shows its bytes.
\<close>

theorem mapPage_coherent:
  assumes "pf_ok p" "sys_live (fh_sys (pf_file p))" "0 < pageno" "0 \<le> off" "0 < n"
    "offset = (pageno - 1) * int (pf_pageSize p) + off"
    "offset mod int (pf_cachePageSize p) + int n \<le> int (pf_cachePageSize p)"
    "offset + int n \<le> int (length (fh_content (pf_file p)))"
    "offset div int (pf_cachePageSize p) \<in> rg_set (pbc_range (lru_sub (pf_cache p)))"
  shows "\<exists>d p'. mapPage_part pageno off n p = Some (d, p') \<and> pf_ok p' \<and>
    (d = ud_null \<or> view_ok d \<and> ud_bytes d = take n (drop (nat offset) (fh_content (pf_file p))))"
  using mapPage_part_total [OF assms] by (force simp: map_result_def)

definition demo_pbf :: pbf where
  "demo_pbf = pf_setPageSize 512 (pf_init ((demo_fh (replicate 1024 7))\<lparr>fh_fileSize := 1024\<rparr>))"

lemma demo_pbf_facts:
  "pf_ok demo_pbf" "fh_content (pf_file demo_pbf) = replicate 1024 7" "pf_pageSize demo_pbf = 512" "pf_cachePageSize demo_pbf = 4096"
  "pbc_range (lru_sub (pf_cache demo_pbf)) = \<lparr>rg_loc = 0, rg_len = 1\<rparr>" "fh_sys (pf_file demo_pbf) = demo_sys"
proof -
  let ?h = "(demo_fh (replicate 1024 7))\<lparr>fh_fileSize := 1024\<rparr>"
  have h: "fh_ok ?h" "fh_content ?h = replicate 1024 7" "sys_pagesize (fh_sys ?h) = 4096" "fh_sys ?h = demo_sys"
    by (simp_all add: fh_ok_def demo_fh_def fh_init_def fh_content_def demo_sys_def)
  have "0 < (512 :: nat)" "(512 :: nat) \<le> 65536" by simp_all
  note ok = setPageSize_ok [OF h(1) _ this]
  show "pf_ok demo_pbf" "fh_content (pf_file demo_pbf) = replicate 1024 7" "pf_pageSize demo_pbf = 512"
    "fh_sys (pf_file demo_pbf) = demo_sys"
    using ok h by (simp_all add: demo_pbf_def)
  show "pf_cachePageSize demo_pbf = 4096" "pbc_range (lru_sub (pf_cache demo_pbf)) = \<lparr>rg_loc = 0, rg_len = 1\<rparr>"
    by (simp_all add: demo_pbf_def pf_setPageSize_def pf_init_def Let_def fh_size_ok [OF h(1)] h(2,3,4)
        demo_sys_def to_size_def size_max_def pbc_setRange_def pbc_init_def lru_init_def)
qed

theorem mapPage_coherent_witness:
  "\<exists>d p'. mapPage_part 2 0 512 demo_pbf = Some (d, p') \<and> pf_ok p' \<and> (d = ud_null \<or> ud_bytes d = replicate 512 7)"
proof -
  have "sys_live demo_sys" using demo_progresses by (simp add: sys_live_def malloc_ok_def) (simp add: demo_sys_def)
  then have "\<exists>d p'. mapPage_part 2 0 512 demo_pbf = Some (d, p') \<and> pf_ok p' \<and>
    (d = ud_null \<or> view_ok d \<and> ud_bytes d = take 512 (drop (nat 512) (fh_content (pf_file demo_pbf))))"
    using demo_pbf_facts by (intro mapPage_coherent) (simp_all add: rg_set_def)
  then show ?thesis by (auto simp: demo_pbf_facts)
qed

theorem cache_find_exact_witness:
  "(\<exists>r d c'. pbc_find 0 (pf_cache demo_pbf) = Some (r, Some d, c') \<and> r \<in> cached_ranges (pf_cache demo_pbf)) \<or>
   (\<exists>g. pbc_find 0 (pf_cache demo_pbf) = Some (g, None, pf_cache demo_pbf) \<and> is_gap (pf_cache demo_pbf) 0 g)"
  using cache_find_exact [of "replicate 1024 7" 4096 "pf_cache demo_pbf" 0] demo_pbf_facts
  by (auto simp: pf_ok_def rg_set_def)

end
