(* ===== verification/WCDB_Wal.thy ===== *)
theory WCDB_Wal
  imports WCDB_FileHandle WCDB_Serialization "HOL-Library.Signed_Division"
begin

unbundle bit_operations_syntax

text \<open>
  The write-ahead log: \<open>src/src/common/repair/parse/Wal.cpp\<close>, \<open>Frame.cpp\<close>, \<open>Shm.cpp\<close> and
  \<open>Initializeable.cpp\<close>.

  \<open>Wal\<close>, \<open>Shm\<close> and \<open>Frame\<close> report through the pager they belong to, so the pager's error
  \<open>m_error\<close> is kept here as \<open>wal_error\<close>, next to the error slot of the thread, \<open>wal_thread\<close>,
  which every file handle of the pager shares.  The members that the constructors leave
  uninitialized are parameters of \<open>wal_init\<close> and \<open>shm_init\<close>.  Error messages are kept as their
  format strings.  \<open>wal_bigEndian\<close> is the byte order of the host (\<open>isBigEndian()\<close>).
\<close>

section \<open>Initializeable\<close>

datatype init_state = State_Failed | State_None | State_Initializing | State_Initialized

definition initialize ::
  "('s \<Rightarrow> init_state) \<Rightarrow> (init_state \<Rightarrow> 's \<Rightarrow> 's) \<Rightarrow> ('s \<Rightarrow> (bool \<times> 's) option) \<Rightarrow> 's \<Rightarrow> (bool \<times> 's) option" where
  "initialize state setState doInitialize s = do {
     s \<leftarrow> (if state s = State_None then do {
             (ok, s) \<leftarrow> doInitialize (setState State_Initializing s);
             Some (setState (if ok then State_Initialized else State_Failed) s)
           } else Some s);
     Some (state s = State_Initialized, s)
   }"

section \<open>The state\<close>

type_synonym salt = "u32 \<times> u32"
type_synonym checksum = "u32 \<times> u32"

record shm =
  shm_state :: init_state
  shm_file :: fh
  sh_version :: u32
  sh_maxFrame :: u32
  sh_salt :: "byte list"
  sh_backfill :: u32

definition shm_init :: "fh \<Rightarrow> byte list \<Rightarrow> shm" where
  "shm_init h garbage =
     \<lparr>shm_state = State_None, shm_file = h, sh_version = 3007000, sh_maxFrame = - 1,
      sh_salt = garbage, sh_backfill = 0\<rparr>"

record wal =
  wal_state :: init_state
  wal_file :: fh
  wal_fileSize :: nat
  wal_truncate :: u32
  wal_nbackfill :: int
  wal_maxFrame :: int
  wal_isNativeChecksum :: bool
  wal_salt :: salt
  wal_shmLegality :: bool
  wal_shm :: shm
  wal_pages2Frames :: "(int \<times> int) list"
  wal_disposedPages :: "int list"
  wal_pageSize :: int
  wal_path :: string
  wal_error :: werror
  wal_thread :: werror
  wal_bigEndian :: bool

definition wal_init :: "bool \<Rightarrow> string \<Rightarrow> fh \<Rightarrow> int \<Rightarrow> fh \<Rightarrow> byte list \<Rightarrow> wal" where
  "wal_init big path file garbage_nbackfill shm garbage_salt =
     \<lparr>wal_state = State_None, wal_file = file, wal_fileSize = 0, wal_truncate = - 1,
      wal_nbackfill = garbage_nbackfill, wal_maxFrame = 0, wal_isNativeChecksum = False, wal_salt = (0, 0),
      wal_shmLegality = True, wal_shm = shm_init shm garbage_salt, wal_pages2Frames = [],
      wal_disposedPages = [], wal_pageSize = - 1, wal_path = path, wal_error = error_init,
      wal_thread = error_init, wal_bigEndian = big\<rparr>"

text \<open>\<open>assignWithSharedThreadedError\<close> moves the error out of the slot.\<close>

definition wal_assign :: "wal \<Rightarrow> wal" where
  "wal_assign w = w\<lparr>wal_error := wal_thread w, wal_thread := error_init\<rparr>"

definition repair_error :: "string \<Rightarrow> string \<Rightarrow> werror" where
  "repair_error path message =
     insert_or_assign ''AssociatePath'' (Info_Text path)
       (insert_or_assign ''Source'' (Info_Text ''Repair'') (make_error Code_Corrupt Level_Notice message))"

definition wal_markAsCorrupted :: "int \<Rightarrow> string \<Rightarrow> wal \<Rightarrow> wal" where
  "wal_markAsCorrupted frame message w =
     w\<lparr>wal_error := insert_or_assign ''Frame'' (Info_Int frame) (repair_error (wal_path w) message)\<rparr>"

definition shm_markAsCorrupted :: "string \<Rightarrow> wal \<Rightarrow> wal" where
  "shm_markAsCorrupted message w = w\<lparr>wal_error := repair_error (wal_path w) message\<rparr>"

text \<open>A word in the byte order of the host, and the reads of the big-endian salt.\<close>

definition be_word :: "byte list \<Rightarrow> u32" where
  "be_word bs = push_bit 24 (ucast (bs ! 0)) OR push_bit 16 (ucast (bs ! 1))
     OR push_bit 8 (ucast (bs ! 2)) OR ucast (bs ! 3)"

definition host_word :: "bool \<Rightarrow> byte list \<Rightarrow> u32" where
  "host_word big bs = (if big then be_word bs else be_word (rev (take 4 bs)))"

definition shm_getSalt :: "shm \<Rightarrow> salt" where
  "shm_getSalt s = (be_word (sh_salt s), be_word (drop 4 (sh_salt s)))"

section \<open>Shm\<close>

text \<open>\<open>header_size = sizeof(Header)\<close> is 48; the fields are at their offsets in the struct.\<close>

definition shm_doInitialize :: "wal \<Rightarrow> (bool \<times> wal) option" where
  "shm_doInitialize w =
     (let s = wal_shm w;
          (fileSize, h) = getFileSize ((shm_file s)\<lparr>fh_error := wal_thread w\<rparr>);
          w = w\<lparr>wal_shm := s\<lparr>shm_file := h\<rparr>, wal_thread := fh_error h\<rparr>
      in case fileSize of
        None \<Rightarrow> Some (False, wal_assign w)
      | Some fileSize \<Rightarrow>
          if fileSize = 0 then Some (True, w)
          else
            let (ok, h) = fh_open Mode_ReadOnly h;
                w = w\<lparr>wal_shm := s\<lparr>shm_file := h\<rparr>, wal_thread := fh_error h\<rparr>
            in if \<not> ok then Some (False, wal_assign w)
               else if fileSize < 48
               then Some (False, shm_markAsCorrupted ''File size: %lu is not enough for header.'' w)
               else do {
                 (data, h) \<leftarrow> fh_map 0 136 h;
                 let w = w\<lparr>wal_shm := s\<lparr>shm_file := h\<rparr>, wal_thread := fh_error h\<rparr>;
                 if ud_size data \<noteq> 136
                 then Some (False,
                   if ud_size data > 0
                   then shm_markAsCorrupted ''Acquired shm data with size: %d is less than the expected size: %d.'' w
                   else wal_assign w)
                 else do {
                   bs \<leftarrow> ud_read data 0 48;
                   let s = (wal_shm w)\<lparr>sh_version := host_word (wal_bigEndian w) bs,
                            sh_maxFrame := host_word (wal_bigEndian w) (drop 16 bs),
                            sh_salt := take 8 (drop 32 bs)\<rparr>;
                   let w = w\<lparr>wal_shm := s\<rparr>;
                   if sh_version s \<noteq> 3007000 then Some (False, shm_markAsCorrupted ''Shm version: %u is illegal.'' w)
                   else do {
                     info \<leftarrow> ud_read data 96 40;
                     Some (True, w\<lparr>wal_shm := s\<lparr>sh_backfill := host_word (wal_bigEndian w) info\<rparr>\<rparr>)
                   }
                 }
               })"

definition shm_initialize :: "wal \<Rightarrow> (bool \<times> wal) option" where
  "shm_initialize = initialize (\<lambda>w. shm_state (wal_shm w))
     (\<lambda>x w. w\<lparr>wal_shm := (wal_shm w)\<lparr>shm_state := x\<rparr>\<rparr>) shm_doInitialize"

section \<open>Wal: data and checksums\<close>

definition wal_getFrameSize :: "wal \<Rightarrow> int" where
  "wal_getFrameSize w = 24 + wal_pageSize w"

definition wal_acquireData :: "int \<Rightarrow> nat \<Rightarrow> wal \<Rightarrow> (udata \<times> wal) option" where
  "wal_acquireData offset n w = do {
     (data, h) \<leftarrow> fh_map offset n ((wal_file w)\<lparr>fh_error := wal_thread w\<rparr>);
     let w = w\<lparr>wal_file := h, wal_thread := fh_error h\<rparr>;
     if ud_size data \<noteq> n
     then Some (ud_null,
       if ud_size data > 0
       then wal_markAsCorrupted (narrow32 ((offset - 32) sdiv wal_getFrameSize w + 1))
              ''Acquired wal data with size: %d is less than the expected size: %d.'' w
       else wal_assign w)
     else Some (data, w)
   }"

definition wal_containsPage :: "int \<Rightarrow> wal \<Rightarrow> bool" where
  "wal_containsPage pageno w \<longleftrightarrow> map_of (wal_pages2Frames w) pageno \<noteq> None"

text \<open>\<open>m_pages2Frames[pageno]\<close> is 0 for a page that is not there.  The sum is an \<open>int\<close> up to the offset.\<close>

definition wal_acquirePageData_part :: "int \<Rightarrow> int \<Rightarrow> nat \<Rightarrow> wal \<Rightarrow> (udata \<times> wal) option" where
  "wal_acquirePageData_part pageno offset n w = do {
     let frameno = (case map_of (wal_pages2Frames w) pageno of None \<Rightarrow> 0 | Some f \<Rightarrow> f);
     x \<leftarrow> c_int (wal_getFrameSize w * (frameno - 1));
     x \<leftarrow> c_int (32 + x);
     x \<leftarrow> c_int (x + 24);
     wal_acquireData (x + offset) n w
   }"

definition wal_acquirePageData :: "int \<Rightarrow> wal \<Rightarrow> (udata \<times> wal) option" where
  "wal_acquirePageData pageno w = wal_acquirePageData_part pageno 0 (to_size (wal_pageSize w)) w"

definition wal_getMaxPageno :: "wal \<Rightarrow> int" where
  "wal_getMaxPageno w = (if wal_pages2Frames w = [] then 0 else fst (last (wal_pages2Frames w)))"

definition isCheckpointIncreasedSalt :: "salt \<Rightarrow> salt \<Rightarrow> bool" where
  "isCheckpointIncreasedSalt before after \<longleftrightarrow> fst before + 1 = fst after \<and> snd before \<noteq> snd after"

definition wal_acquireFrameData :: "int \<Rightarrow> wal \<Rightarrow> (udata \<times> wal) option" where
  "wal_acquireFrameData frameno w = do {
     x \<leftarrow> c_int (wal_getFrameSize w * (frameno - 1));
     x \<leftarrow> c_int (32 + x);
     wal_acquireData x (to_size (wal_getFrameSize w)) w
   }"

definition BYTESWAP32 :: "u32 \<Rightarrow> u32" where
  "BYTESWAP32 x = push_bit 24 (x AND 0x000000FF) + push_bit 8 (x AND 0x0000FF00)
     + drop_bit 8 (x AND 0x00FF0000) + drop_bit 24 (x AND 0xFF000000)"

text \<open>The two loops of \<open>calculateChecksum\<close> run over pairs of words; a tail of less than two words is not read.\<close>

fun checksum_native :: "bool \<Rightarrow> byte list \<Rightarrow> checksum \<Rightarrow> checksum option" where
  "checksum_native big bs (s1, s2) =
     (if length bs < 8 then None
      else let s1 = s1 + (host_word big bs + s2);
               s2 = s2 + (host_word big (drop 4 bs) + s1)
           in if length bs = 8 then Some (s1, s2) else checksum_native big (drop 8 bs) (s1, s2))"

fun checksum_swapped :: "bool \<Rightarrow> byte list \<Rightarrow> checksum \<Rightarrow> checksum option" where
  "checksum_swapped big bs (s1, s2) =
     (if length bs < 8 then None
      else let s1 = s1 + (BYTESWAP32 (host_word big bs) + s2);
               s2 = s2 + (BYTESWAP32 (host_word big (drop 4 bs)) + s1)
           in if length bs = 8 then Some (s1, s2) else checksum_swapped big (drop 8 bs) (s1, s2))"

definition wal_calculateChecksum :: "udata \<Rightarrow> checksum \<Rightarrow> wal \<Rightarrow> checksum option" where
  "wal_calculateChecksum data checksum w = do {
     bs \<leftarrow> ud_read data 0 (ud_size data);
     if wal_isNativeChecksum w then checksum_native (wal_bigEndian w) bs checksum
     else checksum_swapped (wal_bigEndian w) bs checksum
   }"

section \<open>Frame\<close>

record frame =
  fr_state :: init_state
  fr_frameno :: int
  fr_checksum :: checksum
  fr_pageno :: int
  fr_truncate :: u32
  fr_data :: udata

definition frame_init :: "int \<Rightarrow> frame" where
  "frame_init frameno = \<lparr>fr_state = State_None, fr_frameno = frameno, fr_checksum = (0, 0), fr_pageno = 0,
     fr_truncate = 0, fr_data = ud_null\<rparr>"

definition frame_doInitialize :: "frame \<times> wal \<Rightarrow> (bool \<times> frame \<times> wal) option" where
  "frame_doInitialize fw = do {
     let (f, w) = fw;
     (f, w) \<leftarrow> (if ud_empty (fr_data f) then do {
                  (data, w) \<leftarrow> wal_acquireFrameData (fr_frameno f) w;
                  Some (f\<lparr>fr_data := data\<rparr>, w)
                } else Some (f, w));
     if ud_empty (fr_data f) then Some (False, f, w)
     else do {
       let r = ds_init (fr_data f);
       (pageno, r) \<leftarrow> advance4BytesUInt r;
       (truncate, r) \<leftarrow> advance4BytesUInt r;
       let f = f\<lparr>fr_pageno := sint pageno, fr_truncate := truncate\<rparr>;
       (salt1, r) \<leftarrow> advance4BytesUInt r;
       (salt2, r) \<leftarrow> advance4BytesUInt r;
       if (salt1, salt2) \<noteq> wal_salt w
       then Some (False, f, wal_markAsCorrupted (fr_frameno f) ''Mismatched frame salt: %u, %u to %u, %u.'' w)
       else do {
         (c1, r) \<leftarrow> advance4BytesUInt r;
         (c2, r) \<leftarrow> advance4BytesUInt r;
         Some (True, f\<lparr>fr_checksum := (c1, c2)\<rparr>, w)
       }
     }
   }"

definition frame_initialize :: "frame \<times> wal \<Rightarrow> (bool \<times> frame \<times> wal) option" where
  "frame_initialize = initialize (\<lambda>(f, w). fr_state f) (\<lambda>x (f, w). (f\<lparr>fr_state := x\<rparr>, w)) frame_doInitialize"

definition frame_calculateChecksum :: "checksum \<Rightarrow> frame \<Rightarrow> wal \<Rightarrow> checksum option" where
  "frame_calculateChecksum checksum f w = do {
     checksum \<leftarrow> wal_calculateChecksum (ud_subdata (fr_data f) 0 8) checksum w;
     wal_calculateChecksum (ud_subdata (fr_data f) 24 (to_size (wal_pageSize w))) checksum w
   }"

section \<open>Wal: the index\<close>

definition wal_dispose :: "wal \<Rightarrow> wal" where
  "wal_dispose w =
     w\<lparr>wal_disposedPages := fold insort_insert (map fst (wal_pages2Frames w)) (wal_disposedPages w),
       wal_pages2Frames := [], wal_truncate := - 1, wal_fileSize := 0, wal_maxFrame := 0, wal_salt := (0, 0)\<rparr>"

text \<open>The loop over the frames, from \<open>frameno\<close>, with \<open>n\<close> frames left up to \<open>maxWalFrame\<close>.\<close>

primrec wal_frames ::
  "nat \<Rightarrow> int \<Rightarrow> checksum \<Rightarrow> (int \<times> int) list \<Rightarrow> wal \<Rightarrow> (bool \<times> (int \<times> int) list \<times> wal) option" where
  "wal_frames 0 frameno checksum committed w = Some (True, committed, w)"
| "wal_frames (Suc n) frameno checksum committed w = do {
     (ok, f, w) \<leftarrow> frame_initialize (frame_init frameno, w);
     if \<not> ok then Some (False, committed, wal_dispose w)
     else do {
       checksum \<leftarrow> frame_calculateChecksum checksum f w;
       if checksum \<noteq> fr_checksum f
       then if wal_shmLegality w
            then Some (False, committed,
                   wal_markAsCorrupted frameno ''Mismatched frame checksum: %u, %u to %u, %u.'' w)
            else Some (True, committed, w)
       else
         let committed = om_put (fr_pageno f) frameno committed
         in if fr_truncate f \<noteq> 0
            then wal_frames n (frameno + 1) (fr_checksum f) []
                   (w\<lparr>wal_truncate := fr_truncate f, wal_maxFrame := frameno,
                      wal_pages2Frames := fold (\<lambda>(p, i). om_put p i) committed (wal_pages2Frames w)\<rparr>)
            else wal_frames n (frameno + 1) (fr_checksum f) committed w
     }
   }"

text \<open>The part of \<open>doInitialize\<close> after the header was read, with the reader behind the salt.\<close>

definition wal_load :: "udata \<Rightarrow> deserialization \<Rightarrow> int \<Rightarrow> wal \<Rightarrow> (bool \<times> wal) option" where
  "wal_load data r maxWalFrame w = do {
     checksum \<leftarrow> wal_calculateChecksum (ud_subdata_prefix data 24) (0, 0) w;
     (c1, r) \<leftarrow> advance4BytesUInt r;
     (c2, r) \<leftarrow> advance4BytesUInt r;
     if checksum \<noteq> (c1, c2)
     then Some (False, wal_markAsCorrupted 0 ''Mismatched wal checksum: %u, %u to %u, %u.'' w)
     else do {
       (ok, checksum, w) \<leftarrow>
         (if wal_nbackfill w > 0 then do {
            (ok, f, w) \<leftarrow> frame_initialize (frame_init (wal_nbackfill w), w);
            if \<not> ok then Some (False, checksum, wal_dispose w) else Some (True, fr_checksum f, w)
          } else Some (True, checksum, w));
       if \<not> ok then Some (False, w)
       else do {
         (ok, committed, w) \<leftarrow>
           wal_frames (nat (maxWalFrame - wal_nbackfill w)) (wal_nbackfill w + 1) checksum [] w;
         if \<not> ok then Some (False, w)
         else Some (True, w\<lparr>wal_disposedPages := fold insort_insert (map fst committed) (wal_disposedPages w)\<rparr>)
       }
     }
   }"

text \<open>The choice of the frames to load: what the shared memory said is used if the salt agrees.\<close>

definition wal_select :: "udata \<Rightarrow> deserialization \<Rightarrow> salt \<Rightarrow> int \<Rightarrow> wal \<Rightarrow> (bool \<times> wal) option" where
  "wal_select data r salt maxWalFrame w = do {
     let restart = (wal_salt w \<noteq> (0, 0) \<and> wal_salt w \<noteq> salt
                    \<and> \<not> (isCheckpointIncreasedSalt (wal_salt w) salt \<and> wal_nbackfill w > 0));
     let maxWalFrame = (if restart then 2147483647 else maxWalFrame);
     let w = w\<lparr>wal_nbackfill := (if restart then 0 else wal_nbackfill w), wal_salt := salt\<rparr>;
     x \<leftarrow> c_int (narrow32 (int (wal_fileSize w)) - 32);
     let maxWalFrame = min (x sdiv wal_getFrameSize w) maxWalFrame;
     if wal_nbackfill w \<ge> maxWalFrame then Some (True, w)
     else wal_load data r maxWalFrame w
   }"

text \<open>The part after the log was opened.\<close>

definition wal_header :: "int \<Rightarrow> wal \<Rightarrow> (bool \<times> wal) option" where
  "wal_header maxWalFrame w = do {
     (data, w) \<leftarrow> wal_acquireData 0 32 w;
     if ud_empty data then Some (False, w)
     else do {
       (magic, r) \<leftarrow> advance4BytesUInt (ds_init data);
       if magic AND 0xFFFFFFFE \<noteq> 0x377F0682
       then Some (False, wal_markAsCorrupted 0 ''Incorrect wal magic: 0x%x.'' w)
       else do {
         let w = w\<lparr>wal_isNativeChecksum := (bit magic 0 \<longleftrightarrow> wal_bigEndian w)\<rparr>;
         (salt1, r) \<leftarrow> advance4BytesUInt (ds_seek 16 r);
         (salt2, r) \<leftarrow> advance4BytesUInt r;
         wal_select data r (salt1, salt2) maxWalFrame w
       }
     }
   }"

definition wal_doInitialize :: "wal \<Rightarrow> (bool \<times> wal) option" where
  "wal_doInitialize w = do {
     (ok, w) \<leftarrow> (if wal_shmLegality w then shm_initialize w else Some (True, w));
     if \<not> ok then Some (False, w)
     else
       let s = wal_shm w;
           maxWalFrame = (if wal_shmLegality w then sint (sh_maxFrame s) else 2147483647);
           w = (if wal_shmLegality w
                then w\<lparr>wal_nbackfill := sint (sh_backfill s), wal_salt := shm_getSalt s\<rparr> else w);
           (fileSize, h) = getFileSize ((wal_file w)\<lparr>fh_error := wal_thread w\<rparr>);
           w = w\<lparr>wal_file := h, wal_thread := fh_error h\<rparr>
       in case fileSize of
         None \<Rightarrow> Some (False, wal_assign w)
       | Some fileSize \<Rightarrow>
           let w = w\<lparr>wal_fileSize := fileSize\<rparr>
           in if fileSize = 0 then Some (True, w)
              else let (ok, h) = fh_open Mode_ReadOnly (wal_file w);
                       w = w\<lparr>wal_file := h, wal_thread := fh_error h\<rparr>
                   in if \<not> ok then Some (False, wal_assign w) else wal_header maxWalFrame w
   }"

definition wal_initialize :: "wal \<Rightarrow> (bool \<times> wal) option" where
  "wal_initialize = initialize wal_state (\<lambda>x w. w\<lparr>wal_state := x\<rparr>) wal_doInitialize"

definition wal_getNumberOfFrames :: "wal \<Rightarrow> int" where
  "wal_getNumberOfFrames w = int (length (wal_pages2Frames w))"

definition wal_getDisposedPages :: "wal \<Rightarrow> int" where
  "wal_getDisposedPages w = int (length (wal_disposedPages w))"

definition wal_getNBackFill :: "wal \<Rightarrow> int" where
  "wal_getNBackFill w = sint (sh_backfill (wal_shm w))"

definition wal_setShmLegality :: "bool \<Rightarrow> wal \<Rightarrow> wal" where
  "wal_setShmLegality flag w = w\<lparr>wal_shmLegality := flag\<rparr>"

definition wal_setNBackFill :: "int \<Rightarrow> wal \<Rightarrow> wal" where
  "wal_setNBackFill n w = w\<lparr>wal_nbackfill := n\<rparr>"

definition wal_setSalt :: "salt \<Rightarrow> wal \<Rightarrow> wal" where
  "wal_setSalt salt w = w\<lparr>wal_salt := salt\<rparr>"

declare checksum_native.simps [simp del] checksum_swapped.simps [simp del]

end
