(* ===== verification/WCDB_WalFrames.thy ===== *)
theory WCDB_WalFrames
  imports WCDB_Wal
begin

unbundle bit_operations_syntax

text \<open>
  The frames of the write-ahead log: the checksum against its definition in the file format,
  and what \<open>acquireData\<close>, \<open>Frame::initialize\<close> and \<open>Frame::calculateChecksum\<close> give for a
  frame that lies in the file.
\<close>

section \<open>Checksums\<close>

lemma bit_0xff: "bit (0xff :: int) n \<longleftrightarrow> n < 8"
proof -
  have "(0xff :: int) = mask 8" by (simp add: mask_eq_exp_minus_1)
  then show ?thesis by (simp only: bit_mask_iff) auto
qed

lemma bit_byte_masks:
  "bit (0xff :: int) n \<longleftrightarrow> n < 8" "bit (0xff00 :: int) n \<longleftrightarrow> 8 \<le> n \<and> n < 16"
  "bit (0xff0000 :: int) n \<longleftrightarrow> 16 \<le> n \<and> n < 24" "bit (0xff000000 :: int) n \<longleftrightarrow> 24 \<le> n \<and> n < 32"
proof -
  have "(0xff00 :: int) = push_bit 8 0xff" "(0xff0000 :: int) = push_bit 16 0xff" "(0xff000000 :: int) = push_bit 24 0xff"
    by simp_all
  then show "bit (0xff00 :: int) n \<longleftrightarrow> 8 \<le> n \<and> n < 16" "bit (0xff0000 :: int) n \<longleftrightarrow> 16 \<le> n \<and> n < 24"
    "bit (0xff000000 :: int) n \<longleftrightarrow> 24 \<le> n \<and> n < 32"
    by (auto simp only: bit_push_bit_iff bit_0xff possible_bit_int)
qed (rule bit_0xff)

lemma add_as_or: "(a :: u32) AND b = 0 \<Longrightarrow> a + b = a OR b"
  using disjunctive_add [of a b] by (metis bit_and_iff bit_0_eq bot_apply bot_boolE)

lemma BYTESWAP32_or:
  "BYTESWAP32 x = push_bit 24 (x AND 0x000000FF) OR push_bit 8 (x AND 0x0000FF00)
     OR drop_bit 8 (x AND 0x00FF0000) OR drop_bit 24 (x AND 0xFF000000)"
  unfolding BYTESWAP32_def
  apply (subst add_as_or, (rule bit_word_eqI, auto simp: bit_simps bit_byte_masks simp del: push_bit_numeral)[1])+
  apply (simp only: or.assoc)
  done

lemma be_word_4: "be_word (a # b # c # d # rest) = push_bit 24 (ucast a) OR push_bit 16 (ucast b)
     OR push_bit 8 (ucast c) OR ucast d"
  by (simp add: be_word_def numeral_eq_Suc del: push_bit_numeral)

lemma BYTESWAP32_be_word:
  "BYTESWAP32 (be_word [a, b, c, d]) = be_word [d, c, b, a]"
proof (rule bit_word_eqI)
  fix n assume "n < LENGTH(32)"
  then consider "n < 8" | "8 \<le> n" "n < 16" | "16 \<le> n" "n < 24" | "24 \<le> n" "n < 32" by fastforce
  then show "bit (BYTESWAP32 (be_word [a, b, c, d])) n = bit (be_word [d, c, b, a]) n"
    unfolding BYTESWAP32_or be_word_4
    by cases (simp add: bit_simps bit_byte_masks bit_byte_ge_8 del: push_bit_numeral; (auto dest: bit_imp_le_length)?)+
qed

text \<open>
  The reference: SQLite's file format defines the checksum on 32-bit words that are big-endian
  iff the low bit of the magic number is set, whatever the host is.
\<close>

definition file_word :: "bool \<Rightarrow> byte list \<Rightarrow> u32" where
  "file_word be bs = (if be then be_word bs else be_word (rev (take 4 bs)))"

fun checksum_ref :: "bool \<Rightarrow> byte list \<Rightarrow> checksum \<Rightarrow> checksum" where
  "checksum_ref be (a # b # c # d # e # f # g # h # rest) (s1, s2) =
     (let s1 = s1 + file_word be [a, b, c, d] + s2; s2 = s2 + file_word be [e, f, g, h] + s1
      in checksum_ref be rest (s1, s2))"
| "checksum_ref be bs s = s"

lemma file_word_4: "file_word be (a # b # c # d # rest) = file_word be [a, b, c, d]"
  by (simp add: file_word_def be_word_4)

lemma host_word_file: "host_word big bs = file_word big bs"
  by (simp add: host_word_def file_word_def)

lemma BYTESWAP32_file: "BYTESWAP32 (file_word be [a, b, c, d]) = file_word (\<not> be) [a, b, c, d]"
  by (simp add: file_word_def BYTESWAP32_be_word)

lemma bytes_8E:
  assumes "length bs = 8 * Suc k"
  obtains a b c d e f g h rest where "bs = a # b # c # d # e # f # g # h # rest" "length rest = 8 * k"
  using assms by (auto simp: numeral_eq_Suc length_Suc_conv)

lemma checksum_native_ref:
  "length bs = 8 * Suc k \<Longrightarrow> checksum_native big bs s = Some (checksum_ref big bs s)"
proof (induction k arbitrary: bs s)
  case 0
  obtain a b c d e f g h where "bs = [a, b, c, d, e, f, g, h]" using 0 by (rule bytes_8E) auto
  then show ?case by (cases s) (simp add: checksum_native.simps host_word_file file_word_4 [of _ _ _ _ _ "_ # _"] Let_def add.assoc)
next
  case (Suc k)
  obtain a b c d e f g h rest where bs: "bs = a # b # c # d # e # f # g # h # rest" "length rest = 8 * Suc k"
    using Suc.prems by (rule bytes_8E)
  obtain s1 s2 where s: "s = (s1, s2)" by (cases s)
  show ?case unfolding bs(1) s using Suc.IH [OF bs(2)] bs(2)
    by (subst checksum_native.simps) (simp add: host_word_file file_word_4 [of _ _ _ _ _ "_ # _"] file_word_4 [of _ _ _ _ _ rest] Let_def add.assoc)
qed

lemma checksum_swapped_ref:
  "length bs = 8 * Suc k \<Longrightarrow> checksum_swapped big bs s = Some (checksum_ref (\<not> big) bs s)"
proof (induction k arbitrary: bs s)
  case 0
  obtain a b c d e f g h where "bs = [a, b, c, d, e, f, g, h]" using 0 by (rule bytes_8E) auto
  then show ?case by (cases s) (simp add: checksum_swapped.simps host_word_file file_word_4 [of _ _ _ _ _ "_ # _"] BYTESWAP32_file Let_def add.assoc)
next
  case (Suc k)
  obtain a b c d e f g h rest where bs: "bs = a # b # c # d # e # f # g # h # rest" "length rest = 8 * Suc k"
    using Suc.prems by (rule bytes_8E)
  obtain s1 s2 where s: "s = (s1, s2)" by (cases s)
  show ?case unfolding bs(1) s using Suc.IH [OF bs(2)] bs(2)
    by (subst checksum_swapped.simps) (simp add: host_word_file file_word_4 [of _ _ _ _ _ "_ # _"] file_word_4 [of _ _ _ _ _ rest] BYTESWAP32_file Let_def add.assoc)
qed

text \<open>The words of the log are big-endian iff the checksum is native on a big-endian host or swapped on another.\<close>

definition wal_be :: "wal \<Rightarrow> bool" where
  "wal_be w \<longleftrightarrow> (wal_isNativeChecksum w \<longleftrightarrow> wal_bigEndian w)"

lemma wal_calculateChecksum_ref:
  assumes "view_ok d" "8 dvd ud_size d" "0 < ud_size d"
  shows "wal_calculateChecksum d s w = Some (checksum_ref (wal_be w) (ud_bytes d) s)"
proof -
  obtain j where "ud_size d = 8 * j" using assms(2) by (auto simp: dvd_def)
  then obtain k where "ud_size d = 8 * Suc k" using assms(3) by (cases j) auto
  then have "length (ud_bytes d) = 8 * Suc k" using assms(1) by (simp add: length_ud_bytes)
  then show ?thesis using assms(1)
    by (simp add: wal_calculateChecksum_def ud_read_in_view wal_be_def length_ud_bytes checksum_native_ref [of _ k] checksum_swapped_ref [of _ k])
qed

section \<open>Reading frames\<close>

text \<open>A handle on a file that can be measured: the size is known, or asking for it succeeds.\<close>

definition fh_sound :: "fh \<Rightarrow> bool" where
  "fh_sound h \<longleftrightarrow> fh_mode h = Mode_ReadOnly \<and> length (fh_content h) < 1152921504606846976 \<and>
     0 < sys_pagesize (fh_sys h) \<and> sys_pagesize (fh_sys h) < 1152921504606846976 \<and>
     (fh_fileSize h = int (length (fh_content h)) \<or>
      fh_fileSize h < 0 \<and> fh_file h \<noteq> None \<and> (\<forall>t. sys_stat (fh_sys h) t)) \<and>
     progresses (sys_read (fh_sys h)) (sys_errno (fh_sys h)) \<and> malloc_ok (sys_malloc (fh_sys h))"

lemma fh_sound_size:
  assumes "fh_sound h"
  obtains h1 where "fh_size h = (int (length (fh_content h)), h1)" "fh_ok h1" "fh_content h1 = fh_content h" "fh_sys h1 = fh_sys h"
    "fh_size h1 = fh_size h"
proof (cases "fh_fileSize h < 0")
  case True
  let ?h1 = "h\<lparr>fh_tick := Suc (fh_tick h), fh_fileSize := int (length (fh_content h))\<rparr>"
  have st: "fh_mode h = Mode_ReadOnly" "fh_file h \<noteq> None" "sys_stat (fh_sys h) (fh_tick h)"
    using assms True by (auto simp: fh_sound_def)
  have c: "fh_content ?h1 = fh_content h" by (simp add: fh_content_def)
  have "fh_content (h\<lparr>fh_tick := Suc (fh_tick h)\<rparr>) = fh_content h" by (simp add: fh_content_def)
  then have size: "fh_size h = (int (length (fh_content h)), ?h1)"
    using st True by (simp add: fh_size_def getFileSize_def Let_def)
  show ?thesis
  proof (rule that [OF size])
    show ok: "fh_ok ?h1" using assms by (simp add: fh_ok_def fh_sound_def c)
    show "fh_size ?h1 = fh_size h" using fh_size_ok [OF ok] by (simp add: size c)
  qed (simp_all add: c)
next
  case False
  then have ok: "fh_ok h" using assms by (auto simp: fh_sound_def fh_ok_def)
  show ?thesis by (rule that [OF fh_size_ok [OF ok] ok]) simp_all
qed

lemma fh_ok_sound:
  "fh_ok h \<Longrightarrow> progresses (sys_read (fh_sys h)) (sys_errno (fh_sys h)) \<Longrightarrow> malloc_ok (sys_malloc (fh_sys h)) \<Longrightarrow> fh_sound h"
  by (simp add: fh_ok_def fh_sound_def)

lemma fh_sound_error [simp]: "fh_sound (h\<lparr>fh_error := e\<rparr>) = fh_sound h" "fh_content (h\<lparr>fh_error := e\<rparr>) = fh_content h"
  by (simp_all add: fh_sound_def fh_content_def)

lemma fh_map_sound:
  assumes "fh_sound h" "0 \<le> offset" "offset + int n \<le> int (length (fh_content h))" "0 < n"
  obtains d h' where "fh_map offset n h = Some (d, h')" "fh_sound h'" "fh_content h' = fh_content h" "fh_sys h' = fh_sys h"
    "d = ud_null \<or> view_ok d \<and> ud_bytes d = take n (drop (nat offset) (fh_content h))"
proof -
  obtain h1 where h1: "fh_size h = (int (length (fh_content h)), h1)" "fh_ok h1" "fh_content h1 = fh_content h" "fh_sys h1 = fh_sys h"
    "fh_size h1 = fh_size h"
    using assms(1) by (rule fh_sound_size)
  have eq: "fh_map offset n h = fh_map offset n h1"
    using assms(1) h1(2) by (simp add: fh_map_def h1(5) fh_sound_def fh_ok_def)
  have live: "progresses (sys_read (fh_sys h1)) (sys_errno (fh_sys h1))" "malloc_ok (sys_malloc (fh_sys h1))"
    using assms(1) by (simp_all add: fh_sound_def h1)
  obtain d h' where m: "fh_map offset n h1 = Some (d, h')" using live h1(2) by (rule fh_map_total)
  note c = fh_map_cases [OF h1(2) m]
  have "d = ud_null \<or> view_ok d \<and> ud_bytes d = take n (drop (nat offset) (fh_content h))"
    using c fh_mapped_content [of "sys_pagesize (fh_sys h)" offset "fh_content h" n] assms
    by (auto simp: h1 fh_sound_def)
  then show ?thesis using c m live by (intro that [of d h']) (auto simp: eq h1 intro!: fh_ok_sound)
qed

lemma ud_bytes_null [simp]: "ud_bytes ud_null = []" "ud_size ud_null = 0"
  by (simp_all add: ud_bytes_def ud_null_def)

text \<open>\<open>acquireData\<close> touches the handle and the errors only.\<close>

definition wal_with :: "wal \<Rightarrow> fh \<times> werror \<times> werror \<Rightarrow> wal" where
  "wal_with w x = w\<lparr>wal_file := fst x, wal_error := fst (snd x), wal_thread := snd (snd x)\<rparr>"

lemma wal_with_simps [simp]:
  "wal_file (wal_with w x) = fst x" "wal_state (wal_with w x) = wal_state w" "wal_fileSize (wal_with w x) = wal_fileSize w"
  "wal_truncate (wal_with w x) = wal_truncate w" "wal_nbackfill (wal_with w x) = wal_nbackfill w"
  "wal_maxFrame (wal_with w x) = wal_maxFrame w" "wal_isNativeChecksum (wal_with w x) = wal_isNativeChecksum w"
  "wal_salt (wal_with w x) = wal_salt w" "wal_shmLegality (wal_with w x) = wal_shmLegality w"
  "wal_pages2Frames (wal_with w x) = wal_pages2Frames w" "wal_disposedPages (wal_with w x) = wal_disposedPages w"
  "wal_pageSize (wal_with w x) = wal_pageSize w" "wal_bigEndian (wal_with w x) = wal_bigEndian w"
  "wal_shm (wal_with w x) = wal_shm w" "wal_be (wal_with w x) = wal_be w"
  by (simp_all add: wal_with_def wal_be_def)

lemma wal_with_self: "w = wal_with w (wal_file w, wal_error w, wal_thread w)"
  by (simp add: wal_with_def)

lemma wal_with_with [simp]: "wal_with (wal_with w x) y = wal_with w y"
  by (simp add: wal_with_def)

lemma wal_mark_with:
  "wal_markAsCorrupted k m w =
     wal_with w (wal_file w, insert_or_assign ''Frame'' (Info_Int k) (repair_error (wal_path w) m), wal_thread w)"
  by (simp add: wal_with_def wal_markAsCorrupted_def)

definition wal_bytes :: "wal \<Rightarrow> byte list" where
  "wal_bytes w = fh_content (wal_file w)"

lemma wal_acquireData_cases:
  assumes "fh_sound (wal_file w)" "0 \<le> offset" "offset + int n \<le> int (length (wal_bytes w))" "0 < n"
  obtains d x where "wal_acquireData offset n w = Some (d, wal_with w x)" "fh_sound (fst x)" "fh_content (fst x) = wal_bytes w"
    "d = ud_null \<or> view_ok d \<and> ud_bytes d = take n (drop (nat offset) (wal_bytes w)) \<and> ud_size d = n"
proof -
  obtain d h' where m: "fh_map offset n ((wal_file w)\<lparr>fh_error := wal_thread w\<rparr>) = Some (d, h')" "fh_sound h'"
    "fh_content h' = wal_bytes w"
    "d = ud_null \<or> view_ok d \<and> ud_bytes d = take n (drop (nat offset) (wal_bytes w))"
    by (rule fh_map_sound [of "(wal_file w)\<lparr>fh_error := wal_thread w\<rparr>" offset n])
      (use assms in \<open>auto simp: wal_bytes_def\<close>)
  show ?thesis
  proof (cases "d = ud_null")
    case True
    show ?thesis using m(2,3) \<open>0 < n\<close>
      by (intro that [of ud_null "(h', fh_error h', error_init)"])
        (simp_all add: wal_acquireData_def m(1) True wal_assign_def wal_with_def)
  next
    case False
    then have "ud_size d = n" using m(4) assms(2,3) length_ud_bytes [of d] by auto
    then show ?thesis using m(2-4) False
      by (intro that [of d "(h', wal_error w, fh_error h')"]) (simp_all add: wal_acquireData_def m(1) wal_with_def)
  qed
qed

text \<open>The frames of a log, and the fields of a frame, as the file format has them.\<close>

definition frame_at :: "byte list \<Rightarrow> nat \<Rightarrow> int \<Rightarrow> byte list" where
  "frame_at content ps k = take (24 + ps) (drop (32 + (24 + ps) * nat (k - 1)) content)"

definition raw_page :: "byte list \<Rightarrow> int" where
  "raw_page bs = sint (be_word bs)"

definition raw_truncate :: "byte list \<Rightarrow> u32" where
  "raw_truncate bs = be_word (drop 4 bs)"

definition raw_salt :: "byte list \<Rightarrow> salt" where
  "raw_salt bs = (be_word (drop 8 bs), be_word (drop 12 bs))"

definition raw_checksum :: "byte list \<Rightarrow> checksum" where
  "raw_checksum bs = (be_word (drop 16 bs), be_word (drop 20 bs))"

definition frame_sum :: "bool \<Rightarrow> byte list \<Rightarrow> checksum \<Rightarrow> checksum" where
  "frame_sum be bs s = checksum_ref be (drop 24 bs) (checksum_ref be (take 8 bs) s)"

lemma be_word_bytes: "4 \<le> length bs \<Longrightarrow> be_word bs = push_bit 24 (ucast (bs ! 0)) OR push_bit 16 (ucast (bs ! 1))
     OR push_bit 8 (ucast (bs ! 2)) OR ucast (bs ! 3)"
  by (simp add: be_word_def)

lemma advance4BytesUInt_word:
  assumes "ds_ok r" "4 \<le> length (remaining r)"
  obtains r' where "advance4BytesUInt r = Some (be_word (remaining r), r')" "ds_ok r'" "remaining r' = drop 4 (remaining r)"
    "ds_data r' = ds_data r" "ds_cursor r' = ds_cursor r + 4"
proof -
  have b: "ud_byte (ds_data r) (ds_cursor r + int i) = Some (remaining r ! i)" if "i < 4" for i
    using assms that ud_byte_in_view [of "ds_data r" "ds_cursor r + int i"] length_remaining [OF assms(1)]
    by (simp add: ds_ok_def remaining_def length_ud_bytes nat_add_distrib)
  have "get4BytesUInt (ds_data r) (ds_cursor r) = Some (be_word (remaining r))"
    using b [of 0] b [of 1] b [of 2] b [of 3] by (simp only: get4BytesUInt_def) (simp add: be_word_def del: push_bit_numeral)
  with assms(1) show ?thesis
    by (rule advance_read_ok [where n = 4]) (use assms(2) in \<open>auto simp: advance4BytesUInt_def intro: that\<close>)
qed

lemma length_frame_at:
  "1 \<le> k \<Longrightarrow> 32 + (24 + ps) * nat k \<le> length content \<Longrightarrow> length (frame_at content ps k) = 24 + ps"
proof -
  assume "1 \<le> k" and le: "32 + (24 + ps) * nat k \<le> length content"
  then have "nat k = Suc (nat (k - 1))" by simp
  then have "(24 + ps) * nat k = (24 + ps) + (24 + ps) * nat (k - 1)" by simp
  with le show ?thesis by (simp add: frame_at_def)
qed

lemma wal_acquireFrameData_cases:
  assumes "fh_sound (wal_file w)" "wal_pageSize w = int ps" "1 \<le> k"
    "32 + (24 + ps) * nat k \<le> length (wal_bytes w)" "32 + (24 + ps) * nat k \<le> 2147483647"
  obtains d x where "wal_acquireFrameData k w = Some (d, wal_with w x)" "fh_sound (fst x)" "fh_content (fst x) = wal_bytes w"
    "d = ud_null \<or> view_ok d \<and> ud_bytes d = frame_at (wal_bytes w) ps k \<and> ud_size d = 24 + ps"
proof -
  have "nat k = Suc (nat (k - 1))" using assms(3) by simp
  then have nk: "(24 + ps) * nat k = (24 + ps) + (24 + ps) * nat (k - 1)" by simp
  have off: "wal_getFrameSize w * (k - 1) = int ((24 + ps) * nat (k - 1))"
    using assms(2,3) by (simp add: wal_getFrameSize_def)
  have le: "(24 + ps) + (24 + ps) * nat (k - 1) \<le> 2147483615" using assms(5) nk by linarith
  have size: "to_size (wal_getFrameSize w) = 24 + ps"
    using le assms(2) by (simp add: wal_getFrameSize_def to_size_nonneg size_max_def nat_add_distrib)
  let ?o = "32 + int ((24 + ps) * nat (k - 1))"
  have eq: "wal_acquireFrameData k w = wal_acquireData ?o (24 + ps) w"
    using le unfolding wal_acquireFrameData_def off size by (simp del: of_nat_mult of_nat_add)
  have ole: "?o + int (24 + ps) \<le> int (length (wal_bytes w))" using assms(4) nk by linarith
  have o0: "0 \<le> ?o" "0 < 24 + ps" by simp_all
  obtain d x where "wal_acquireData ?o (24 + ps) w = Some (d, wal_with w x)" "fh_sound (fst x)" "fh_content (fst x) = wal_bytes w"
    "d = ud_null \<or> view_ok d \<and> ud_bytes d = take (24 + ps) (drop (nat ?o) (wal_bytes w)) \<and> ud_size d = 24 + ps"
    using assms(1) o0(1) ole o0(2) by (rule wal_acquireData_cases)
  then show ?thesis by (intro that [of d x]) (simp_all add: eq frame_at_def nat_add_distrib nat_mult_distrib del: of_nat_mult of_nat_add)
qed

lemma frame_initialize_cases:
  assumes "fh_sound (wal_file w)" "wal_pageSize w = int ps" "1 \<le> k"
    "32 + (24 + ps) * nat k \<le> length (wal_bytes w)" "32 + (24 + ps) * nat k \<le> 2147483647"
  obtains (failed) f x where "frame_initialize (frame_init k, w) = Some (False, f, wal_with w x)"
      "fh_sound (fst x)" "fh_content (fst x) = wal_bytes w"
  | (parsed) f x where "frame_initialize (frame_init k, w) = Some (True, f, wal_with w x)"
      "fh_sound (fst x)" "fh_content (fst x) = wal_bytes w"
      "fr_pageno f = raw_page (frame_at (wal_bytes w) ps k)" "fr_truncate f = raw_truncate (frame_at (wal_bytes w) ps k)"
      "fr_checksum f = raw_checksum (frame_at (wal_bytes w) ps k)" "raw_salt (frame_at (wal_bytes w) ps k) = wal_salt w"
      "view_ok (fr_data f)" "ud_bytes (fr_data f) = frame_at (wal_bytes w) ps k" "ud_size (fr_data f) = 24 + ps"
proof -
  let ?B = "frame_at (wal_bytes w) ps k"
  obtain d x where d: "wal_acquireFrameData k w = Some (d, wal_with w x)" "fh_sound (fst x)" "fh_content (fst x) = wal_bytes w"
    "d = ud_null \<or> view_ok d \<and> ud_bytes d = ?B \<and> ud_size d = 24 + ps"
    using assms by (rule wal_acquireFrameData_cases)
  have len: "length ?B = 24 + ps" using assms(3,4) by (rule length_frame_at)
  note defs = frame_initialize_def initialize_def frame_doInitialize_def frame_init_def Let_def ud_empty_def
  show ?thesis
  proof (cases "d = ud_null")
    case True
    show ?thesis by (rule failed [OF _ d(2,3)]) (simp add: defs d(1) True)
  next
    case False
    with d(4) have v: "view_ok d" "ud_bytes d = ?B" "ud_size d = 24 + ps" by auto
    have r0: "ds_ok (ds_init d)" "remaining (ds_init d) = ?B" using v by (simp_all add: ds_ok_init)
    obtain r1 where r1: "advance4BytesUInt (ds_init d) = Some (be_word ?B, r1)" "ds_ok r1" "remaining r1 = drop 4 ?B"
      using advance4BytesUInt_word [OF r0(1)] r0(2) len by auto
    obtain r2 where r2: "advance4BytesUInt r1 = Some (be_word (drop 4 ?B), r2)" "ds_ok r2" "remaining r2 = drop 8 ?B"
      using advance4BytesUInt_word [OF r1(2)] r1(3) len by auto
    obtain r3 where r3: "advance4BytesUInt r2 = Some (be_word (drop 8 ?B), r3)" "ds_ok r3" "remaining r3 = drop 12 ?B"
      using advance4BytesUInt_word [OF r2(2)] r2(3) len by auto
    obtain r4 where r4: "advance4BytesUInt r3 = Some (be_word (drop 12 ?B), r4)" "ds_ok r4" "remaining r4 = drop 16 ?B"
      using advance4BytesUInt_word [OF r3(2)] r3(3) len by auto
    obtain r5 where r5: "advance4BytesUInt r4 = Some (be_word (drop 16 ?B), r5)" "ds_ok r5" "remaining r5 = drop 20 ?B"
      using advance4BytesUInt_word [OF r4(2)] r4(3) len by auto
    obtain r6 where r6: "advance4BytesUInt r5 = Some (be_word (drop 20 ?B), r6)"
      using advance4BytesUInt_word [OF r5(2)] r5(3) len by auto
    note reads = d(1) r1(1) r2(1) r3(1) r4(1) r5(1) r6
    show ?thesis
    proof (cases "raw_salt ?B = wal_salt w")
      case True
      then have s: "(be_word (drop 8 ?B), be_word (drop 12 ?B)) = wal_salt w" by (simp add: raw_salt_def)
      show ?thesis
        by (rule parsed [OF _ d(2,3), where f = "\<lparr>fr_state = State_Initialized, fr_frameno = k,
            fr_checksum = raw_checksum ?B, fr_pageno = raw_page ?B, fr_truncate = raw_truncate ?B, fr_data = d\<rparr>"])
          (simp_all add: defs reads v True s raw_page_def raw_truncate_def raw_checksum_def)
    next
      case salt: False
      then have s: "(be_word (drop 8 ?B), be_word (drop 12 ?B)) \<noteq> wal_salt w" by (simp add: raw_salt_def)
      show ?thesis
        by (rule failed [where x = "(fst x, insert_or_assign ''Frame'' (Info_Int k)
              (repair_error (wal_path (wal_with w x)) ''Mismatched frame salt: %u, %u to %u, %u.''), wal_thread (wal_with w x))"])
          (simp_all add: defs reads v s d wal_mark_with)
    qed
  qed
qed

lemma subdata_in_view:
  assumes "view_ok d" "0 \<le> offset" "offset + int n \<le> int (ud_size d)"
  shows "view_ok (ud_subdata d offset n)" "ud_size (ud_subdata d offset n) = n"
proof -
  have b: "int (ud_size d) < 4611686018427387904" using view_ok_size_bound [OF assms(1)] by simp
  show v: "view_ok (ud_subdata d offset n)" using assms b by (intro view_ok_subdata) (simp_all add: size_max_def)
  show "ud_size (ud_subdata d offset n) = n"
    using length_ud_bytes [OF v] ud_bytes_subdata [OF assms] length_ud_bytes [OF assms(1)] assms(2,3) by simp
qed

lemma frame_calculateChecksum_ref:
  assumes "view_ok (fr_data f)" "ud_bytes (fr_data f) = B" "ud_size (fr_data f) = 24 + ps" "wal_pageSize w = int ps"
    "8 dvd ps" "0 < ps" "ps \<le> 65536"
  shows "frame_calculateChecksum s f w = Some (frame_sum (wal_be w) B s)"
proof -
  have B: "length B = 24 + ps" using assms(1-3) length_ud_bytes by fastforce
  have ts: "to_size (wal_pageSize w) = ps" using assms(4,7) by (simp add: to_size_nonneg size_max_def)
  have "wal_calculateChecksum (ud_subdata (fr_data f) 0 8) s w = Some (checksum_ref (wal_be w) (take 8 B) s)" for s
    using assms by (subst wal_calculateChecksum_ref) (simp_all add: view_simps subdata_in_view)
  moreover have "wal_calculateChecksum (ud_subdata (fr_data f) 24 ps) s w = Some (checksum_ref (wal_be w) (drop 24 B) s)" for s
    using assms B by (subst wal_calculateChecksum_ref) (simp_all add: view_simps subdata_in_view)
  ultimately show ?thesis by (simp add: frame_calculateChecksum_def ts frame_sum_def)
qed

section \<open>Properties\<close>

text \<open>
  C21: the checksum is portable.  With the flag that \<open>doInitialize\<close> derives from the magic
  number and the byte order of the host, \<open>calculateChecksum\<close> (the native and the byte-swapping
  loop) is the checksum of the file format on every host, and reads nothing but the data.
\<close>

theorem wal_checksum_portable:
  assumes "view_ok d" "8 dvd ud_size d" "0 < ud_size d"
    "wal_isNativeChecksum w \<longleftrightarrow> (bit (magic :: u32) 0 \<longleftrightarrow> wal_bigEndian w)"
  shows "wal_calculateChecksum d s w = Some (checksum_ref (bit magic 0) (ud_bytes d) s)"
proof -
  have "wal_be w = bit magic 0" using assms(4) by (auto simp: wal_be_def)
  then show ?thesis using wal_calculateChecksum_ref [OF assms(1-3)] by simp
qed

definition demo_wal :: "bool \<Rightarrow> byte list \<Rightarrow> wal" where
  "demo_wal big bs = (wal_init big ''a.db'' (demo_fh bs) 0 (demo_fh []) [0, 0, 0, 0, 0, 0, 0, 0])\<lparr>wal_pageSize := 8\<rparr>"

definition demo_words :: udata where
  "demo_words = \<lparr>ud_mem = [1, 0, 0, 0, 2, 0, 0, 0], ud_off = 0, ud_size = 8, ud_shared = True\<rparr>"

theorem wal_checksum_portable_witness:
  "wal_calculateChecksum demo_words (0, 0) (demo_wal False []) = Some (16777216, 50331648) \<and>
   wal_calculateChecksum demo_words (0, 0) ((demo_wal True [])\<lparr>wal_isNativeChecksum := True\<rparr>) = Some (16777216, 50331648)"
proof -
  have v: "view_ok demo_words" "8 dvd ud_size demo_words" "0 < ud_size demo_words"
    by (simp_all add: demo_words_def view_ok_def)
  have b: "bit (0x377F0683 :: u32) 0" by simp
  have r: "checksum_ref True (ud_bytes demo_words) (0, 0) = (16777216, 50331648)" by code_simp
  have 1: "wal_isNativeChecksum (demo_wal False []) \<longleftrightarrow> (bit (0x377F0683 :: u32) 0 \<longleftrightarrow> wal_bigEndian (demo_wal False []))"
    by (simp add: demo_wal_def wal_init_def)
  have 2: "wal_isNativeChecksum ((demo_wal True [])\<lparr>wal_isNativeChecksum := True\<rparr>) \<longleftrightarrow>
      (bit (0x377F0683 :: u32) 0 \<longleftrightarrow> wal_bigEndian ((demo_wal True [])\<lparr>wal_isNativeChecksum := True\<rparr>))"
    by (simp add: demo_wal_def wal_init_def)
  show ?thesis using wal_checksum_portable [OF v 1, of "(0, 0)"] wal_checksum_portable [OF v 2, of "(0, 0)"] r b by simp
qed

end
