(* ===== verification/WCDB_WalIndex.thy ===== *)
theory WCDB_WalIndex
  imports WCDB_WalFrames
begin

text \<open>
  The page index of the write-ahead log: \<open>Wal::doInitialize\<close> scans the frames and commits
  the pages of a transaction when its commit frame, the one with a truncate field, was seen.
\<close>

section \<open>The latest frame with a property\<close>

definition latest :: "(int \<Rightarrow> bool) \<Rightarrow> int \<Rightarrow> int \<Rightarrow> int option" where
  "latest P a b = find P (rev [a..b])"

lemma latest_empty [simp]: "b < a \<Longrightarrow> latest P a b = None"
  by (simp add: latest_def)

lemma latest_rec: "a \<le> b \<Longrightarrow> latest P a b = (if P b then Some b else latest P a (b - 1))"
  by (simp add: latest_def upto_rec2)

lemma latest_iff: "latest P a b = Some k \<longleftrightarrow> a \<le> k \<and> k \<le> b \<and> P k \<and> (\<forall>j. k < j \<and> j \<le> b \<longrightarrow> \<not> P j)"
proof (induction "nat (b - a + 1)" arbitrary: b)
  case 0
  then show ?case by auto
next
  case (Suc n)
  then have ab: "a \<le> b" by linarith
  have ih: "latest P a (b - 1) = Some k \<longleftrightarrow> a \<le> k \<and> k \<le> b - 1 \<and> P k \<and> (\<forall>j. k < j \<and> j \<le> b - 1 \<longrightarrow> \<not> P j)"
    using Suc by simp
  show ?case
  proof (cases "P b")
    case True
    have "k = b" if "k \<le> b" "\<forall>j. k < j \<and> j \<le> b \<longrightarrow> \<not> P j" using that True by (metis order_le_less order_refl)
    then show ?thesis using True ab by (auto simp: latest_rec)
  next
    case False
    have "(\<forall>j. k < j \<and> j \<le> b \<longrightarrow> \<not> P j) \<longleftrightarrow> (\<forall>j. k < j \<and> j \<le> b - 1 \<longrightarrow> \<not> P j)"
      using False by (metis order_le_less zle_diff1_eq)
    moreover have "k \<le> b \<and> P k \<longleftrightarrow> k \<le> b - 1 \<and> P k" using False by (metis order_le_less zle_diff1_eq)
    ultimately show ?thesis using False ab ih by (auto simp: latest_rec)
  qed
qed

lemma latest_None_iff: "latest P a b = None \<longleftrightarrow> (\<forall>j. a \<le> j \<and> j \<le> b \<longrightarrow> \<not> P j)"
  by (auto simp: latest_def find_None_iff)

lemma latest_split:
  assumes "a \<le> c + 1" "c \<le> b"
  shows "latest P a b = (case latest P (c + 1) b of Some k \<Rightarrow> Some k | None \<Rightarrow> latest P a c)"
proof (cases "latest P (c + 1) b")
  case None
  then have none: "\<not> P j" if "c < j" "j \<le> b" for j using that by (auto simp: latest_None_iff)
  have "latest P a b = Some k \<longleftrightarrow> latest P a c = Some k" for k
    unfolding latest_iff using none assms by (metis linorder_not_le order_trans)
  then have "latest P a b = latest P a c" by (metis not_None_eq)
  with None show ?thesis by simp
next
  case (Some k)
  then have "latest P a b = Some k" using assms by (simp add: latest_iff)
  with Some show ?thesis by simp
qed

section \<open>The scan\<close>

lemma map_of_fold_put:
  "distinct (map fst c) \<Longrightarrow> map_of (fold (\<lambda>(p, i). om_put p i) c m) = map_of m ++ map_of c"
proof (induction c arbitrary: m)
  case (Cons x c)
  obtain p i where x: "x = (p, i)" by (cases x)
  have "p \<notin> dom (map_of c)" using Cons.prems x by (simp add: dom_map_of_conv_image_fst)
  then have "(map_of m)(p \<mapsto> i) ++ map_of c = map_of m ++ (map_of c)(p \<mapsto> i)"
    by (simp add: map_add_upd_left)
  moreover have "distinct (map fst c)" using Cons.prems by simp
  ultimately show ?case using Cons.IH by (simp only: x fold_simps prod.case map_of_om_put map_of.simps fst_conv snd_conv)
qed simp

text \<open>
  The frames from \<open>a\<close> to \<open>b\<close> belong to the log: each carries the salt of the log and the
  checksum that continues the one of the frame before it.
\<close>

definition chained :: "bool \<Rightarrow> salt \<Rightarrow> byte list \<Rightarrow> nat \<Rightarrow> checksum \<Rightarrow> int \<Rightarrow> int \<Rightarrow> bool" where
  "chained be salt content ps s a b \<longleftrightarrow>
     (\<forall>k. a \<le> k \<and> k \<le> b \<longrightarrow> raw_salt (frame_at content ps k) = salt \<and>
        raw_checksum (frame_at content ps k) =
          frame_sum be (frame_at content ps k) (if k = a then s else raw_checksum (frame_at content ps (k - 1))))"

text \<open>The last commit frame, or the frame before the first one.\<close>

definition commit_point :: "byte list \<Rightarrow> nat \<Rightarrow> int \<Rightarrow> int \<Rightarrow> int" where
  "commit_point content ps a b =
     (case latest (\<lambda>k. raw_truncate (frame_at content ps k) \<noteq> 0) a b of Some m \<Rightarrow> m | None \<Rightarrow> a - 1)"

definition page_frame :: "byte list \<Rightarrow> nat \<Rightarrow> int \<Rightarrow> int \<Rightarrow> int \<Rightarrow> int option" where
  "page_frame content ps a b p = latest (\<lambda>k. raw_page (frame_at content ps k) = p) a b"

text \<open>The state of the scan when the frames from \<open>a\<close> to \<open>b\<close> were read.\<close>

definition scanned :: "int \<Rightarrow> int \<Rightarrow> int \<Rightarrow> checksum \<Rightarrow> (int \<times> int) list \<Rightarrow> wal \<Rightarrow> bool" where
  "scanned frame0 a b s committed w \<longleftrightarrow>
     (let content = wal_bytes w; ps = nat (wal_pageSize w); m = commit_point content ps a b
      in a - 1 \<le> b \<and> chained (wal_be w) (wal_salt w) content ps s a b \<and>
         om_ok committed \<and> om_ok (wal_pages2Frames w) \<and>
         (\<forall>p. map_of committed p = page_frame content ps (m + 1) b p) \<and>
         (\<forall>p. map_of (wal_pages2Frames w) p = page_frame content ps a m p) \<and>
         (if m < a then wal_maxFrame w = frame0
          else wal_maxFrame w = m \<and> wal_truncate w = raw_truncate (frame_at content ps m)))"

lemma om_ok_fold_put: "om_ok m \<Longrightarrow> om_ok (fold (\<lambda>(p, i). om_put p i) c m)"
  by (induction c arbitrary: m) auto

lemma commit_point_bounds: "a - 1 \<le> b \<Longrightarrow> a - 1 \<le> commit_point content ps a b \<and> commit_point content ps a b \<le> b"
  by (auto simp: commit_point_def latest_iff split: option.splits)

lemma chained_extend:
  assumes "chained be salt content ps s a b" "a - 1 \<le> b" "raw_salt (frame_at content ps (b + 1)) = salt"
    "raw_checksum (frame_at content ps (b + 1)) = frame_sum be (frame_at content ps (b + 1))
       (if b + 1 = a then s else raw_checksum (frame_at content ps b))"
  shows "chained be salt content ps s a (b + 1)"
  unfolding chained_def
proof (intro allI impI)
  fix k assume "a \<le> k \<and> k \<le> b + 1"
  then consider "k = b + 1" | "a \<le> k" "k \<le> b" by linarith
  then show "raw_salt (frame_at content ps k) = salt \<and>
        raw_checksum (frame_at content ps k) =
          frame_sum be (frame_at content ps k) (if k = a then s else raw_checksum (frame_at content ps (k - 1)))"
    using assms by cases (auto simp: chained_def)
qed

lemma scanned_extend:
  fixes w :: wal and a b :: int
  defines "content \<equiv> wal_bytes w" and "ps \<equiv> nat (wal_pageSize w)"
  defines "B \<equiv> frame_at content ps (b + 1)"
  assumes "scanned frame0 a b s committed w" "raw_salt B = wal_salt w"
    "raw_checksum B = frame_sum (wal_be w) B (if b + 1 = a then s else raw_checksum (frame_at content ps b))"
  shows "raw_truncate B = 0 \<Longrightarrow> scanned frame0 a (b + 1) s (om_put (raw_page B) (b + 1) committed) w"
    "raw_truncate B \<noteq> 0 \<Longrightarrow> scanned frame0 a (b + 1) s []
       (w\<lparr>wal_truncate := raw_truncate B, wal_maxFrame := b + 1,
          wal_pages2Frames := fold (\<lambda>(p, i). om_put p i) (om_put (raw_page B) (b + 1) committed) (wal_pages2Frames w)\<rparr>)"
proof -
  let ?m = "commit_point content ps a b"
  note sc = assms(4)[unfolded scanned_def Let_def, folded content_def ps_def]
  have ab: "a - 1 \<le> b" using sc by simp
  have m: "a - 1 \<le> ?m" "?m \<le> b" using commit_point_bounds [OF ab] by auto
  have ch: "chained (wal_be w) (wal_salt w) content ps s a (b + 1)"
    using sc ab assms(5,6) by (intro chained_extend) (auto simp: B_def content_def ps_def)
  have put: "((map_of committed)(raw_page B \<mapsto> b + 1)) p = page_frame content ps (?m + 1) (b + 1) p" for p
    using sc m by (simp add: page_frame_def latest_rec B_def)
  have ok: "om_ok committed" "om_ok (wal_pages2Frames w)" using sc by auto
  have pages: "map_of (wal_pages2Frames w) p = page_frame content ps a ?m p" for p using sc by blast
  {
    assume "raw_truncate B = 0"
    then have "commit_point content ps a (b + 1) = ?m"
      using ab by (simp add: commit_point_def latest_rec B_def)
    then show "scanned frame0 a (b + 1) s (om_put (raw_page B) (b + 1) committed) w"
      using sc ch put ab unfolding scanned_def Let_def content_def [symmetric] ps_def [symmetric] by auto
  }
  assume "raw_truncate B \<noteq> 0"
  then have cp: "commit_point content ps a (b + 1) = b + 1"
    using ab by (simp add: commit_point_def latest_rec B_def)
  let ?w = "w\<lparr>wal_truncate := raw_truncate B, wal_maxFrame := b + 1,
          wal_pages2Frames := fold (\<lambda>(p, i). om_put p i) (om_put (raw_page B) (b + 1) committed) (wal_pages2Frames w)\<rparr>"
  have fields: "wal_bytes ?w = content" "nat (wal_pageSize ?w) = ps" "wal_be ?w = wal_be w" "wal_salt ?w = wal_salt w"
    by (simp_all add: content_def ps_def wal_bytes_def wal_be_def)
  have "map_of (wal_pages2Frames ?w) p = page_frame content ps a (b + 1) p" for p
  proof -
    have "map_of (wal_pages2Frames ?w) p = (map_of (wal_pages2Frames w) ++ (map_of committed)(raw_page B \<mapsto> b + 1)) p"
      using ok by (simp add: map_of_fold_put om_ok_distinct)
    also have "\<dots> = (case page_frame content ps (?m + 1) (b + 1) p of Some k \<Rightarrow> Some k | None \<Rightarrow> page_frame content ps a ?m p)"
      using put [of p] pages [of p] by (simp add: map_add_def split: option.split)
    also have "\<dots> = page_frame content ps a (b + 1) p"
      unfolding page_frame_def using m by (intro latest_split [symmetric]) simp_all
    finally show ?thesis .
  qed
  then show "scanned frame0 a (b + 1) s [] ?w"
    unfolding scanned_def Let_def fields cp using ch ab ok
    by (simp add: om_ok_fold_put page_frame_def B_def)
qed

text \<open>The scan ends after the last frame, or, when the shared memory is not trusted, at a mismatch.\<close>

definition scan_ends :: "int \<Rightarrow> int \<Rightarrow> int \<Rightarrow> checksum \<Rightarrow> wal \<Rightarrow> bool" where
  "scan_ends a b stop s w \<longleftrightarrow>
     b = stop \<or>
     \<not> wal_shmLegality w \<and> b < stop \<and>
       raw_salt (frame_at (wal_bytes w) (nat (wal_pageSize w)) (b + 1)) = wal_salt w \<and>
       raw_checksum (frame_at (wal_bytes w) (nat (wal_pageSize w)) (b + 1)) \<noteq>
         frame_sum (wal_be w) (frame_at (wal_bytes w) (nat (wal_pageSize w)) (b + 1))
           (if b + 1 = a then s else raw_checksum (frame_at (wal_bytes w) (nat (wal_pageSize w)) b))"

lemma scan_ends_le: "scan_ends a b stop s w \<Longrightarrow> b \<le> stop"
  by (auto simp: scan_ends_def)

definition wal_same :: "wal \<Rightarrow> wal \<Rightarrow> bool" where
  "wal_same w w' \<longleftrightarrow> wal_bytes w' = wal_bytes w \<and> fh_sound (wal_file w') \<and> wal_pageSize w' = wal_pageSize w \<and>
     wal_be w' = wal_be w \<and> wal_shmLegality w' = wal_shmLegality w"

lemma wal_frames_spec:
  assumes "fh_sound (wal_file w)" "wal_pageSize w = int ps" "8 dvd ps" "0 < ps" "ps \<le> 65536"
    "1 \<le> a" "scanned frame0 a b s committed w"
    "32 + (24 + ps) * nat (b + int n) \<le> length (wal_bytes w)" "32 + (24 + ps) * nat (b + int n) \<le> 2147483647"
  shows "\<exists>ok committed' w'.
    wal_frames n (b + 1) (if b + 1 = a then s else raw_checksum (frame_at (wal_bytes w) ps b)) committed w = Some (ok, committed', w') \<and>
    wal_same w w' \<and>
    (ok \<longrightarrow> wal_salt w' = wal_salt w \<and> wal_disposedPages w' = wal_disposedPages w \<and> wal_nbackfill w' = wal_nbackfill w \<and>
       (\<exists>b'. scanned frame0 a b' s committed' w' \<and> scan_ends a b' (b + int n) s w'))"
  using assms
proof (induction n arbitrary: b committed w)
  case 0
  then show ?case by (auto simp: scan_ends_def wal_same_def)
next
  case (Suc n)
  let ?C = "wal_bytes w" and ?B = "frame_at (wal_bytes w) ps (b + 1)"
  let ?s = "if b + 1 = a then s else raw_checksum (frame_at ?C ps b)"
  have b: "a - 1 \<le> b" using Suc.prems(7) by (simp add: scanned_def Let_def)
  have "(24 + ps) * nat (b + 1) \<le> (24 + ps) * nat (b + int (Suc n))" by (intro mult_le_mono2) simp
  then have fits: "32 + (24 + ps) * nat (b + 1) \<le> length ?C" "32 + (24 + ps) * nat (b + 1) \<le> 2147483647"
    using Suc.prems(8,9) by linarith+
  have b1: "1 \<le> b + 1" using b Suc.prems(6) by simp
  have shift: "b + int (Suc n) = (b + 1) + int n" by simp
  show ?case using Suc.prems(1,2) b1 fits
  proof (cases rule: frame_initialize_cases)
    case (failed f x)
    then show ?thesis
      by (intro exI [of _ False] exI [of _ committed] exI [of _ "wal_dispose (wal_with w x)"])
        (simp add: wal_same_def wal_dispose_def wal_bytes_def wal_be_def)
  next
    case (parsed f x)
    let ?w = "wal_with w x"
    have bytes: "wal_bytes ?w = ?C" using parsed(3) by (simp add: wal_bytes_def)
    have ck: "frame_calculateChecksum ?s f ?w = Some (frame_sum (wal_be w) ?B ?s)"
      using frame_calculateChecksum_ref [OF parsed(8-10), of ?w ?s] Suc.prems(2-5) by simp
    have sc: "scanned frame0 a b s committed ?w"
      using Suc.prems(7) unfolding scanned_def Let_def bytes wal_with_simps .
    show ?thesis
    proof (cases "frame_sum (wal_be w) ?B ?s = raw_checksum ?B")
      case False
      then have step: "wal_frames (Suc n) (b + 1) ?s committed w =
          (if wal_shmLegality w then Some (False, committed,
             wal_markAsCorrupted (b + 1) ''Mismatched frame checksum: %u, %u to %u, %u.'' ?w)
           else Some (True, committed, ?w))"
        using parsed(6) by (simp add: parsed(1) ck)
      have "scan_ends a b (b + int (Suc n)) s ?w" if "\<not> wal_shmLegality w"
        using that False parsed(7) Suc.prems(2) by (auto simp: scan_ends_def bytes)
      moreover have "wal_same w ?w" "wal_same w (wal_markAsCorrupted (b + 1) m ?w)" for m
        using parsed(2,3) by (simp_all add: wal_same_def wal_mark_with wal_bytes_def)
      ultimately show ?thesis unfolding step using sc by (cases "wal_shmLegality w") auto
    next
      case True
      have psw: "nat (wal_pageSize ?w) = ps" using Suc.prems(2) by simp
      note ext = scanned_extend [OF sc, unfolded bytes psw, unfolded wal_with_simps, OF parsed(7) True [symmetric]]
      show ?thesis
      proof (cases "raw_truncate ?B = 0")
        case no: True
        have "scanned frame0 a (b + 1) s (om_put (raw_page ?B) (b + 1) committed) ?w"
          using no by (rule ext(1))
        from Suc.IH [OF _ _ Suc.prems(3-6) this] show ?thesis
          using parsed True no ck Suc.prems(2,8,9) b unfolding shift
          by (simp add: bytes wal_same_def)
      next
        case yes: False
        let ?w' = "?w\<lparr>wal_truncate := raw_truncate ?B, wal_maxFrame := b + 1,
          wal_pages2Frames := fold (\<lambda>(p, i). om_put p i) (om_put (raw_page ?B) (b + 1) committed) (wal_pages2Frames w)\<rparr>"
        have "scanned frame0 a (b + 1) s [] ?w'"
          using yes by (rule ext(2))
        moreover have "wal_bytes ?w' = ?C" "wal_be ?w' = wal_be w" using bytes by (simp_all add: wal_bytes_def wal_be_def)
        ultimately show ?thesis
          using Suc.IH [of ?w' "b + 1" "[]"] parsed True yes ck Suc.prems b unfolding shift
          by (simp add: wal_same_def)
      qed
    qed
  qed
qed

section \<open>Loading the log\<close>

text \<open>The checksum that the scan after frame \<open>n\<close> continues: of the header, or of the frame.\<close>

definition log_sum :: "byte list \<Rightarrow> nat \<Rightarrow> int \<Rightarrow> checksum" where
  "log_sum content ps n =
     (if n = 0 then (be_word (drop 24 content), be_word (drop 28 content)) else raw_checksum (frame_at content ps n))"

definition indexed :: "int \<Rightarrow> int list \<Rightarrow> int \<Rightarrow> wal \<Rightarrow> bool" where
  "indexed frame0 disposed0 b w \<longleftrightarrow>
     (let content = wal_bytes w; ps = nat (wal_pageSize w); a = wal_nbackfill w + 1; m = commit_point content ps a b
      in wal_nbackfill w \<le> b \<and> (wal_nbackfill w < b \<longrightarrow> 32 + (24 + ps) * nat b \<le> length content) \<and>
         chained (wal_be w) (wal_salt w) content ps (log_sum content ps (wal_nbackfill w)) a b \<and>
         (\<forall>p. map_of (wal_pages2Frames w) p = page_frame content ps a m p) \<and>
         (if m < a then wal_maxFrame w = frame0
          else wal_maxFrame w = m \<and> wal_truncate w = raw_truncate (frame_at content ps m)) \<and>
         set (wal_disposedPages w) = set disposed0 \<union> {p. page_frame content ps (m + 1) b p \<noteq> None})"

lemma set_fold_insort_insert: "set (fold insort_insert xs ys) = set xs \<union> set ys"
  by (induction xs arbitrary: ys) (auto simp: set_insort_insert)

lemma be_word_take: "4 \<le> n \<Longrightarrow> 4 \<le> length bs \<Longrightarrow> be_word (take n bs) = be_word bs"
  by (simp add: be_word_def)

lemma scanned_start:
  "wal_pages2Frames w = [] \<Longrightarrow> scanned (wal_maxFrame w) a (a - 1) s [] w"
  by (auto simp: scanned_def Let_def commit_point_def page_frame_def chained_def)

lemma scanned_indexed:
  assumes "scanned frame0 (wal_nbackfill w + 1) b (log_sum (wal_bytes w) (nat (wal_pageSize w)) (wal_nbackfill w)) committed w"
    "32 + (24 + nat (wal_pageSize w)) * nat b \<le> length (wal_bytes w)"
  shows "indexed frame0 (wal_disposedPages w) b
     (w\<lparr>wal_disposedPages := fold insort_insert (map fst committed) (wal_disposedPages w)\<rparr>)" (is "indexed _ _ _ ?w")
proof -
  have same: "wal_bytes ?w = wal_bytes w" "wal_be ?w = wal_be w" by (simp_all add: wal_bytes_def wal_be_def)
  note sc = assms(1) [unfolded scanned_def Let_def]
  have "set (map fst committed) = {p. map_of committed p \<noteq> None}"
    by (simp add: dom_map_of_conv_image_fst [symmetric] dom_def)
  then show ?thesis using sc assms(2) unfolding indexed_def Let_def same by (auto simp: set_fold_insort_insert)
qed

lemma indexed_frames:
  assumes "indexed frame0 disposed0 b w" "0 \<le> wal_nbackfill w" "map_of (wal_pages2Frames w) p = Some f"
  shows "1 \<le> f" "32 + (24 + nat (wal_pageSize w)) * nat f \<le> length (wal_bytes w)"
proof -
  let ?C = "wal_bytes w" and ?ps = "nat (wal_pageSize w)" and ?a = "wal_nbackfill w + 1"
  note ix = assms(1) [unfolded indexed_def Let_def]
  have nb: "?a - 1 \<le> b" using ix by simp
  have "page_frame ?C ?ps ?a (commit_point ?C ?ps ?a b) p = Some f" using ix assms(3) by metis
  then have f: "?a \<le> f" "f \<le> commit_point ?C ?ps ?a b" by (simp_all add: page_frame_def latest_iff)
  then have "f \<le> b" using commit_point_bounds [OF nb, of ?C ?ps] by simp
  then have "32 + (24 + ?ps) * nat b \<le> length ?C" using ix f(1) by simp
  moreover have "(24 + ?ps) * nat f \<le> (24 + ?ps) * nat b" using \<open>f \<le> b\<close> by (intro mult_le_mono2) simp
  ultimately show "32 + (24 + ?ps) * nat f \<le> length ?C" by linarith
  show "1 \<le> f" using f(1) assms(2) by simp
qed

lemma wal_load_spec:
  assumes "fh_sound (wal_file w)" "wal_pageSize w = int ps" "8 dvd ps" "0 < ps" "ps \<le> 65536"
    "view_ok data" "ud_bytes data = take 32 (wal_bytes w)" "ud_size data = 32"
    "ds_ok r" "remaining r = take 8 (drop 24 (wal_bytes w))"
    "0 \<le> wal_nbackfill w" "wal_nbackfill w < maxFrame" "wal_pages2Frames w = []"
    "32 + (24 + ps) * nat maxFrame \<le> length (wal_bytes w)" "32 + (24 + ps) * nat maxFrame \<le> 2147483647"
  shows "\<exists>ok w'. wal_load data r maxFrame w = Some (ok, w') \<and> wal_same w w' \<and>
    (ok \<longrightarrow> wal_salt w' = wal_salt w \<and> wal_nbackfill w' = wal_nbackfill w \<and> (\<exists>b. indexed (wal_maxFrame w) (wal_disposedPages w) b w'))"
proof -
  let ?C = "wal_bytes w" and ?nb = "wal_nbackfill w" and ?sum = "checksum_ref (wal_be w) (take 24 (wal_bytes w)) (0, 0)"
  have len: "32 \<le> length ?C" using assms(14) by linarith
  have sum: "wal_calculateChecksum (ud_subdata_prefix data 24) (0, 0) w = Some (?sum)"
    using assms(6-8) len
    by (simp add: ud_subdata_prefix_def wal_calculateChecksum_ref subdata_in_view view_simps)
  obtain r1 where r1: "advance4BytesUInt r = Some (be_word (drop 24 ?C), r1)" "ds_ok r1" "remaining r1 = take 4 (drop 28 ?C)"
    using advance4BytesUInt_word [OF assms(9)] assms(10) len by (auto simp: be_word_take drop_take)
  obtain r2 where r2: "advance4BytesUInt r1 = Some (be_word (drop 28 ?C), r2)"
    using advance4BytesUInt_word [OF r1(2)] r1(3) len by (auto simp: be_word_take)
  have load: "wal_load data r maxFrame w =
    (if ?sum \<noteq> (be_word (drop 24 ?C), be_word (drop 28 ?C))
     then Some (False, wal_markAsCorrupted 0 ''Mismatched wal checksum: %u, %u to %u, %u.'' w)
     else do {
       (ok, checksum, w) \<leftarrow>
         (if ?nb > 0 then do {
            (ok, f, w) \<leftarrow> frame_initialize (frame_init ?nb, w);
            if \<not> ok then Some (False, ?sum, wal_dispose w) else Some (True, fr_checksum f, w)
          } else Some (True, ?sum, w));
       if \<not> ok then Some (False, w)
       else do {
         (ok, committed, w) \<leftarrow>
           wal_frames (nat (maxFrame - wal_nbackfill w)) (wal_nbackfill w + 1) checksum [] w;
         if \<not> ok then Some (False, w)
         else Some (True, w\<lparr>wal_disposedPages := fold insort_insert (map fst committed) (wal_disposedPages w)\<rparr>)
       }
     })"
    unfolding wal_load_def by (simp add: sum r1(1) r2)
  have finish: "\<exists>ok w'. do {
         (ok, committed, w) \<leftarrow> wal_frames (nat (maxFrame - wal_nbackfill v)) (wal_nbackfill v + 1) (log_sum ?C ps ?nb) [] v;
         if \<not> ok then Some (False, w)
         else Some (True, w\<lparr>wal_disposedPages := fold insort_insert (map fst committed) (wal_disposedPages w)\<rparr>)
       } = Some (ok, w') \<and> wal_same w w' \<and>
    (ok \<longrightarrow> wal_salt w' = wal_salt w \<and> wal_nbackfill w' = wal_nbackfill w \<and> (\<exists>b. indexed (wal_maxFrame w) (wal_disposedPages w) b w'))"
    if v: "v = wal_with w x" "fh_sound (fst x)" "fh_content (fst x) = ?C" for v x
  proof -
    have vb: "wal_bytes v = ?C" using v by (simp add: wal_bytes_def)
    have start: "scanned (wal_maxFrame w) (?nb + 1) ?nb (log_sum ?C ps ?nb) [] v"
      using scanned_start [of v "?nb + 1" "log_sum ?C ps ?nb"] assms(13) by (simp add: v)
    have stop: "?nb + int (nat (maxFrame - ?nb)) = maxFrame" using assms(12) by simp
    obtain ok committed w' where fr: "wal_frames (nat (maxFrame - ?nb)) (?nb + 1) (log_sum ?C ps ?nb) [] v = Some (ok, committed, w')"
      "wal_same v w'"
      "ok \<longrightarrow> wal_salt w' = wal_salt v \<and> wal_disposedPages w' = wal_disposedPages v \<and> wal_nbackfill w' = wal_nbackfill v \<and>
         (\<exists>b'. scanned (wal_maxFrame w) (?nb + 1) b' (log_sum ?C ps ?nb) committed w' \<and> b' \<le> maxFrame)"
      using wal_frames_spec [OF _ _ assms(3-5) _ start, of "nat (maxFrame - ?nb)"] assms(1,2,11,14,15) v vb
      unfolding stop by (auto dest!: scan_ends_le)
    have same: "wal_same w w'" using fr(2) vb v(1) by (simp add: wal_same_def)
    show ?thesis
    proof (cases ok)
      case False
      then show ?thesis using same by (intro exI [of _ False] exI [of _ w']) (simp add: v fr(1) [unfolded v])
    next
      case True
      with fr(3) obtain b where b: "wal_salt w' = wal_salt w" "wal_disposedPages w' = wal_disposedPages w" "wal_nbackfill w' = ?nb"
        "scanned (wal_maxFrame w) (?nb + 1) b (log_sum ?C ps ?nb) committed w'" "b \<le> maxFrame"
        by (auto simp: v)
      have "(24 + ps) * nat b \<le> (24 + ps) * nat maxFrame" using b(5) by (intro mult_le_mono2) simp
      then have fits: "32 + (24 + ps) * nat b \<le> length ?C" using assms(14) by linarith
      let ?w = "w'\<lparr>wal_disposedPages := fold insort_insert (map fst committed) (wal_disposedPages w')\<rparr>"
      have "indexed (wal_maxFrame w) (wal_disposedPages w) b ?w"
        using scanned_indexed [of "wal_maxFrame w" w' b committed] b(1-4) fits same assms(2) by (simp add: wal_same_def)
      moreover have "wal_same w ?w" using same by (simp add: wal_same_def wal_bytes_def wal_be_def)
      ultimately show ?thesis using True b(1,3)
        by (intro exI [of _ True] exI [of _ ?w]) (auto simp: v fr(1) [unfolded v])
    qed
  qed
  show ?thesis
  proof (cases "?sum = (be_word (drop 24 ?C), be_word (drop 28 ?C))")
    case False
    then show ?thesis unfolding load using assms(1)
      by (intro exI [of _ False]) (simp add: wal_same_def wal_mark_with wal_bytes_def)
  next
    case header: True
    show ?thesis
    proof (cases "?nb = 0")
      case True
      then show ?thesis unfolding load using finish [of w "(wal_file w, wal_error w, wal_thread w)"] wal_with_self [of w] assms(1) header
        by (simp add: log_sum_def wal_bytes_def)
    next
      case False
      then have nb: "1 \<le> ?nb" using assms(11) by simp
      have "(24 + ps) * nat ?nb \<le> (24 + ps) * nat maxFrame" using assms(12) by (intro mult_le_mono2) simp
      then have fits: "32 + (24 + ps) * nat ?nb \<le> length ?C" "32 + (24 + ps) * nat ?nb \<le> 2147483647"
        using assms(14,15) by linarith+
      show ?thesis using assms(1,2) nb fits
      proof (cases rule: frame_initialize_cases)
        case (failed f x)
        then show ?thesis unfolding load using header nb
          by (intro exI [of _ False]) (simp add: wal_same_def wal_dispose_def wal_bytes_def wal_be_def)
      next
        case (parsed f x)
        then show ?thesis unfolding load using header nb finish [OF refl parsed(2,3)]
          by (simp add: log_sum_def)
      qed
    qed
  qed
qed

lemma sdiv_nonneg: "0 \<le> x \<Longrightarrow> 0 < y \<Longrightarrow> x sdiv y = x div (y :: int)"
  by (simp add: signed_divide_int_def sgn_if)

text \<open>What the load keeps in every case.\<close>

definition wal_kept :: "wal \<Rightarrow> wal \<Rightarrow> bool" where
  "wal_kept w w' \<longleftrightarrow> wal_bytes w' = wal_bytes w \<and> fh_sound (wal_file w') \<and> wal_pageSize w' = wal_pageSize w"

lemma wal_select_spec:
  assumes "fh_sound (wal_file w)" "wal_pageSize w = int ps" "8 dvd ps" "0 < ps" "ps \<le> 65536"
    "view_ok data" "ud_bytes data = take 32 (wal_bytes w)" "ud_size data = 32"
    "ds_ok r" "remaining r = take 8 (drop 24 (wal_bytes w))"
    "0 \<le> wal_nbackfill w" "wal_pages2Frames w = []"
    "wal_fileSize w = length (wal_bytes w)" "32 \<le> length (wal_bytes w)" "length (wal_bytes w) \<le> 2147483647"
  shows "\<exists>ok w'. wal_select data r salt maxFrame w = Some (ok, w') \<and> wal_kept w w' \<and>
    (ok \<longrightarrow> wal_salt w' = salt \<and> 0 \<le> wal_nbackfill w' \<and> (\<exists>b. indexed (wal_maxFrame w) (wal_disposedPages w) b w'))"
proof -
  let ?C = "wal_bytes w"
  define restart where "restart \<longleftrightarrow> wal_salt w \<noteq> (0, 0) \<and> wal_salt w \<noteq> salt \<and>
     \<not> (isCheckpointIncreasedSalt (wal_salt w) salt \<and> wal_nbackfill w > 0)"
  define v where "v = w\<lparr>wal_nbackfill := (if restart then 0 else wal_nbackfill w), wal_salt := salt\<rparr>"
  define q where "q = (int (length ?C) - 32) div (24 + int ps)"
  define top where "top = min q (if restart then 2147483647 else maxFrame)"
  have sd: "(int (length ?C) - 32) sdiv wal_getFrameSize v = q"
    using assms(2,4,14) by (simp add: wal_getFrameSize_def sdiv_nonneg q_def v_def)
  have fields: "wal_bytes v = ?C" "wal_pages2Frames v = []" "wal_maxFrame v = wal_maxFrame w" "wal_disposedPages v = wal_disposedPages w"
    "wal_salt v = salt" "0 \<le> wal_nbackfill v" "fh_sound (wal_file v)" "wal_pageSize v = int ps" "wal_fileSize v = wal_fileSize w"
    using assms(1,2,11,12) by (simp_all add: v_def wal_bytes_def)
  have eq: "wal_select data r salt maxFrame w = (if wal_nbackfill v \<ge> top then Some (True, v) else wal_load data r top v)"
    unfolding wal_select_def restart_def [symmetric] Let_def v_def [symmetric] using assms(13-15)
    by (simp add: narrow32_id sd top_def fields)
  show ?thesis
  proof (cases "wal_nbackfill v \<ge> top")
    case True
    have "indexed (wal_maxFrame w) (wal_disposedPages w) (wal_nbackfill v) v"
      using fields by (auto simp: indexed_def Let_def chained_def commit_point_def page_frame_def)
    then show ?thesis using True fields assms(2) by (intro exI [of _ True] exI [of _ v]) (auto simp: eq wal_kept_def)
  next
    case False
    then have top: "0 \<le> top" "top \<le> q" using fields(6) by (auto simp: top_def)
    have "(24 + int ps) * top \<le> (24 + int ps) * q" using top(2) by (intro mult_left_mono) auto
    also have "\<dots> \<le> int (length ?C) - 32" 
      using mult_div_mod_eq [of "24 + int ps" "int (length ?C) - 32"] pos_mod_sign [of "24 + int ps" "int (length ?C) - 32"]
      unfolding q_def by linarith
    finally have "int ((24 + ps) * nat top) \<le> int (length ?C) - 32" using top(1) by simp
    then have fits: "32 + (24 + ps) * nat top \<le> length ?C" "32 + (24 + ps) * nat top \<le> 2147483647" using assms(14,15) by linarith+
    have "\<exists>ok w'. wal_load data r top v = Some (ok, w') \<and> wal_same v w' \<and>
        (ok \<longrightarrow> wal_salt w' = wal_salt v \<and> wal_nbackfill w' = wal_nbackfill v \<and> (\<exists>b. indexed (wal_maxFrame v) (wal_disposedPages v) b w'))"
    proof (rule wal_load_spec [OF fields(7,8) assms(3-6) _ assms(8,9)])
      show "32 + (24 + ps) * nat top \<le> length (wal_bytes v)" "32 + (24 + ps) * nat top \<le> 2147483647"
        using fits by (simp_all only: fields(1))
    qed (use assms False fields in simp_all)
    then show ?thesis using False fields assms(2) by (auto simp: eq wal_same_def wal_kept_def)
  qed
qed

lemma wal_header_total:
  assumes "fh_sound (wal_file w)" "wal_pageSize w = int ps" "8 dvd ps" "0 < ps" "ps \<le> 65536"
    "0 \<le> wal_nbackfill w" "wal_pages2Frames w = []" "wal_fileSize w = length (wal_bytes w)"
    "32 \<le> length (wal_bytes w)" "length (wal_bytes w) \<le> 2147483647"
  shows "\<exists>ok w'. wal_header maxFrame w = Some (ok, w') \<and> wal_kept w w' \<and>
    (ok \<longrightarrow> wal_salt w' = (be_word (drop 16 (wal_bytes w)), be_word (drop 20 (wal_bytes w))) \<and>
       0 \<le> wal_nbackfill w' \<and> (\<exists>b. indexed (wal_maxFrame w) (wal_disposedPages w) b w'))"
proof -
  let ?C = "wal_bytes w"
  have io: "0 \<le> (0 :: int)" "0 + int 32 \<le> int (length ?C)" "0 < (32 :: nat)" using assms(9) by simp_all
  obtain d x where d: "wal_acquireData 0 32 w = Some (d, wal_with w x)" "fh_sound (fst x)" "fh_content (fst x) = ?C"
    "d = ud_null \<or> view_ok d \<and> ud_bytes d = take 32 (drop (nat 0) ?C) \<and> ud_size d = 32"
    using assms(1) io by (rule wal_acquireData_cases)
  have xb: "wal_bytes (wal_with w x) = ?C" using d(3) by (simp add: wal_bytes_def)
  show ?thesis
  proof (cases "d = ud_null")
    case True
    then show ?thesis using d(2) by (intro exI [of _ False]) (simp add: wal_header_def d(1) xb wal_kept_def)
  next
    case False
    with d(4) have v: "view_ok d" "ud_bytes d = take 32 ?C" "ud_size d = 32" by auto
    let ?magic = "be_word ?C"
    have r0: "ds_ok (ds_init d)" "remaining (ds_init d) = take 32 ?C" using v by (simp_all add: ds_ok_init)
    obtain r1 where r1: "advance4BytesUInt (ds_init d) = Some (?magic, r1)" "ds_ok r1" "ds_data r1 = d"
      using advance4BytesUInt_word [OF r0(1)] r0(2) assms(9) by (auto simp: be_word_take ds_init_def)
    have seek: "ds_ok (ds_seek 16 r1)" "remaining (ds_seek 16 r1) = take 16 (drop 16 ?C)"
      using r1 v by (simp_all add: ds_seek_def iter_seek_def ds_ok_def remaining_def to_off_small drop_take)
    obtain r2 where r2: "advance4BytesUInt (ds_seek 16 r1) = Some (be_word (drop 16 ?C), r2)" "ds_ok r2" "remaining r2 = take 12 (drop 20 ?C)"
      using advance4BytesUInt_word [OF seek(1)] seek(2) assms(9) by (auto simp: be_word_take drop_take)
    obtain r3 where r3: "advance4BytesUInt r2 = Some (be_word (drop 20 ?C), r3)" "ds_ok r3" "remaining r3 = take 8 (drop 24 ?C)"
      using advance4BytesUInt_word [OF r2(2)] r2(3) assms(9) by (auto simp: be_word_take drop_take)
    show ?thesis
    proof (cases "?magic AND 0xFFFFFFFE = 0x377F0682")
      case False
      then show ?thesis
        by (intro exI [of _ False]) (simp add: wal_header_def d v r1(1) ud_empty_def wal_mark_with wal_kept_def wal_bytes_def xb [unfolded wal_bytes_def])
    next
      case magic: True
      let ?salt = "(be_word (drop 16 ?C), be_word (drop 20 ?C))"
      let ?w = "(wal_with w x)\<lparr>wal_isNativeChecksum := (bit ?magic 0 \<longleftrightarrow> wal_bigEndian w)\<rparr>"
      have eq: "wal_header maxFrame w = wal_select d r3 ?salt maxFrame ?w"
        using magic v(3) by (simp add: wal_header_def d(1) r1(1) r2(1) r3(1) ud_empty_def)
      have wb: "wal_bytes ?w = ?C" using xb by (simp add: wal_bytes_def)
      have "\<exists>ok w'. wal_select d r3 ?salt maxFrame ?w = Some (ok, w') \<and> wal_kept ?w w' \<and>
          (ok \<longrightarrow> wal_salt w' = ?salt \<and> 0 \<le> wal_nbackfill w' \<and> (\<exists>b. indexed (wal_maxFrame ?w) (wal_disposedPages ?w) b w'))"
        by (rule wal_select_spec) (use assms d(2) v r3 wb in simp_all)
      then show ?thesis by (simp add: eq wal_kept_def wb)
    qed
  qed
qed

section \<open>Properties\<close>


definition demo_log :: "byte list" where
  "demo_log = [55, 127, 6, 131, 0, 45, 226, 24, 0, 0, 0, 8, 0, 0, 0, 0, 0, 0, 0, 5, 0, 0, 0, 7, 22, 4, 198, 236, 188, 221, 158, 180,
     0, 0, 0, 1, 0, 0, 0, 1, 0, 0, 0, 5, 0, 0, 0, 7, 107, 171, 115, 0, 4, 116, 128, 95, 9, 9, 9, 9, 9, 9, 9, 9]"

definition demo_stale_frame :: "byte list" where
  "demo_stale_frame = [0, 0, 0, 2, 0, 0, 0, 2, 0, 0, 0, 4, 0, 0, 0, 7, 236, 188, 111, 43, 105, 88, 234, 245, 8, 8, 8, 8, 8, 8, 8, 8]"

definition demo_load :: "byte list \<Rightarrow> byte list \<Rightarrow> bool \<Rightarrow> (bool \<times> (int \<times> int) list) option" where
  "demo_load log garbage legal =
     map_option (\<lambda>(ok, w). (ok, wal_pages2Frames w))
       (wal_doInitialize (wal_setShmLegality legal
          ((wal_init False ''a.db'' (fh_init (demo_sys\<lparr>sys_pagesize := 16\<rparr>) ''a.db-wal'' (Some log)) 0 (fh_init (demo_sys\<lparr>sys_pagesize := 16\<rparr>) ''a.db-shm'' (Some [])) garbage)
             \<lparr>wal_pageSize := 8\<rparr>)))"

declare fh_read_loop.simps [code]

definition demo_opened :: wal where
  "demo_opened = (wal_init False ''a.db'' ((fh_init (demo_sys\<lparr>sys_pagesize := 16\<rparr>) ''a.db-wal'' (Some demo_log))\<lparr>fh_isOpen := True, fh_mode := Mode_ReadOnly\<rparr>)
     0 (fh_init (demo_sys\<lparr>sys_pagesize := 16\<rparr>) ''a.db-shm'' (Some [])) [])\<lparr>wal_pageSize := 8, wal_fileSize := 64\<rparr>"

lemma demo_opened_simps:
  "fh_sound (wal_file demo_opened)" "wal_pageSize demo_opened = int 8" "0 \<le> wal_nbackfill demo_opened"
  "wal_pages2Frames demo_opened = []" "wal_bytes demo_opened = demo_log" "wal_fileSize demo_opened = length demo_log"
  "length demo_log = 64"
proof -
  show len: "length demo_log = 64" by (simp add: demo_log_def)
  have c: "wal_bytes demo_opened = demo_log" by (simp add: demo_opened_def wal_init_def wal_bytes_def fh_init_def fh_content_def)
  then show "wal_bytes demo_opened = demo_log" .
  show "fh_sound (wal_file demo_opened)"
    using c len demo_progresses
    by (simp add: fh_sound_def wal_bytes_def) (simp add: demo_opened_def wal_init_def fh_init_def demo_sys_def malloc_ok_def)
qed (simp_all add: demo_opened_def wal_init_def demo_log_def)



text \<open>
  Without a shared memory file the result depends on uninitialized memory: \<open>Shm::Header\<close>
  leaves the salt unset, and \<open>Wal::doInitialize\<close> compares it with the salt of the log.  If the
  memory happens to be zero, the largest frame count \<open>UINT32_MAX\<close> is read as \<open>-1\<close> and the
  committed page is ignored; with other contents it is loaded.
\<close>

theorem wal_missing_shm_uninitialized:
  "demo_load demo_log [0, 0, 0, 0, 0, 0, 0, 0] True = Some (True, []) \<and>
   demo_load demo_log [1, 1, 1, 1, 1, 1, 1, 1] True = Some (True, [(1, 1)])"
  by (rule conjI; code_simp)

section \<open>One-time initialization\<close>

text \<open>What every \<open>Initializeable\<close> has: a state that \<open>initialize\<close> sets and reads back.\<close>

locale initializeable =
  fixes state :: "'s \<Rightarrow> init_state" and setState :: "init_state \<Rightarrow> 's \<Rightarrow> 's"
  assumes state_setState: "state (setState x s) = x"
begin

lemma initialize_again:
  assumes "initialize state setState doInitialize s = Some (ok, s')"
  shows "initialize state setState doInitialize' s' = Some (ok, s')"
  using assms by (auto simp: initialize_def bind_Some_conv state_setState split: if_splits)

lemma initialize_first:
  assumes "state s = State_None" "doInitialize (setState State_Initializing s) = Some (ok, s1)"
  shows "initialize state setState doInitialize s =
    Some (ok, setState (if ok then State_Initialized else State_Failed) s1)"
  using assms by (simp add: initialize_def state_setState)

end

interpretation wal_once: initializeable wal_state "\<lambda>x w. w\<lparr>wal_state := x\<rparr>"
  by unfold_locales simp

interpretation shm_once: initializeable "\<lambda>w. shm_state (wal_shm w)" "\<lambda>x w. w\<lparr>wal_shm := (wal_shm w)\<lparr>shm_state := x\<rparr>\<rparr>"
  by unfold_locales simp

interpretation frame_once: initializeable "\<lambda>(f, w). fr_state f" "\<lambda>x (f, w). (f\<lparr>fr_state := x\<rparr>, w)"
  by unfold_locales auto

end
