(* ===== verification/WCDB_Pager.thy ===== *)
theory WCDB_Pager
  imports WCDB_PageFile WCDB_WalIndex
begin

unbundle bit_operations_syntax

text \<open>
  \<open>src/src/common/repair/parse/Pager.cpp\<close>: the pages of a database, from the cache, the
  write-ahead log or the file, decoded by the cipher.

  The pager's error \<open>m_error\<close> and the error slot of the thread are kept in the log
  (\<open>wal_error\<close>, \<open>wal_thread\<close>), and \<open>wal_pageSize\<close> is the pager's page size.  \<open>sqlite3Codec\<close> of
  the SQLCipher library is a parameter: the codec maps the bytes and the number of a page to the
  decoded bytes.  \<open>m_highWater->getCurrent()\<close> counts the buffers that are alive anywhere; its
  readings are the function \<open>pg_highWater\<close> of the number of readings so far.
\<close>

section \<open>The cache of pages\<close>

record pgc_state =
  pgc_max :: nat
  pgc_used :: nat

type_synonym pgc = "(int, udata, pgc_state) lru"

definition pgc_init :: "nat \<Rightarrow> pgc" where
  "pgc_init maxAllowedMemory = lru_init \<lparr>pgc_max = maxAllowedMemory, pgc_used = 0\<rparr>"

definition pgc_shouldPurge :: "pgc_state \<Rightarrow> bool" where
  "pgc_shouldPurge x \<longleftrightarrow> pgc_used x > pgc_max x"

definition pgc_willPurge :: "int \<Rightarrow> udata \<Rightarrow> pgc_state \<Rightarrow> pgc_state" where
  "pgc_willPurge n d x = x\<lparr>pgc_used := to_size (int (pgc_used x) - int (ud_size d))\<rparr>"

definition pgc_charge :: "udata \<Rightarrow> pgc_state \<Rightarrow> pgc_state" where
  "pgc_charge d x = x\<lparr>pgc_used := to_size (int (pgc_used x) + int (ud_size d))\<rparr>"

definition pgc_insert :: "int \<Rightarrow> udata \<Rightarrow> pgc \<Rightarrow> pgc" where
  "pgc_insert n d c = lru_insert id pgc_shouldPurge pgc_willPurge pgc_charge n d c"

definition pgc_purge :: "nat \<Rightarrow> pgc \<Rightarrow> pgc" where
  "pgc_purge n c = lru_purge id pgc_willPurge n c"

section \<open>The state\<close>

type_synonym page_codec = "byte list \<Rightarrow> int \<Rightarrow> byte list option"

record pager =
  pg_state :: init_state
  pg_file :: pbf
  pg_codec :: "page_codec option"
  pg_pageSize :: int
  pg_reservedBytes :: int
  pg_numberOfPages :: int
  pg_fileSize :: nat
  pg_schemaCookie :: int
  pg_wal :: wal
  pg_walImportance :: bool
  pg_skipWal :: bool
  pg_cache :: pgc
  pg_highWater :: "nat \<Rightarrow> int"
  pg_readings :: nat

definition pager_init :: "fh \<Rightarrow> wal \<Rightarrow> (nat \<Rightarrow> int) \<Rightarrow> pager" where
  "pager_init h wal highWater =
     \<lparr>pg_state = State_None, pg_file = pf_init h, pg_codec = None, pg_pageSize = - 1, pg_reservedBytes = - 1,
      pg_numberOfPages = 0, pg_fileSize = 0, pg_schemaCookie = - 1, pg_wal = wal, pg_walImportance = True,
      pg_skipWal = False, pg_cache = pgc_init 16777216, pg_highWater = highWater, pg_readings = 0\<rparr>"

definition pager_setPageSize :: "int \<Rightarrow> pager \<Rightarrow> pager" where
  "pager_setPageSize n p = p\<lparr>pg_pageSize := n, pg_wal := (pg_wal p)\<lparr>wal_pageSize := n\<rparr>\<rparr>"

definition pager_setReservedBytes :: "int \<Rightarrow> pager \<Rightarrow> pager" where
  "pager_setReservedBytes n p = p\<lparr>pg_reservedBytes := n\<rparr>"

definition pager_setCipherContext :: "page_codec option \<Rightarrow> pager \<Rightarrow> pager" where
  "pager_setCipherContext ctx p = p\<lparr>pg_codec := ctx\<rparr>"

definition pager_getNumberOfPages :: "pager \<Rightarrow> int" where
  "pager_getNumberOfPages p = max (wal_getMaxPageno (pg_wal p)) (pg_numberOfPages p)"

definition pager_getUsableSize :: "pager \<Rightarrow> int" where
  "pager_getUsableSize p = pg_pageSize p - pg_reservedBytes p"

definition pager_assign :: "pager \<Rightarrow> pager" where
  "pager_assign p = p\<lparr>pg_wal := wal_assign (pg_wal p)\<rparr>"

definition pager_setError :: "werror \<Rightarrow> pager \<Rightarrow> pager" where
  "pager_setError e p = p\<lparr>pg_wal := (pg_wal p)\<lparr>wal_error := e\<rparr>\<rparr>"

definition pager_path :: "pager \<Rightarrow> string" where
  "pager_path p = fh_path (pf_file (pg_file p))"

definition pager_markAsCorrupted :: "int \<Rightarrow> string \<Rightarrow> pager \<Rightarrow> pager" where
  "pager_markAsCorrupted page message p =
     pager_setError (insert_or_assign ''Page'' (Info_Int page) (repair_error (pager_path p) message)) p"

definition pager_markAsError :: "error_code \<Rightarrow> pager \<Rightarrow> pager" where
  "pager_markAsError code p =
     pager_setError (insert_or_assign ''AssociatePath'' (Info_Text (pager_path p))
       (insert_or_assign ''Source'' (Info_Text ''Repair'') (make_error code Level_Notice []))) p"

section \<open>Purging\<close>

definition pager_current :: "pager \<Rightarrow> int \<times> pager" where
  "pager_current p = (pg_highWater p (pg_readings p), p\<lparr>pg_readings := Suc (pg_readings p)\<rparr>)"

text \<open>The two loops; \<open>n\<close> is the number of entries of the cache they purge.\<close>

primrec purge_pages :: "nat \<Rightarrow> int \<Rightarrow> pager \<Rightarrow> pager" where
  "purge_pages 0 allowedSize p = p"
| "purge_pages (Suc n) allowedSize p =
     (if lru_empty (pg_cache p) then p
      else let (current, p) = pager_current p
           in if current > allowedSize
              then purge_pages n allowedSize (p\<lparr>pg_cache := pgc_purge 1 (pg_cache p)\<rparr>) else p)"

primrec purge_ranges :: "nat \<Rightarrow> int \<Rightarrow> pager \<Rightarrow> pager" where
  "purge_ranges 0 allowedSize p = snd (pager_current p)"
| "purge_ranges (Suc n) allowedSize p =
     (let (current, p) = pager_current p
      in if current > allowedSize
         then let (ok, f) = pf_purgeOne (pg_file p)
              in if ok then purge_ranges n allowedSize (p\<lparr>pg_file := f\<rparr>) else p
         else p)"

definition tryPurgeCache :: "pager \<Rightarrow> pager" where
  "tryPurgeCache p =
     (let allowedSize = 33554432;
          allowedSize = (if pg_codec p \<noteq> None then allowedSize * 2 else allowedSize);
          (current, p) = pager_current p
      in if current \<le> allowedSize then p
         else if pg_codec p \<noteq> None
         then let p = p\<lparr>pg_file := pf_purgeAll (pg_file p)\<rparr>
              in purge_pages (lru_size (pg_cache p)) allowedSize p
         else let p = p\<lparr>pg_cache := pgc_purge (lru_size (pg_cache p)) (pg_cache p)\<rparr>
              in purge_ranges (lru_size (pf_cache (pg_file p))) allowedSize p)"

section \<open>Pages\<close>

text \<open>The pages of the file and of the log share the error slot of the thread.\<close>

definition pager_mapPage :: "int \<Rightarrow> pager \<Rightarrow> (udata \<times> pager) option" where
  "pager_mapPage number p = do {
     let f = pg_file p;
     (data, f) \<leftarrow> mapPage number (f\<lparr>pf_file := (pf_file f)\<lparr>fh_error := wal_thread (pg_wal p)\<rparr>\<rparr>);
     Some (data, p\<lparr>pg_file := f, pg_wal := (pg_wal p)\<lparr>wal_thread := fh_error (pf_file f)\<rparr>\<rparr>)
   }"

definition pager_walPage :: "int \<Rightarrow> pager \<Rightarrow> (udata \<times> pager) option" where
  "pager_walPage number p = do {
     (data, w) \<leftarrow> wal_acquirePageData number (pg_wal p);
     Some (data, p\<lparr>pg_wal := w\<rparr>)
   }"

text \<open>\<open>Data(decodedBuffer, m_pageSize)\<close>: a copy of what \<open>sqlite3Codec\<close> returned.\<close>

definition pager_copy :: "byte list \<Rightarrow> pager \<Rightarrow> udata option" where
  "pager_copy decoded p =
     map_option fst (data_reset (sys_malloc (fh_sys (pf_file (pg_file p)))) ud_null
       (Some \<lparr>ud_mem = decoded, ud_off = 0, ud_size = length decoded, ud_shared = False\<rparr>) (to_size (pg_pageSize p)))"

definition pager_decode :: "int \<Rightarrow> udata \<Rightarrow> pager \<Rightarrow> (udata option \<times> pager) option" where
  "pager_decode number data p =
     (case pg_codec p of
        None \<Rightarrow> Some (Some data, p)
      | Some cipher \<Rightarrow> do {
          bs \<leftarrow> ud_read data 0 (to_size (pg_pageSize p));
          case cipher bs number of
            None \<Rightarrow> Some (None, pager_markAsCorrupted number ''Decode page data fail!'' p)
          | Some decoded \<Rightarrow> do {
              data \<leftarrow> pager_copy decoded p;
              Some (Some data, p)
            }
        })"

definition pager_acquirePageData_part :: "int \<Rightarrow> int \<Rightarrow> nat \<Rightarrow> pager \<Rightarrow> (udata \<times> pager) option" where
  "pager_acquirePageData_part number offset n p =
     (if lru_exists id number (pg_cache p) then do {
        (data, cache) \<leftarrow> lru_get id number (pg_cache p);
        Some (ud_subdata data offset n, p\<lparr>pg_cache := cache\<rparr>)
      }
      else if \<not> wal_containsPage number (pg_wal p) \<and> number > pg_numberOfPages p
      then Some (ud_null, pager_markAsCorrupted number ''Acquired page number: %d exceeds the page count: %d.'' p)
      else do {
        (data, p) \<leftarrow> (if wal_containsPage number (pg_wal p) then pager_walPage number p else pager_mapPage number p);
        if ud_size data \<noteq> to_size (pg_pageSize p)
        then Some (ud_null,
          if ud_size data > 0
          then pager_markAsCorrupted number ''Acquired page data with size: %d is less than the expected size: %d.'' p
          else pager_assign p)
        else do {
          (decoded, p) \<leftarrow> pager_decode number data p;
          case decoded of
            None \<Rightarrow> Some (ud_null, p)
          | Some data \<Rightarrow>
              Some (ud_subdata data offset n, tryPurgeCache (p\<lparr>pg_cache := pgc_insert number data (pg_cache p)\<rparr>))
        }
      })"

definition pager_acquirePageData :: "int \<Rightarrow> pager \<Rightarrow> (udata \<times> pager) option" where
  "pager_acquirePageData number p = pager_acquirePageData_part number 0 (to_size (pg_pageSize p)) p"

definition pager_map :: "int \<Rightarrow> nat \<Rightarrow> pager \<Rightarrow> (udata \<times> pager) option" where
  "pager_map offset n p = do {
     let f = pg_file p;
     (data, h) \<leftarrow> fh_map offset n ((pf_file f)\<lparr>fh_error := wal_thread (pg_wal p)\<rparr>);
     Some (data, p\<lparr>pg_file := f\<lparr>pf_file := h\<rparr>, pg_wal := (pg_wal p)\<lparr>wal_thread := fh_error h\<rparr>\<rparr>)
   }"

definition pager_acquireHeader :: "pager \<Rightarrow> (udata \<times> pager) option" where
  "pager_acquireHeader p =
     (case pg_codec p of
        None \<Rightarrow> do {
          (data, p) \<leftarrow> pager_map 0 100 p;
          Some (if ud_size data \<noteq> 100 then (ud_null, pager_assign p) else (data, p))
        }
      | Some cipher \<Rightarrow> do {
          (data, p) \<leftarrow> pager_map 0 (to_size (pg_pageSize p)) p;
          if ud_size data = to_size (pg_pageSize p)
          then do {
            (decoded, p) \<leftarrow> pager_decode 1 data p;
            case decoded of
              None \<Rightarrow> Some (ud_null, p)
            | Some data \<Rightarrow>
                let data = data_subdata data 0 100
                in Some (if ud_size data \<noteq> 100 then ud_null else data, p)
          }
          else Some (if ud_size data \<noteq> 100 then ud_null else data, pager_assign p)
        })"

section \<open>Initialization\<close>

definition sqlite_magic :: "byte list" where
  "sqlite_magic = [0x53, 0x51, 0x4c, 0x69, 0x74, 0x65, 0x20, 0x66, 0x6f, 0x72, 0x6d, 0x61, 0x74, 0x20, 0x33, 0x00]"

definition pager_parseHeader :: "udata \<Rightarrow> pager \<Rightarrow> (bool \<times> pager) option" where
  "pager_parseHeader data p = do {
     start \<leftarrow> ud_read data 0 16;
     if start \<noteq> sqlite_magic then Some (False, pager_markAsError Code_NotADatabase p)
     else do {
       let r = ds_init data;
       (r, p) \<leftarrow> (if pg_pageSize p = - 1 then do {
                    (n, r) \<leftarrow> advance2BytesInt (ds_seek 16 r);
                    Some (r, pager_setPageSize n p)
                  } else Some (r, p));
       (r, p) \<leftarrow> (if pg_reservedBytes p = - 1 then do {
                    (n, r) \<leftarrow> advance1ByteInt (ds_seek 20 r);
                    Some (r, p\<lparr>pg_reservedBytes := n\<rparr>)
                  } else Some (r, p));
       (r, p) \<leftarrow> (if pg_schemaCookie p = - 1 then do {
                    (n, r) \<leftarrow> advance4BytesInt (ds_seek 40 r);
                    Some (r, p\<lparr>pg_schemaCookie := n\<rparr>)
                  } else Some (r, p));
       Some (True, p)
     }
   }"

definition pager_disposeWal :: "pager \<Rightarrow> pager" where
  "pager_disposeWal p = p\<lparr>pg_wal := wal_dispose (pg_wal p)\<rparr>"

definition pager_loadWal :: "pager \<Rightarrow> (bool \<times> pager) option" where
  "pager_loadWal p = do {
     (ok, w) \<leftarrow> wal_initialize (pg_wal p);
     Some (ok, p\<lparr>pg_wal := w\<rparr>)
   }"

text \<open>The part of \<open>doInitialize\<close> after the header: the checks of the sizes, then the log.\<close>

definition pager_start :: "pager \<Rightarrow> (bool \<times> pager) option" where
  "pager_start p =
     (if (pg_pageSize p - 1) AND pg_pageSize p \<noteq> 0 \<or> pg_pageSize p < 512 \<or> pg_pageSize p > 65536
      then Some (False, pager_markAsCorrupted 1 ''Page size: %d is not aligned or not too small.'' p)
      else if pg_reservedBytes p < 0 \<or> pg_reservedBytes p > 255
      then Some (False, pager_markAsCorrupted 1 ''Reversed bytes: %d is illegal.'' p)
      else
        let p = p\<lparr>pg_file := pf_setPageSize (to_size (pg_pageSize p)) (pg_file p)\<rparr>;
            p = p\<lparr>pg_numberOfPages :=
                   narrow32 (int (to_size (int (pg_fileSize p) + pg_pageSize p - 1) div to_size (pg_pageSize p)))\<rparr>
        in if pg_skipWal p then Some (True, p)
           else do {
             (ok, p) \<leftarrow> pager_loadWal p;
             if ok then Some (True, p)
             else if pg_walImportance p \<or> \<not> isCorruption (wal_error (pg_wal p)) then Some (False, p)
             else Some (True, pager_disposeWal p)
           })"

definition pager_doInitialize :: "pager \<Rightarrow> (bool \<times> pager) option" where
  "pager_doInitialize p =
     (let f = pg_file p;
          (fileSize, h) = getFileSize ((pf_file f)\<lparr>fh_error := wal_thread (pg_wal p)\<rparr>);
          p = p\<lparr>pg_file := f\<lparr>pf_file := h\<rparr>, pg_wal := (pg_wal p)\<lparr>wal_thread := fh_error h\<rparr>\<rparr>
      in case fileSize of
        None \<Rightarrow> Some (False, pager_assign p)
      | Some fileSize \<Rightarrow>
          let p = p\<lparr>pg_fileSize := fileSize\<rparr>
          in if fileSize = 0 then Some (False, pager_markAsError Code_Empty p)
             else
               let (ok, h) = fh_open Mode_ReadOnly (pf_file (pg_file p));
                   p = p\<lparr>pg_file := (pg_file p)\<lparr>pf_file := h\<rparr>, pg_wal := (pg_wal p)\<lparr>wal_thread := fh_error h\<rparr>\<rparr>
               in if \<not> ok then Some (False, pager_assign p)
                  else do {
                    (ok, p) \<leftarrow> (if pg_pageSize p = - 1 \<or> pg_reservedBytes p = - 1 then do {
                                  (data, p) \<leftarrow> pager_acquireHeader p;
                                  if ud_empty data then Some (False, p) else pager_parseHeader data p
                                } else Some (True, p));
                    if \<not> ok then Some (False, p) else pager_start p
                  })"

definition pager_initialize :: "pager \<Rightarrow> (bool \<times> pager) option" where
  "pager_initialize = initialize pg_state (\<lambda>x p. p\<lparr>pg_state := x\<rparr>) pager_doInitialize"

section \<open>The log\<close>

definition pager_setWalImportance :: "bool \<Rightarrow> pager \<Rightarrow> pager" where
  "pager_setWalImportance flag p = p\<lparr>pg_walImportance := flag, pg_wal := wal_setShmLegality flag (pg_wal p)\<rparr>"

definition pager_setNBackFill :: "int \<Rightarrow> pager \<Rightarrow> pager" where
  "pager_setNBackFill n p = p\<lparr>pg_wal := wal_setNBackFill n (pg_wal p)\<rparr>"

definition pager_setWalSalt :: "salt \<Rightarrow> pager \<Rightarrow> pager" where
  "pager_setWalSalt salt p = p\<lparr>pg_wal := wal_setSalt salt (pg_wal p)\<rparr>"

definition pager_setWalSkipped :: "pager \<Rightarrow> pager" where
  "pager_setWalSkipped p = p\<lparr>pg_skipWal := True\<rparr>"

definition pager_containPageInWal :: "int \<Rightarrow> pager \<Rightarrow> bool" where
  "pager_containPageInWal pageno p = wal_containsPage pageno (pg_wal p)"

definition pager_getNumberOfWalFrames :: "pager \<Rightarrow> int" where
  "pager_getNumberOfWalFrames p = wal_getNumberOfFrames (pg_wal p)"

definition pager_getDisposedWalPages :: "pager \<Rightarrow> int" where
  "pager_getDisposedWalPages p = wal_getDisposedPages (pg_wal p)"

end
