(* ===== verification/WCDB_PagerPages.thy ===== *)
theory WCDB_PagerPages
  imports WCDB_Pager
begin

unbundle bit_operations_syntax

text \<open>
  Properties of the pager: what \<open>acquirePageData\<close> returns is the page of the database, and the
  cache, the purges and the order of the calls cannot be seen.
\<close>

section \<open>The pages of the database\<close>

text \<open>
  The bytes of a page: those of its latest committed frame, or of the file; and the page that a
  reader gets, which the cipher decodes.
\<close>

definition db_raw :: "pager \<Rightarrow> int \<Rightarrow> byte list" where
  "db_raw p n =
     (let ps = nat (pg_pageSize p)
      in case map_of (wal_pages2Frames (pg_wal p)) n of
           Some f \<Rightarrow> take ps (drop 24 (frame_at (wal_bytes (pg_wal p)) ps f))
         | None \<Rightarrow> take ps (drop (nat (n - 1) * ps) (fh_content (pf_file (pg_file p)))))"

definition db_page :: "pager \<Rightarrow> int \<Rightarrow> byte list option" where
  "db_page p n = (case pg_codec p of None \<Rightarrow> Some (db_raw p n) | Some cipher \<Rightarrow> cipher (db_raw p n) n)"

text \<open>The file and the log can be read, and every page that the pager may ask for lies in them.\<close>

definition pager_files_ok :: "pager \<Rightarrow> bool" where
  "pager_files_ok p \<longleftrightarrow>
     (let ps = nat (pg_pageSize p); f = pg_file p; w = pg_wal p
      in 512 \<le> pg_pageSize p \<and> pg_pageSize p \<le> 65536 \<and> wal_pageSize w = pg_pageSize p \<and>
         pf_ok f \<and> sys_live (fh_sys (pf_file f)) \<and> pf_pageSize f = ps \<and> ps dvd pf_cachePageSize f \<and>
         (\<forall>n. 1 \<le> n \<and> n \<le> pg_numberOfPages p \<longrightarrow>
            nat n * ps \<le> length (fh_content (pf_file f)) \<and>
            (n - 1) * int ps div int (pf_cachePageSize f) \<in> rg_set (pbc_range (lru_sub (pf_cache f)))) \<and>
         (\<forall>n k. map_of (wal_pages2Frames w) n = Some k \<longrightarrow>
            fh_sound (wal_file w) \<and> 1 \<le> k \<and> 32 + (24 + ps) * nat k \<le> length (wal_bytes w) \<and>
            32 + (24 + ps) * nat k \<le> 2147483647) \<and>
         (\<forall>cipher. pg_codec p = Some cipher \<longrightarrow> (\<forall>bs n out. cipher bs n = Some out \<longrightarrow> length out = length bs)))"

text \<open>A cached page shows the page, unless its copy could not be allocated.\<close>

definition page_view :: "pager \<Rightarrow> int \<Rightarrow> udata \<Rightarrow> bool" where
  "page_view p n d \<longleftrightarrow> d = ud_null \<or>
     view_ok d \<and> ud_size d = nat (pg_pageSize p) \<and> db_page p n = Some (ud_bytes d)"

definition pager_ok :: "pager \<Rightarrow> bool" where
  "pager_ok p \<longleftrightarrow> pager_files_ok p \<and> lru_inv id (pg_cache p) \<and>
     (\<forall>e \<in> set (lru_abs (pg_cache p)). page_view p (fst e) (snd e))"

text \<open>A step of the pager that changes handles, errors and caches only.\<close>

definition pager_same :: "pager \<Rightarrow> pager \<Rightarrow> bool" where
  "pager_same p p' \<longleftrightarrow> pg_pageSize p' = pg_pageSize p \<and> pg_codec p' = pg_codec p \<and>
     wal_pages2Frames (pg_wal p') = wal_pages2Frames (pg_wal p) \<and> wal_bytes (pg_wal p') = wal_bytes (pg_wal p) \<and>
     pg_numberOfPages p' = pg_numberOfPages p \<and> pg_reservedBytes p' = pg_reservedBytes p \<and>
     fh_content (pf_file (pg_file p')) = fh_content (pf_file (pg_file p)) \<and>
     fh_sys (pf_file (pg_file p')) = fh_sys (pf_file (pg_file p))"

lemma pager_same_db:
  assumes "pager_same p p'"
  shows "db_raw p' = db_raw p" "db_page p' = db_page p" "page_view p' n d = page_view p n d"
proof -
  show raw: "db_raw p' = db_raw p" using assms by (simp add: fun_eq_iff pager_same_def db_raw_def Let_def split: option.split)
  show page: "db_page p' = db_page p" using assms raw by (simp add: fun_eq_iff pager_same_def db_page_def split: option.split)
  show "page_view p' n d = page_view p n d" using assms page by (simp add: pager_same_def page_view_def)
qed

lemma pager_same_refl [simp]: "pager_same p p"
  by (simp add: pager_same_def)

lemma pager_same_trans: "pager_same p q \<Longrightarrow> pager_same q r \<Longrightarrow> pager_same p r"
  by (simp add: pager_same_def)

lemma pager_files_same:
  assumes "pager_files_ok p" "pager_same p p'" "pf_ok (pg_file p')" "pf_pageSize (pg_file p') = pf_pageSize (pg_file p)"
    "pf_cachePageSize (pg_file p') = pf_cachePageSize (pg_file p)"
    "pbc_range (lru_sub (pf_cache (pg_file p'))) = pbc_range (lru_sub (pf_cache (pg_file p)))"
    "wal_pageSize (pg_wal p') = wal_pageSize (pg_wal p)" "fh_sound (wal_file (pg_wal p)) \<longrightarrow> fh_sound (wal_file (pg_wal p'))"
  shows "pager_files_ok p'"
proof -
  have eqs: "pg_pageSize p' = pg_pageSize p" "pg_codec p' = pg_codec p"
     "wal_pages2Frames (pg_wal p') = wal_pages2Frames (pg_wal p)" "wal_bytes (pg_wal p') = wal_bytes (pg_wal p)"
     "pg_numberOfPages p' = pg_numberOfPages p" "fh_content (pf_file (pg_file p')) = fh_content (pf_file (pg_file p))"
     "fh_sys (pf_file (pg_file p')) = fh_sys (pf_file (pg_file p))"
    using assms(2) by (simp_all add: pager_same_def)
  show ?thesis using assms(1,3,8) unfolding pager_files_ok_def Let_def eqs assms(4-7) by blast
qed

section \<open>Purging\<close>

interpretation pgc: lru_policy id pgc_shouldPurge pgc_willPurge pgc_charge ud_size pgc_used pgc_max
  by unfold_locales (auto simp: pgc_shouldPurge_def pgc_willPurge_def pgc_charge_def to_size_nonneg)

text \<open>The pager after a purge of its caches: the files are untouched and the cached pages are fewer.\<close>

definition purged :: "pager \<Rightarrow> pager \<Rightarrow> bool" where
  "purged p p' \<longleftrightarrow> (\<exists>m n r. p' = p\<lparr>pg_cache := pgc_purge m (pg_cache p),
      pg_file := (pg_file p)\<lparr>pf_cache := pbc_purge n (pf_cache (pg_file p))\<rparr>, pg_readings := r\<rparr>)"

lemma lru_purge_Nil: "lru_list c = [] \<Longrightarrow> lru_purge ord will m c = c"
  by (cases m) simp_all

lemma lru_purge_add: "lru_purge ord will m (lru_purge ord will n c) = lru_purge ord will (n + m) c"
  by (induction n arbitrary: c) (auto simp: Let_def lru_purge_Nil split: prod.splits)

lemma purgedI:
  "p' = p\<lparr>pg_cache := pgc_purge m (pg_cache p),
      pg_file := (pg_file p)\<lparr>pf_cache := pbc_purge n (pf_cache (pg_file p))\<rparr>, pg_readings := r\<rparr> \<Longrightarrow> purged p p'"
  by (auto simp: purged_def)

lemma purged_refl: "purged p p"
  by (rule purgedI [where m = 0 and n = 0 and r = "pg_readings p"]) (simp add: pgc_purge_def pbc_purge_def)

lemma purged_trans:
  assumes "purged p q" "purged q r"
  shows "purged p r"
proof -
  obtain m n k where q: "q = p\<lparr>pg_cache := pgc_purge m (pg_cache p),
      pg_file := (pg_file p)\<lparr>pf_cache := pbc_purge n (pf_cache (pg_file p))\<rparr>, pg_readings := k\<rparr>"
    using assms(1) by (auto simp: purged_def)
  obtain m' n' k' where r: "r = q\<lparr>pg_cache := pgc_purge m' (pg_cache q),
      pg_file := (pg_file q)\<lparr>pf_cache := pbc_purge n' (pf_cache (pg_file q))\<rparr>, pg_readings := k'\<rparr>"
    using assms(2) by (auto simp: purged_def)
  show ?thesis
    by (rule purgedI [where m = "m + m'" and n = "n + n'" and r = k']) (simp add: r q pgc_purge_def pbc_purge_def lru_purge_add)
qed

lemma purged_current: "purged p (snd (pager_current p))"
  by (rule purgedI [where m = 0 and n = 0 and r = "Suc (pg_readings p)"]) (simp add: pager_current_def pgc_purge_def pbc_purge_def)

lemma purged_cache: "purged p (p\<lparr>pg_cache := pgc_purge n (pg_cache p)\<rparr>)"
  by (rule purgedI [where m = n and n = 0 and r = "pg_readings p"]) (simp add: pbc_purge_def)

lemma purged_file: "purged p (p\<lparr>pg_file := (pg_file p)\<lparr>pf_cache := pbc_purge n (pf_cache (pg_file p))\<rparr>\<rparr>)"
  by (rule purgedI [where m = 0 and n = n and r = "pg_readings p"]) (simp add: pgc_purge_def)

lemma purged_pages: "purged p (purge_pages n allowed p)"
proof (induction n arbitrary: p)
  case (Suc n)
  show ?case
    using purged_trans [OF purged_current purged_trans [OF purged_cache Suc.IH], of p 1] purged_current [of p]
    by (auto simp: purged_refl Let_def pager_current_def simp del: One_nat_def)
qed (simp add: purged_refl)

lemma purged_ranges: "purged p (purge_ranges n allowed p)"
proof (induction n arbitrary: p)
  case (Suc n)
  show ?case
    using purged_trans [OF purged_current purged_trans [OF purged_file Suc.IH], of p 1] purged_current [of p]
    by (auto simp: Let_def pager_current_def pf_purgeOne_def simp del: One_nat_def)
qed (simp add: purged_current)

lemma purged_tryPurgeCache: "purged p (tryPurgeCache p)"
  unfolding tryPurgeCache_def Let_def pf_purgeAll_def
  using purged_current [of p] purged_trans [OF purged_current purged_trans [OF purged_file purged_pages], of p]
    purged_trans [OF purged_current purged_trans [OF purged_cache purged_ranges], of p]
  by (auto simp: pager_current_def)

lemma pf_ok_purge: "pf_ok f \<Longrightarrow> pf_ok (f\<lparr>pf_cache := pbc_purge n (pf_cache f)\<rparr>)"
  by (simp add: pf_ok_def pbc_purge_ok pbc_purge_range)

lemma purged_ok:
  assumes "purged p p'" "pager_ok p"
  shows "pager_ok p'" "pager_same p p'"
proof -
  obtain m n r where p': "p' = p\<lparr>pg_cache := pgc_purge m (pg_cache p),
      pg_file := (pg_file p)\<lparr>pf_cache := pbc_purge n (pf_cache (pg_file p))\<rparr>, pg_readings := r\<rparr>"
    using assms(1) by (auto simp: purged_def)
  show same: "pager_same p p'" by (simp add: p' pager_same_def)
  have files: "pager_files_ok p" using assms(2) by (simp add: pager_ok_def)
  then have "pf_ok (pg_file p)" by (simp add: pager_files_ok_def Let_def)
  then have "pager_files_ok p'"
    by (intro pager_files_same [OF files same]) (simp_all add: p' pf_ok_purge pbc_purge_range)
  moreover have "lru_inv id (pg_cache p')" using assms(2) by (simp add: pager_ok_def p' pgc_purge_def lru_purge_inv)
  moreover have "set (lru_abs (pg_cache p')) \<subseteq> set (lru_abs (pg_cache p))"
    by (auto simp: p' pgc_purge_def lru_purge_abs dest: in_set_takeD)
  ultimately show "pager_ok p'" using assms(2) by (auto simp: pager_ok_def pager_same_db(3) [OF same])
qed

section \<open>Fetching a page\<close>

text \<open>What a fetch gives: nothing, or all the bytes of the page.\<close>

definition fetched :: "int \<Rightarrow> pager \<Rightarrow> udata \<times> pager \<Rightarrow> bool" where
  "fetched n p res \<longleftrightarrow> pager_ok (snd res) \<and> pager_same p (snd res) \<and> pg_cache (snd res) = pg_cache p \<and>
     (fst res = ud_null \<or>
      view_ok (fst res) \<and> ud_size (fst res) = nat (pg_pageSize p) \<and> ud_bytes (fst res) = db_raw p n)"

lemma pager_page_size:
  assumes "pager_files_ok p"
  shows "to_size (pg_pageSize p) = nat (pg_pageSize p)" "int (nat (pg_pageSize p)) = pg_pageSize p" "0 < nat (pg_pageSize p)"
    "nat (pg_pageSize p) \<le> 65536"
  using assms by (auto simp: pager_files_ok_def Let_def to_size_nonneg size_max_def)

lemma wal_page_fetched:
  assumes "pager_ok p" "wal_containsPage n (pg_wal p)"
  shows "\<exists>res. pager_walPage n p = Some res \<and> fetched n p res"
proof -
  let ?w = "pg_wal p" and ?ps = "nat (pg_pageSize p)"
  have ok: "pager_files_ok p" using assms(1) by (simp add: pager_ok_def)
  note size = pager_page_size [OF ok]
  obtain k where k: "map_of (wal_pages2Frames ?w) n = Some k" using assms(2) by (auto simp: wal_containsPage_def)
  have w: "fh_sound (wal_file ?w)" "1 \<le> k" "32 + (24 + ?ps) * nat k \<le> length (wal_bytes ?w)"
      "32 + (24 + ?ps) * nat k \<le> 2147483647" "wal_pageSize ?w = pg_pageSize p"
    using ok k unfolding pager_files_ok_def Let_def by blast+
  have "nat k = Suc (nat (k - 1))" using w(2) by simp
  then have nk: "(24 + ?ps) * nat k = (24 + ?ps) + (24 + ?ps) * nat (k - 1)" by simp
  let ?o = "(24 + ?ps) * nat (k - 1)"
  have off: "wal_getFrameSize ?w * (k - 1) = int ?o" using w(2,5) size(2) by (simp add: wal_getFrameSize_def)
  have le: "?o + 56 + ?ps \<le> length (wal_bytes ?w)" "?o + 56 + ?ps \<le> 2147483647" using w(3,4) nk by linarith+
  have sz: "to_size (wal_pageSize ?w) = ?ps" using w(5) size(1) by simp
  have eq: "wal_acquirePageData n ?w = wal_acquireData (int (56 + ?o)) ?ps ?w"
    unfolding wal_acquirePageData_def wal_acquirePageData_part_def sz using k le(2)
    by (simp add: off del: of_nat_mult of_nat_add) (simp add: add.commute)
  have io: "0 \<le> int (56 + ?o)" "int (56 + ?o) + int ?ps \<le> int (length (wal_bytes ?w))" using le(1) by linarith+
  obtain d x where d: "wal_acquireData (int (56 + ?o)) ?ps ?w = Some (d, wal_with ?w x)" "fh_sound (fst x)" "fh_content (fst x) = wal_bytes ?w"
    "d = ud_null \<or> view_ok d \<and> ud_bytes d = take ?ps (drop (nat (int (56 + ?o))) (wal_bytes ?w)) \<and> ud_size d = ?ps"
    using w(1) io size(3) by (rule wal_acquireData_cases)
  let ?p = "p\<lparr>pg_wal := wal_with ?w x\<rparr>"
  have same: "pager_same p ?p" using d(3) by (simp add: pager_same_def wal_bytes_def)
  have "pf_ok (pg_file p)" using ok by (simp add: pager_files_ok_def Let_def)
  then have "pager_files_ok ?p" using d(2) by (intro pager_files_same [OF ok same]) simp_all
  then have "pager_ok ?p" using assms(1) by (simp add: pager_ok_def pager_same_db(3) [OF same])
  moreover have "take ?ps (drop (nat (int (56 + ?o))) (wal_bytes ?w)) = db_raw p n"
    using k by (simp add: db_raw_def Let_def frame_at_def drop_take add.commute del: of_nat_mult of_nat_add)
  ultimately show ?thesis using d(4) same
    by (intro exI [of _ "(d, ?p)"]) (auto simp: pager_walPage_def eq d(1) fetched_def simp del: of_nat_mult of_nat_add)
qed

lemma pf_ok_error [simp]: "pf_ok (f\<lparr>pf_file := (pf_file f)\<lparr>fh_error := e\<rparr>\<rparr>) = pf_ok f"
  by (simp add: pf_ok_def fh_ok_def fh_content_def)

lemma file_page_fetched:
  assumes "pager_ok p" "\<not> wal_containsPage n (pg_wal p)" "1 \<le> n" "n \<le> pg_numberOfPages p"
  shows "\<exists>res. pager_mapPage n p = Some res \<and> fetched n p res"
proof -
  let ?f = "pg_file p" and ?ps = "nat (pg_pageSize p)"
  let ?f' = "?f\<lparr>pf_file := (pf_file ?f)\<lparr>fh_error := wal_thread (pg_wal p)\<rparr>\<rparr>"
  have ok: "pager_files_ok p" using assms(1) by (simp add: pager_ok_def)
  note size = pager_page_size [OF ok]
  have f: "pf_ok ?f" "sys_live (fh_sys (pf_file ?f))" "pf_pageSize ?f = ?ps" "?ps dvd pf_cachePageSize ?f"
      "nat n * ?ps \<le> length (fh_content (pf_file ?f))"
      "(n - 1) * int ?ps div int (pf_cachePageSize ?f) \<in> rg_set (pbc_range (lru_sub (pf_cache ?f)))"
    using ok assms(3,4) unfolding pager_files_ok_def Let_def by blast+
  have cps: "0 < pf_cachePageSize ?f" using f(1) by (simp add: pf_ok_def)
  have one: "(n - 1) * int ?ps mod int (pf_cachePageSize ?f) + int ?ps \<le> int (pf_cachePageSize ?f)"
  proof -
    obtain c where c: "pf_cachePageSize ?f = ?ps * c" using f(4) by (auto simp: dvd_def)
    then have pos: "0 < c" using cps by (cases c) auto
    have "(n - 1) * int ?ps mod int (pf_cachePageSize ?f) = int ?ps * ((n - 1) mod int c)"
      by (simp only: c of_nat_mult mult.commute [of "n - 1"] mult_mod_right)
    moreover have "int ?ps * ((n - 1) mod int c + 1) \<le> int ?ps * int c"
      using pos pos_mod_bound [of "int c" "n - 1"] by (intro mult_left_mono) linarith+
    ultimately show ?thesis unfolding c of_nat_mult by (simp add: distrib_left)
  qed
  have le: "(n - 1) * int ?ps + int ?ps \<le> int (length (fh_content (pf_file ?f')))"
  proof -
    have "(n - 1) * int ?ps + int ?ps = int (nat n * ?ps)" using assms(3) by (simp add: algebra_simps)
    then show ?thesis using f(5) by (simp del: of_nat_mult)
  qed
  have off: "(n - 1) * int ?ps = (n - 1) * int (pf_pageSize ?f') + 0" using f(3) by simp
  obtain d f1 where m: "mapPage_part n 0 ?ps ?f' = Some (d, f1)" "map_result ((n - 1) * int ?ps) ?ps ?f' (d, f1)"
    using mapPage_part_total [of ?f' n 0 ?ps "(n - 1) * int ?ps"] f one le off assms(3) size(3) by auto
  let ?p = "p\<lparr>pg_file := f1, pg_wal := (pg_wal p)\<lparr>wal_thread := fh_error (pf_file f1)\<rparr>\<rparr>"
  have eq: "pager_mapPage n p = Some (d, ?p)"
    using m(1) f(3) by (simp add: pager_mapPage_def mapPage_def)
  have same: "pager_same p ?p"
    using m(2) by (simp add: pager_same_def map_result_def wal_bytes_def fh_content_def)
  have "pager_files_ok ?p"
    using m(2) by (intro pager_files_same [OF ok same]) (simp_all add: map_result_def)
  then have "pager_ok ?p" using assms(1) by (simp add: pager_ok_def pager_same_db(3) [OF same])
  moreover have "db_raw p n = take ?ps (drop (nat ((n - 1) * int ?ps)) (fh_content (pf_file ?f')))"
    using assms(2,3) by (simp add: db_raw_def Let_def wal_containsPage_def nat_mult_distrib)
  moreover have "length (db_raw p n) = ?ps"
  proof -
    have "nat n = Suc (nat (n - 1))" using assms(3) by simp
    then have "nat (n - 1) * ?ps + ?ps = nat n * ?ps" by simp
    then have "?ps \<le> length (fh_content (pf_file ?f)) - nat (n - 1) * ?ps" using f(5) by linarith
    then show ?thesis using assms(2) by (simp add: db_raw_def Let_def wal_containsPage_def)
  qed
  ultimately show ?thesis using m(2) same length_ud_bytes [of d]
    by (intro exI [of _ "(d, ?p)"]) (auto simp: eq fetched_def map_result_def)
qed

section \<open>Acquiring a page\<close>

lemma pager_copy_cases:
  assumes "pager_files_ok p" "length out = nat (pg_pageSize p)"
  obtains "pager_copy out p = Some ud_null" "sys_malloc (fh_sys (pf_file (pg_file p))) (nat (pg_pageSize p)) = None"
  | d where "pager_copy out p = Some d" "view_ok d" "ud_bytes d = out" "ud_size d = nat (pg_pageSize p)"
proof -
  let ?ps = "nat (pg_pageSize p)" and ?m = "sys_malloc (fh_sys (pf_file (pg_file p)))"
  note size = pager_page_size [OF assms(1)]
  note small = size(4)
  show ?thesis
  proof (cases "?m ?ps")
    case None
    then show ?thesis using that(1) size by (simp add: pager_copy_def data_reset_def)
  next
    case (Some b)
    have "ud_read \<lparr>ud_mem = out, ud_off = 0, ud_size = length out, ud_shared = False\<rparr> 0 ?ps = Some out"
      using assms(2) size(3) by (simp add: ud_read_def)
    then show ?thesis using Some size small assms(2)
      by (intro that(2) [of "\<lparr>ud_mem = out, ud_off = 0, ud_size = ?ps, ud_shared = True\<rparr>"])
        (simp_all add: pager_copy_def data_reset_def view_ok_def ud_bytes_def)
  qed
qed

lemma pager_setError_same [simp]:
  "pager_same p (pager_setError e p)" "pg_cache (pager_setError e p) = pg_cache p"
  "pager_files_ok (pager_setError e p) = pager_files_ok p"
  by (simp_all add: pager_same_def pager_setError_def wal_bytes_def pager_files_ok_def Let_def)

lemma pager_setError_ok [simp]: "pager_ok (pager_setError e p) = pager_ok p"
  by (simp add: pager_ok_def pager_same_db(3) [of p "pager_setError e p"])

lemma pager_mark_same [simp]:
  "pager_same p (pager_markAsCorrupted n m p)" "pager_ok (pager_markAsCorrupted n m p) = pager_ok p"
  "pg_cache (pager_markAsCorrupted n m p) = pg_cache p"
  by (simp_all add: pager_markAsCorrupted_def)

lemma pager_assign_same [simp]:
  "pager_same p (pager_assign p)" "pg_cache (pager_assign p) = pg_cache p" "pager_ok (pager_assign p) = pager_ok p"
proof -
  show same: "pager_same p (pager_assign p)" by (simp add: pager_same_def pager_assign_def wal_assign_def wal_bytes_def)
  show "pg_cache (pager_assign p) = pg_cache p" by (simp add: pager_assign_def)
  have "pager_files_ok (pager_assign p) = pager_files_ok p"
    by (simp add: pager_files_ok_def Let_def pager_assign_def wal_assign_def wal_bytes_def)
  then show "pager_ok (pager_assign p) = pager_ok p"
    by (simp add: pager_ok_def pager_same_db(3) [OF same]) (simp add: pager_assign_def)
qed

definition copy_fails :: "pager \<Rightarrow> bool" where
  "copy_fails p \<longleftrightarrow> pg_codec p \<noteq> None \<and> sys_malloc (fh_sys (pf_file (pg_file p))) (nat (pg_pageSize p)) = None"

lemma pager_decode_cases:
  assumes "pager_ok p" "view_ok d" "ud_size d = nat (pg_pageSize p)" "ud_bytes d = db_raw p n"
  obtains p' where "pager_decode n d p = Some (None, p')" "pager_ok p'" "pager_same p p'" "pg_cache p' = pg_cache p"
  | d' where "pager_decode n d p = Some (Some d', p)" "page_view p n d'" "d' \<noteq> ud_null \<or> copy_fails p"
proof (cases "pg_codec p")
  case None
  have "d \<noteq> ud_null" using assms pager_page_size(3) [of p] by (auto simp: pager_ok_def)
  then show ?thesis using assms None by (intro that(2) [of d]) (simp_all add: pager_decode_def page_view_def db_page_def)
next
  case (Some cipher)
  have ok: "pager_files_ok p" using assms(1) by (simp add: pager_ok_def)
  note size = pager_page_size [OF ok]
  have read: "ud_read d 0 (to_size (pg_pageSize p)) = Some (db_raw p n)"
    using assms(2-4) size length_ud_bytes [OF assms(2)] by (simp add: ud_read_in_view)
  show ?thesis
  proof (cases "cipher (db_raw p n) n")
    case None
    then show ?thesis using assms(1) Some read
      by (intro that(1) [of "pager_markAsCorrupted n ''Decode page data fail!'' p"]) (simp_all add: pager_decode_def db_page_def)
  next
    case out: (Some out)
    have "length out = length (db_raw p n)" using ok Some out unfolding pager_files_ok_def Let_def by blast
    then have len: "length out = nat (pg_pageSize p)" using assms(2-4) length_ud_bytes by metis
    show ?thesis using ok len
    proof (cases rule: pager_copy_cases)
      case 1
      then show ?thesis using Some out read by (intro that(2) [of ud_null]) (simp_all add: pager_decode_def page_view_def copy_fails_def)
    next
      case (2 d')
      then have "d' \<noteq> ud_null" using size(3) by auto
      with 2 show ?thesis using Some out read by (intro that(2) [of d']) (simp_all add: pager_decode_def page_view_def db_page_def)
    qed
  qed
qed

lemma insert_page_ok:
  assumes "pager_ok p" "page_view p n d"
  shows "pager_ok (p\<lparr>pg_cache := pgc_insert n d (pg_cache p)\<rparr>)"
proof -
  let ?c = "(pg_cache p)\<lparr>lru_sub := pgc_charge d (lru_sub (pg_cache p))\<rparr>" and ?p = "p\<lparr>pg_cache := pgc_insert n d (pg_cache p)\<rparr>"
  have same: "pager_same p ?p" by (simp add: pager_same_def)
  have inv: "lru_inv id ?c" "lru_abs ?c = lru_abs (pg_cache p)" using assms(1) by (simp_all add: pager_ok_def lru_inv_def lru_abs_def)
  have "lru_inv id (pgc_insert n d (pg_cache p))" using inv(1) by (simp add: pgc_insert_def lru_insert_def lru_put_inv)
  moreover have "set (lru_abs (pgc_insert n d (pg_cache p))) \<subseteq> insert (n, d) (set (lru_abs (pg_cache p)))"
    using inv lru_front_abs [OF inv(1), of n d]
    by (auto simp: pgc_insert_def lru_insert_def lru_put_def Let_def lru_purge_abs simp del: lru_purge.simps One_nat_def dest!: in_set_takeD split: if_splits)
  moreover have "pager_files_ok ?p" using assms(1) by (simp add: pager_ok_def pager_files_ok_def)
  ultimately show ?thesis using assms by (auto simp: pager_ok_def pager_same_db(3) [OF same])
qed

lemma page_view_part:
  assumes "page_view p n d" "0 \<le> offset" "offset + int k \<le> pg_pageSize p" "pager_files_ok p"
  shows "ud_subdata d offset k = ud_null \<or>
    (\<exists>bs. db_page p n = Some bs \<and> view_ok (ud_subdata d offset k) \<and> ud_bytes (ud_subdata d offset k) = take k (drop (nat offset) bs))"
proof (cases "d = ud_null")
  case True
  have "k = 0 \<or> \<not> to_size (offset + int k) \<le> 0"
    using assms(2,3) pager_page_size(2,4) [OF assms(4)] by (auto simp: to_size_nonneg size_max_def)
  then show ?thesis using True by (auto simp: ud_subdata_def ud_null_def)
next
  case False
  then have v: "view_ok d" "int (ud_size d) = pg_pageSize p" "db_page p n = Some (ud_bytes d)"
    using assms by (auto simp: page_view_def)
  then show ?thesis using subdata_in_view(1) [of d offset k] ud_bytes_subdata [of d offset k] assms(2,3) by auto
qed

lemma acquire_hit:
  assumes "pager_ok p" "lru_exists id n (pg_cache p)"
  obtains d p' where "pager_acquirePageData_part n offset k p = Some (ud_subdata d offset k, p')"
    "page_view p n d" "pager_ok p'" "pager_same p p'"
proof -
  have inv: "lru_inv id (pg_cache p)" using assms(1) by (simp add: pager_ok_def)
  obtain d n' c' where g: "lru_get id n (pg_cache p) = Some (d, c')" "lru_inv id c'" "(n', d) \<in> set (lru_abs (pg_cache p))" "id n' = id n"
    "lru_abs c' = (n', d) # filter (other_key id n) (lru_abs (pg_cache p))"
    using inv assms(2) by (rule lru_get_abs)
  let ?p = "p\<lparr>pg_cache := c'\<rparr>"
  have same: "pager_same p ?p" by (simp add: pager_same_def)
  have "pager_files_ok ?p" using assms(1) by (simp add: pager_ok_def pager_files_ok_def)
  moreover have "set (lru_abs c') \<subseteq> set (lru_abs (pg_cache p))" using g(3,5) by auto
  ultimately have "pager_ok ?p" using assms(1) g(2) by (auto simp: pager_ok_def pager_same_db(3) [OF same])
  moreover have "page_view p n d" using assms(1) g(3,4) by (force simp: pager_ok_def)
  ultimately show ?thesis using g(1) assms(2) same by (intro that [of d ?p]) (simp_all add: pager_acquirePageData_part_def)
qed

lemma acquire_miss:
  assumes "pager_ok p" "\<not> lru_exists id n (pg_cache p)" "1 \<le> n"
  shows "(\<exists>p'. pager_acquirePageData_part n offset k p = Some (ud_null, p') \<and> pager_ok p' \<and> pager_same p p' \<and>
       pg_cache p' = pg_cache p) \<or>
    (\<exists>d p'. pager_acquirePageData_part n offset k p =
        Some (ud_subdata d offset k, tryPurgeCache (p'\<lparr>pg_cache := pgc_insert n d (pg_cache p')\<rparr>)) \<and>
       page_view p n d \<and> (d \<noteq> ud_null \<or> copy_fails p) \<and> pager_ok p' \<and> pager_same p p' \<and> pg_cache p' = pg_cache p)"
proof (cases "\<not> wal_containsPage n (pg_wal p) \<and> n > pg_numberOfPages p")
  case True
  then show ?thesis using assms(1,2) by (simp add: pager_acquirePageData_part_def)
next
  case False
  then have "\<exists>res. (if wal_containsPage n (pg_wal p) then pager_walPage n p else pager_mapPage n p) = Some res \<and> fetched n p res"
    using wal_page_fetched [OF assms(1), of n] file_page_fetched [OF assms(1) _ assms(3)] by (cases "wal_containsPage n (pg_wal p)") simp_all
  then obtain d p1 where res: "(if wal_containsPage n (pg_wal p) then pager_walPage n p else pager_mapPage n p) = Some (d, p1)"
    "fetched n p (d, p1)" by force
  have p1: "pager_ok p1" "pager_same p p1" "pg_cache p1 = pg_cache p" using res(2) by (simp_all add: fetched_def)
  have sz: "to_size (pg_pageSize p1) = nat (pg_pageSize p)" "0 < nat (pg_pageSize p)"
    using pager_page_size [of p1] pager_page_size [of p] p1(1,2) assms(1) by (auto simp: pager_ok_def pager_same_def)
  show ?thesis
  proof (cases "d = ud_null")
    case True
    then show ?thesis using assms(2) False res(1) sz p1 pager_same_trans [OF p1(2) pager_assign_same(1)]
      by (auto simp: pager_acquirePageData_part_def)
  next
    case notnull: False
    then have v: "view_ok d" "ud_size d = nat (pg_pageSize p1)" "ud_bytes d = db_raw p1 n"
      using res(2) p1(2) pager_same_db(1) [OF p1(2)] by (auto simp: fetched_def pager_same_def)
    have sz1: "ud_size d = to_size (pg_pageSize p1)" using v(2) p1(2) sz(1) by (simp add: pager_same_def)
    show ?thesis using p1(1) v
    proof (cases rule: pager_decode_cases)
      case (1 p')
      then show ?thesis using assms(2) False res(1) sz1 p1(3) pager_same_trans [OF p1(2) 1(3)] by (auto simp: pager_acquirePageData_part_def)
    next
      case (2 d')
      then show ?thesis using assms(2) False res(1) sz1 p1 pager_same_db(3) [OF p1(2)]
        by (intro disjI2 exI [of _ d'] exI [of _ p1]) (auto simp: pager_acquirePageData_part_def copy_fails_def pager_same_def)
    qed
  qed
qed

lemma acquire_page:
  assumes "pager_ok p" "1 \<le> n" "0 \<le> offset" "offset + int k \<le> pg_pageSize p"
  shows "\<exists>d p'. pager_acquirePageData_part n offset k p = Some (d, p') \<and> pager_ok p' \<and> pager_same p p' \<and>
    (d = ud_null \<or> (\<exists>bs. db_page p n = Some bs \<and> view_ok d \<and> ud_bytes d = take k (drop (nat offset) bs)))"
proof -
  have files: "pager_files_ok p" using assms(1) by (simp add: pager_ok_def)
  show ?thesis
  proof (cases "lru_exists id n (pg_cache p)")
    case True
    obtain d p' where hit: "pager_acquirePageData_part n offset k p = Some (ud_subdata d offset k, p')"
      "page_view p n d" "pager_ok p'" "pager_same p p'"
      using assms(1) True by (rule acquire_hit)
    then show ?thesis using page_view_part [OF hit(2) assms(3,4) files] by auto
  next
    case False
    consider (none) p' where "pager_acquirePageData_part n offset k p = Some (ud_null, p')" "pager_ok p'" "pager_same p p'"
      | (page) d p' where "pager_acquirePageData_part n offset k p =
          Some (ud_subdata d offset k, tryPurgeCache (p'\<lparr>pg_cache := pgc_insert n d (pg_cache p')\<rparr>))"
        "page_view p n d" "pager_ok p'" "pager_same p p'"
      using acquire_miss [OF assms(1) False assms(2), of offset k] by blast
    then show ?thesis
    proof cases
      case none
      then show ?thesis by auto
    next
      case page
      let ?q = "p'\<lparr>pg_cache := pgc_insert n d (pg_cache p')\<rparr>"
      have q: "pager_ok ?q" "pager_same p ?q"
        using insert_page_ok [OF page(3)] page(2) pager_same_db(3) [OF page(4)] page(4) by (auto simp: pager_same_def)
      note purged = purged_ok [OF purged_tryPurgeCache q(1)]
      show ?thesis using page_view_part [OF page(2) assms(3,4) files] page(1) purged
          pager_same_trans [OF q(2) purged(2)] by auto
    qed
  qed
qed

section \<open>Properties\<close>

text \<open>
  C1: the pager is coherent.  Every call of \<open>acquirePageData\<close> returns, from whatever cache state
  and with whatever failures of the system: with nothing, or with exactly the wished part of
  the page, that is of its latest committed frame in the log, or of the file, decoded by the
  cipher; and the pages of the database are the same for the calls after it.
\<close>

theorem pager_page_coherent:
  assumes "pager_ok p" "1 \<le> n" "0 \<le> offset" "offset + int k \<le> pg_pageSize p"
  shows "\<exists>d p'. pager_acquirePageData_part n offset k p = Some (d, p') \<and> pager_ok p' \<and> db_page p' = db_page p \<and>
    (d = ud_null \<or> (\<exists>bs. db_page p n = Some bs \<and> view_ok d \<and> ud_bytes d = take k (drop (nat offset) bs)))"
  using acquire_page [OF assms] pager_same_db(2) by fastforce

text \<open>The account of the cache: it is exact, every cached page counts for one page, and the limit holds.\<close>

definition cache_bounded :: "pager \<Rightarrow> bool" where
  "cache_bounded p \<longleftrightarrow> lru_accounted id ud_size pgc_used (pg_cache p) \<and>
     (\<forall>e \<in> set (lru_abs (pg_cache p)). ud_size (snd e) = nat (pg_pageSize p)) \<and>
     pgc_max (lru_sub (pg_cache p)) = 16777216 \<and> pgc_used (lru_sub (pg_cache p)) \<le> 16777216"

lemma retained_sum:
  assumes "distinct (map fst xs)" "(i, y) \<in> set xs"
  shows "(f y :: nat) + sum_list (map (f \<circ> snd) (filter (\<lambda>(j, _). j \<noteq> i) xs)) = sum_list (map (f \<circ> snd) xs)"
  using assms
proof (induction xs)
  case (Cons e xs)
  obtain j z where e: "e = (j, z)" by (cases e)
  show ?case
  proof (cases "j = i")
    case True
    then have "i \<notin> fst ` set xs" "z = y" using Cons.prems e by (auto intro: rev_image_eqI)
    then have "filter (\<lambda>(j, _). j \<noteq> i) xs = xs" by (auto simp: filter_id_conv image_iff)
    then show ?thesis using True \<open>z = y\<close> by (simp add: e)
  next
    case False
    then show ?thesis using Cons e by auto
  qed
qed simp

lemma lru_get_accounted:
  assumes "lru_accounted ord weight used c" "lru_get ord k c = Some (v, c')" "lru_inv ord c'" "lru_sub c' = lru_sub c"
  shows "lru_accounted ord weight used c'"
proof -
  obtain i where i: "smap_find ord k (lru_map c) = Some i" "lru_retain i c = Some (v, c')"
    using assms(2) by (auto simp: lru_get_def bind_Some_conv)
  obtain j k' where f0: "find (\<lambda>(j, _). j = i) (lru_list c) = Some (j, k', v)"
    "c' = c\<lparr>lru_list := (j, k', v) # lru_erase_node i (lru_list c)\<rparr>"
    using i(2) by (auto simp: lru_retain_def bind_Some_conv)
  have ji: "j = i" and "(j, k', v) \<in> set (lru_list c)" using f0(1) by (auto simp: find_Some_iff in_set_conv_nth)
  then have mem: "(i, k', v) \<in> set (lru_list c)" and f: "c' = c\<lparr>lru_list := (i, k', v) # lru_erase_node i (lru_list c)\<rparr>"
    using f0(2) by auto
  have d: "distinct (map fst (lru_list c))" using assms(1) by (simp add: lru_accounted_def lru_inv_def)
  have "sum_list (map (weight \<circ> snd) (lru_abs c')) = sum_list (map (weight \<circ> snd) (lru_abs c))"
    using retained_sum [OF d mem, of "weight \<circ> snd"] by (simp add: f lru_abs_def lru_erase_node_def comp_def)
  then show ?thesis using assms by (simp add: lru_accounted_def)
qed

lemma sum_list_take_le: "sum_list (take n xs) \<le> sum_list (xs :: nat list)"
  by (metis append_take_drop_id le_add1 sum_list_append)

lemma bounded_purged:
  assumes "purged p p'" "cache_bounded p"
  shows "cache_bounded p'"
proof -
  obtain m n r where p': "p' = p\<lparr>pg_cache := pgc_purge m (pg_cache p),
      pg_file := (pg_file p)\<lparr>pf_cache := pbc_purge n (pf_cache (pg_file p))\<rparr>, pg_readings := r\<rparr>"
    using assms(1) by (auto simp: purged_def)
  have acc: "lru_accounted id ud_size pgc_used (pg_cache p)" using assms(2) by (simp add: cache_bounded_def)
  note purge = pgc.purge_accounted [OF acc, of m]
  have abs: "lru_abs (pg_cache p') = take (length (lru_abs (pg_cache p)) - m) (lru_abs (pg_cache p))"
    by (simp add: p' pgc_purge_def lru_purge_abs)
  have "pgc_used (lru_sub (pg_cache p')) \<le> pgc_used (lru_sub (pg_cache p))"
    using purge acc abs by (simp add: p' pgc_purge_def lru_accounted_def take_map [symmetric] sum_list_take_le)
  then show ?thesis using assms(2) purge abs
    by (auto simp: cache_bounded_def p' pgc_purge_def dest: in_set_takeD)
qed

text \<open>
  C20: the cache of pages keeps its limit.  As long as copies of decoded pages can be allocated,
  the memory that the cache accounts for is exactly that of the pages in it, and it never
  exceeds \<open>maxAllowedCacheMemory\<close>, although \<open>put\<close> purges one entry at most.
\<close>

theorem pager_cache_bounded:
  assumes "pager_ok p" "cache_bounded p" "1 \<le> n" "\<not> copy_fails p"
    "pager_acquirePageData_part n offset k p = Some (d, p')"
  shows "cache_bounded p'"
proof (cases "lru_exists id n (pg_cache p)")
  case True
  have inv: "lru_inv id (pg_cache p)" using assms(1) by (simp add: pager_ok_def)
  obtain v n' c' where g: "lru_get id n (pg_cache p) = Some (v, c')" "lru_inv id c'" "(n', v) \<in> set (lru_abs (pg_cache p))"
    "lru_abs c' = (n', v) # filter (other_key id n) (lru_abs (pg_cache p))" "lru_sub c' = lru_sub (pg_cache p)"
    using inv True by (rule lru_get_abs)
  have "p' = p\<lparr>pg_cache := c'\<rparr>" using assms(5) True g(1) by (simp add: pager_acquirePageData_part_def)
  moreover have "lru_accounted id ud_size pgc_used c'"
    using assms(2) by (intro lru_get_accounted [OF _ g(1,2,5)]) (simp add: cache_bounded_def)
  moreover have "set (lru_abs c') \<subseteq> set (lru_abs (pg_cache p))" using g(3,4) by auto
  ultimately show ?thesis using assms(2) g(5) by (auto simp: cache_bounded_def)
next
  case False
  consider (none) q where "p' = q" "pager_same p q" "pg_cache q = pg_cache p"
    | (page) v q where "p' = tryPurgeCache (q\<lparr>pg_cache := pgc_insert n v (pg_cache q)\<rparr>)"
        "page_view p n v" "v \<noteq> ud_null" "pager_same p q" "pg_cache q = pg_cache p"
    using acquire_miss [OF assms(1) False assms(3), of offset k] assms(4,5) by auto
  then show ?thesis
  proof cases
    case none
    then show ?thesis using assms(2) by (simp add: cache_bounded_def pager_same_def)
  next
    case page
    let ?q = "q\<lparr>pg_cache := pgc_insert n v (pg_cache q)\<rparr>" and ?c = "pg_cache p"
    have v: "ud_size v = nat (pg_pageSize p)" "nat (pg_pageSize p) \<le> 65536"
      using page(2,3) assms(1) pager_page_size(4) [of p] by (auto simp: page_view_def pager_ok_def)
    have b: "lru_accounted id ud_size pgc_used ?c" "\<forall>e \<in> set (lru_abs ?c). ud_size (snd e) = nat (pg_pageSize p)"
      "pgc_max (lru_sub ?c) = 16777216" "pgc_used (lru_sub ?c) \<le> 16777216"
      using assms(2) by (simp_all add: cache_bounded_def)
    have room: "int (pgc_used (lru_sub ?c)) + int (ud_size v) < size_max" using b(4) v by (auto simp: size_max_def)
    note ins = pgc.insert_accounted [OF b(1) False room]
    have "pgc_used (lru_sub (pgc_insert n v ?c)) \<le> pgc_max (lru_sub ?c)"
      unfolding pgc_insert_def using b v
      by (intro pgc.insert_within_limit [OF b(1) False b(2)]) (auto simp: size_max_def)
    moreover have "set (lru_abs (pgc_insert n v ?c)) \<subseteq> insert (n, v) (set (lru_abs ?c))"
      unfolding pgc_insert_def ins(2) by (auto dest: in_set_butlastD)
    ultimately have "cache_bounded ?q"
      using ins b v page(4,5) by (auto simp: cache_bounded_def pgc_insert_def pager_same_def)
    then show ?thesis unfolding page(1) by (rule bounded_purged [OF purged_tryPurgeCache])
  qed
qed

definition demo_pager :: pager where
  "demo_pager = (pager_init (demo_fh []) (wal_init False ''a.db-wal'' (demo_fh []) 0 (demo_fh []) []) (\<lambda>_. 0))
     \<lparr>pg_file := demo_pbf, pg_pageSize := 512, pg_reservedBytes := 0, pg_numberOfPages := 2,
      pg_wal := (wal_init False ''a.db-wal'' (demo_fh []) 0 (demo_fh []) [])\<lparr>wal_pageSize := 512\<rparr>\<rparr>"

lemma demo_pager_simps:
  "pg_pageSize demo_pager = 512" "pg_file demo_pager = demo_pbf" "pg_codec demo_pager = None" "pg_numberOfPages demo_pager = 2"
  "wal_pages2Frames (pg_wal demo_pager) = []" "wal_pageSize (pg_wal demo_pager) = 512" "pg_cache demo_pager = pgc_init 16777216"
  by (simp_all add: demo_pager_def pager_init_def wal_init_def)

lemma demo_page_index:
  assumes "1 \<le> n" "n \<le> (2 :: int)"
  shows "nat n * 512 \<le> 1024" "(n - 1) * 512 div 4096 = 0"
proof -
  have "n = 1 \<or> n = 2" using assms by linarith
  then show "nat n * 512 \<le> 1024" "(n - 1) * 512 div 4096 = 0" by auto
qed

lemma demo_pager_ok: "pager_ok demo_pager" "cache_bounded demo_pager" "\<not> copy_fails demo_pager"
proof -
  have live: "sys_live demo_sys" using demo_progresses by (simp add: sys_live_def malloc_ok_def) (simp add: demo_sys_def)
  have "pager_files_ok demo_pager"
    unfolding pager_files_ok_def Let_def demo_pager_simps demo_pbf_facts
    using live demo_pbf_facts(1) demo_page_index by (auto simp: rg_set_def)
  then show "pager_ok demo_pager"
    by (simp add: pager_ok_def demo_pager_simps pgc_init_def lru_init_def lru_inv_def lru_abs_def)
  show "cache_bounded demo_pager"
    by (simp add: cache_bounded_def lru_accounted_def demo_pager_simps pgc_init_def lru_init_def lru_inv_def lru_abs_def size_max_def)
  show "\<not> copy_fails demo_pager" by (simp add: copy_fails_def demo_pager_simps)
qed

theorem pager_page_coherent_witness:
  "\<exists>d p'. pager_acquirePageData_part 2 100 3 demo_pager = Some (d, p') \<and> pager_ok p' \<and> (d = ud_null \<or> ud_bytes d = [7, 7, 7])"
proof -
  have "\<exists>d p'. pager_acquirePageData_part 2 100 3 demo_pager = Some (d, p') \<and> pager_ok p' \<and> db_page p' = db_page demo_pager \<and>
    (d = ud_null \<or> (\<exists>bs. db_page demo_pager 2 = Some bs \<and> view_ok d \<and> ud_bytes d = take 3 (drop (nat 100) bs)))"
    by (rule pager_page_coherent [OF demo_pager_ok(1)]) (simp_all add: demo_pager_simps)
  then show ?thesis
    by (auto simp: db_page_def db_raw_def Let_def demo_pager_simps demo_pbf_facts numeral_3_eq_3)
qed

theorem pager_cache_bounded_witness: "\<exists>d p'. pager_acquirePageData_part 2 0 512 demo_pager = Some (d, p') \<and> cache_bounded p'"
proof -
  have "\<exists>d p'. pager_acquirePageData_part 2 0 512 demo_pager = Some (d, p')"
    using acquire_miss [OF demo_pager_ok(1), of 2 0 512]
    by (auto simp: demo_pager_simps pgc_init_def lru_init_def lru_exists_def)
  then show ?thesis using pager_cache_bounded [OF demo_pager_ok(1,2) _ demo_pager_ok(3), of 2 0 512] by auto
qed

end
