(* ===== verification/WCDB_Page.thy ===== *)
theory WCDB_Page
  imports WCDB_PagerPages
begin

unbundle bit_operations_syntax

text \<open>
  \<open>src/src/common/repair/parse/Page.cpp\<close>: a page of a B-tree, with the pointers to its cells and
  the numbers of its children.

  A page is used together with its pager, which it reads from and reports errors to; the
  operations that do so take and return both.
\<close>

section \<open>The state\<close>

datatype page_type = Page_Unknown | InteriorIndex | InteriorTable | LeafIndex | LeafTable | UnSet

record page =
  pa_state :: init_state
  pa_number :: int
  pa_type :: page_type
  pa_ds :: deserialization
  pa_data :: udata
  pa_subpagenos :: "int list"
  pa_cellPointers :: "int list"

definition pager_malloc :: "pager \<Rightarrow> allocator" where
  "pager_malloc p = sys_malloc (fh_sys (pf_file (pg_file p)))"

definition page_init :: "int \<Rightarrow> page" where
  "page_init n =
     \<lparr>pa_state = State_None, pa_number = n, pa_type = UnSet, pa_ds = ds_init ud_null, pa_data = ud_null,
      pa_subpagenos = [], pa_cellPointers = []\<rparr>"

definition page_with :: "allocator \<Rightarrow> int \<Rightarrow> udata \<Rightarrow> page option" where
  "page_with malloc n data = do {
     copy \<leftarrow> data_of malloc data;
     Some ((page_init n)\<lparr>pa_ds := ds_init data, pa_data := copy\<rparr>)
   }"

definition convertToPageType :: "int \<Rightarrow> page_type" where
  "convertToPageType type =
     (if type = 2 then InteriorIndex else if type = 5 then InteriorTable
      else if type = 10 then LeafIndex else if type = 13 then LeafTable else Page_Unknown)"

definition isInteriorPage :: "page \<Rightarrow> bool" where
  "isInteriorPage pa \<longleftrightarrow> pa_type pa = InteriorTable \<or> pa_type pa = InteriorIndex"

definition isLeafPage :: "page \<Rightarrow> bool" where
  "isLeafPage pa \<longleftrightarrow> pa_type pa = LeafTable \<or> pa_type pa = LeafIndex"

definition isTablePage :: "page \<Rightarrow> bool" where
  "isTablePage pa \<longleftrightarrow> pa_type pa = InteriorTable \<or> pa_type pa = LeafTable"

definition isIndexPage :: "page \<Rightarrow> bool" where
  "isIndexPage pa \<longleftrightarrow> pa_type pa = InteriorIndex \<or> pa_type pa = LeafIndex"

definition getOffsetOfHeader :: "page \<Rightarrow> int" where
  "getOffsetOfHeader pa = (if pa_number pa = 1 then 100 else 0)"

definition getOffsetOfCellPointer :: "page \<Rightarrow> int" where
  "getOffsetOfCellPointer pa = (if isInteriorPage pa then 12 else 8)"

definition hasRightMostPageNo :: "page \<Rightarrow> bool" where
  "hasRightMostPageNo pa = isInteriorPage pa"

text \<open>
  \<open>acquireType\<close>.  For a page that was given its data the cursor is moved to the header, but the
  byte is read at the absolute offset 0.
\<close>

definition acquireType :: "page \<Rightarrow> pager \<Rightarrow> (page_type option \<times> page \<times> pager) option" where
  "acquireType pa p =
     (if ud_empty (ds_data (pa_ds pa)) then do {
        (data, p) \<leftarrow> pager_acquirePageData_part (pa_number pa) (getOffsetOfHeader pa) 1 p;
        if ud_empty data then Some (None, pa, p)
        else do {
          (type, _) \<leftarrow> advance1ByteInt (ds_init data);
          Some (Some (convertToPageType type), pa, p)
        }
      }
      else do {
        let r = ds_seek (getOffsetOfHeader pa) (pa_ds pa);
        type \<leftarrow> get1ByteInt (ds_data r) 0;
        Some (Some (convertToPageType type), pa\<lparr>pa_ds := r\<rparr>, p)
      })"

section \<open>Children and cells\<close>

text \<open>Indexing outside of a vector is undefined.\<close>

definition at :: "'a list \<Rightarrow> int \<Rightarrow> 'a option" where
  "at xs i = (if 0 \<le> i \<and> i < int (length xs) then Some (xs ! nat i) else None)"

definition getSubpageno :: "int \<Rightarrow> page \<Rightarrow> int option" where
  "getSubpageno index pa = at (pa_subpagenos pa) index"

definition getNumberOfSubpages :: "page \<Rightarrow> int" where
  "getNumberOfSubpages pa = int (length (pa_subpagenos pa))"

definition getRightMostPage :: "page \<Rightarrow> int option" where
  "getRightMostPage pa = at (pa_subpagenos pa) (int (length (pa_subpagenos pa)) - 1)"

definition getNumberOfCells :: "page \<Rightarrow> int" where
  "getNumberOfCells pa = int (length (pa_cellPointers pa))"

definition getMaxLocal :: "page \<Rightarrow> pager \<Rightarrow> int" where
  "getMaxLocal pa p =
     (if pa_type pa = LeafTable then pager_getUsableSize p - 35
      else (pager_getUsableSize p - 12) * 64 sdiv 255 - 23)"

definition getMinLocal :: "page \<Rightarrow> pager \<Rightarrow> int" where
  "getMinLocal pa p = (pager_getUsableSize p - 12) * 32 sdiv 255 - 23"

section \<open>Initialization\<close>

text \<open>The loop over the cell pointers, from index \<open>i\<close> with \<open>n\<close> pointers to go.\<close>

primrec page_pointers :: "nat \<Rightarrow> int \<Rightarrow> page \<Rightarrow> pager \<Rightarrow> (bool \<times> page \<times> pager) option" where
  "page_pointers 0 i pa p = Some (True, pa, p)"
| "page_pointers (Suc n) i pa p =
     (let offset = getOffsetOfHeader pa + getOffsetOfCellPointer pa + i * 2
      in if \<not> ds_isEnough (offset + 2) (pa_ds pa)
         then Some (False, pa, pager_markAsCorrupted (pa_number pa) ''Unable to deserialize CellPointer.'' p)
         else do {
           cellPointer \<leftarrow> get2BytesInt (ds_data (pa_ds pa)) offset;
           page_pointers n (i + 1) (pa\<lparr>pa_cellPointers := pa_cellPointers pa @ [cellPointer]\<rparr>) p
         })"

text \<open>The loop over the children: the place of the number of a child, one child, and the loop.\<close>

definition childOffset :: "int \<Rightarrow> page \<Rightarrow> int option" where
  "childOffset i pa =
     (if i < int (length (pa_cellPointers pa)) \<or> \<not> hasRightMostPageNo pa
      then at (pa_cellPointers pa) i else Some (8 + getOffsetOfHeader pa))"

definition page_child :: "int \<Rightarrow> page \<Rightarrow> pager \<Rightarrow> (bool \<times> page \<times> pager) option" where
  "page_child offset pa p =
     (if \<not> ds_isEnough (offset + 4) (pa_ds pa)
      then Some (False, pa, pager_markAsCorrupted (pa_number pa) ''Unable to deserialize Subpageno.'' p)
      else do {
        pageno \<leftarrow> get4BytesInt (ds_data (pa_ds pa)) offset;
        if pageno > pager_getNumberOfPages p
        then Some (False, pa, pager_markAsCorrupted (pa_number pa) ''Page number: %d exceeds the page count: %d.'' p)
        else if pageno \<le> 0
        then Some (False, pa, pager_markAsCorrupted (pa_number pa) ''Pageno: %d is less than or equal to 0.'' p)
        else Some (True, pa\<lparr>pa_subpagenos := pa_subpagenos pa @ [pageno]\<rparr>, p)
      })"

primrec page_children :: "nat \<Rightarrow> int \<Rightarrow> page \<Rightarrow> pager \<Rightarrow> (bool \<times> page \<times> pager) option" where
  "page_children 0 i pa p = Some (True, pa, p)"
| "page_children (Suc n) i pa p = do {
     offset \<leftarrow> childOffset i pa;
     (ok, pa, p) \<leftarrow> page_child offset pa p;
     if \<not> ok then Some (False, pa, p) else page_children n (i + 1) pa p
   }"

definition page_load :: "page \<Rightarrow> pager \<Rightarrow> (bool \<times> page \<times> pager) option" where
  "page_load pa p =
     (if ud_empty (pa_data pa) then do {
        (data, p) \<leftarrow> pager_acquirePageData (pa_number pa) p;
        data \<leftarrow> data_assign (pager_malloc p) (pa_data pa) data;
        if ud_empty data then Some (False, pa\<lparr>pa_data := data\<rparr>, p)
        else Some (True, pa\<lparr>pa_data := data, pa_ds := ds_reset data (pa_ds pa)\<rparr>, p)
      }
      else Some (True, pa, p))"

text \<open>The part after the data is there.\<close>

definition page_parse :: "page \<Rightarrow> pager \<Rightarrow> (bool \<times> page \<times> pager) option" where
  "page_parse pa p = do {
     (type, r) \<leftarrow> advance1ByteInt (ds_seek (getOffsetOfHeader pa) (pa_ds pa));
     let pa = pa\<lparr>pa_type := convertToPageType type, pa_ds := r\<rparr>;
     if pa_type pa = Page_Unknown then Some (True, pa, p)
     else do {
       (numberOfCells, r) \<leftarrow> advance2BytesInt (ds_advance 2 r);
       let pa = pa\<lparr>pa_ds := r\<rparr>;
       if numberOfCells < 0
       then Some (False, pa, pager_markAsCorrupted (pa_number pa) ''Unexpected CellCount: %d.'' p)
       else do {
         (ok, pa, p) \<leftarrow> page_pointers (nat numberOfCells) 0 pa p;
         if \<not> ok then Some (False, pa, p)
         else if pa_type pa = InteriorTable \<or> pa_type pa = InteriorIndex
         then page_children (length (pa_cellPointers pa) + (if hasRightMostPageNo pa then 1 else 0)) 0 pa p
         else Some (True, pa, p)
       }
     }
   }"

definition page_doInitialize :: "page \<times> pager \<Rightarrow> (bool \<times> page \<times> pager) option" where
  "page_doInitialize x = do {
     (ok, pa, p) \<leftarrow> page_load (fst x) (snd x);
     if \<not> ok then Some (False, pa, p) else page_parse pa p
   }"

definition page_initialize :: "page \<times> pager \<Rightarrow> (bool \<times> page \<times> pager) option" where
  "page_initialize = initialize (\<lambda>x. pa_state (fst x)) (\<lambda>s x. ((fst x)\<lparr>pa_state := s\<rparr>, snd x)) page_doInitialize"

interpretation page_once: initializeable "\<lambda>x. pa_state (fst x)" "\<lambda>s x. ((fst x)\<lparr>pa_state := s\<rparr>, snd x :: pager)"
  by unfold_locales simp

section \<open>The bytes of a page\<close>

text \<open>What the pages of a B-tree say, as functions of their bytes.\<close>

definition header_at :: "int \<Rightarrow> nat" where
  "header_at n = (if n = 1 then 100 else 0)"

definition type_in :: "int \<Rightarrow> byte list \<Rightarrow> page_type" where
  "type_in n bs = convertToPageType (be_sint (take 1 (drop (header_at n) bs)))"

definition cells_in :: "int \<Rightarrow> byte list \<Rightarrow> int" where
  "cells_in n bs = be_sint (take 2 (drop (header_at n + 3) bs))"

definition interior_type :: "page_type \<Rightarrow> bool" where
  "interior_type t \<longleftrightarrow> t = InteriorTable \<or> t = InteriorIndex"

definition pointer_in :: "int \<Rightarrow> byte list \<Rightarrow> nat \<Rightarrow> int" where
  "pointer_in n bs i = be_sint (take 2 (drop (header_at n + (if interior_type (type_in n bs) then 12 else 8) + 2 * i) bs))"

definition pointers_in :: "int \<Rightarrow> byte list \<Rightarrow> int list" where
  "pointers_in n bs = map (pointer_in n bs) [0 ..< nat (cells_in n bs)]"

definition child_at :: "byte list \<Rightarrow> int \<Rightarrow> int" where
  "child_at bs offset = be_sint (take 4 (drop (nat offset) bs))"

definition children_in :: "int \<Rightarrow> byte list \<Rightarrow> int list" where
  "children_in n bs = map (child_at bs) (pointers_in n bs @ [int (header_at n) + 8])"

text \<open>The bytes before the page are not read: the check of a pointer accepts the four before it.\<close>

definition pointers_safe :: "int \<Rightarrow> byte list \<Rightarrow> bool" where
  "pointers_safe n bs \<longleftrightarrow> (interior_type (type_in n bs) \<longrightarrow> (\<forall>x \<in> set (pointers_in n bs). \<not> (- 4 \<le> x \<and> x < 0)))"

section \<open>Loading\<close>

lemma acquire_size:
  assumes "pager_acquirePageData_part n offset k p = Some (d, p')"
  shows "d = ud_null \<or> ud_size d = k"
proof -
  have "ud_subdata x offset k = ud_null \<or> ud_size (ud_subdata x offset k) = k" for x by (simp add: ud_subdata_def)
  then show ?thesis using assms
    by (auto simp: pager_acquirePageData_part_def bind_Some_conv split: if_splits option.splits)
qed

lemma ud_read_all: "view_ok d \<Longrightarrow> ud_read d 0 (ud_size d) = Some (ud_bytes d)"
  by (simp add: ud_read_in_view length_ud_bytes)

lemma data_assign_copy:
  assumes "malloc_ok malloc" "view_ok u"
  obtains d where "data_assign malloc ud_null u = Some d" "ud_empty d"
  | d where "data_assign malloc ud_null u = Some d" "view_ok d" "ud_bytes d = ud_bytes u" "ud_size d = ud_size u" "ud_shared d"
proof (cases "ud_shared u")
  case True
  then show ?thesis using that(2) assms(2) by (simp add: data_assign_def)
next
  case shared: False
  have b: "length (ud_bytes u) = ud_size u" using assms(2) by (rule length_ud_bytes)
  consider "ud_size u = 0" | "0 < ud_size u" "malloc (ud_size u) = None" | block where "0 < ud_size u" "malloc (ud_size u) = Some block"
    by fastforce
  then show ?thesis
  proof cases
    case 1
    then show ?thesis using that(1) shared by (simp add: data_assign_def data_reset_def ud_empty_def)
  next
    case 2
    then show ?thesis using that(1) shared by (simp add: data_assign_def data_reset_def)
  next
    case 3
    let ?d = "\<lparr>ud_mem = ud_bytes u, ud_off = 0, ud_size = ud_size u, ud_shared = True\<rparr>"
    have "view_ok ?d" "ud_bytes ?d = ud_bytes u" using b view_ok_size_bound [OF assms(2)] by (simp_all add: view_ok_def ud_bytes_def)
    then show ?thesis using that(2) [of ?d] shared 3 ud_read_all [OF assms(2)] by (simp add: data_assign_def data_reset_def)
  qed
qed

definition page_ready :: "int \<Rightarrow> byte list \<Rightarrow> page \<Rightarrow> bool" where
  "page_ready n bs pa \<longleftrightarrow> pa_number pa = n \<and> view_ok (pa_data pa) \<and> ud_bytes (pa_data pa) = bs \<and> ud_shared (pa_data pa) \<and>
     ds_data (pa_ds pa) = pa_data pa \<and> 512 \<le> length bs \<and> length bs \<le> 65536"

lemma acquire_whole:
  assumes "pager_ok p" "1 \<le> n"
  obtains u p' where "pager_acquirePageData n p = Some (u, p')" "pager_ok p'" "pager_same p p'" "view_ok u" "ud_empty u"
  | u p' bs where "pager_acquirePageData n p = Some (u, p')" "pager_ok p'" "pager_same p p'" "view_ok u"
    "db_page p n = Some bs" "ud_bytes u = bs" "length bs = nat (pg_pageSize p)" "ud_size u = nat (pg_pageSize p)"
proof -
  have files: "pager_files_ok p" using assms(1) by (simp add: pager_ok_def)
  note size = pager_page_size [OF files]
  let ?ps = "nat (pg_pageSize p)"
  obtain u p' where u: "pager_acquirePageData_part n 0 ?ps p = Some (u, p')" "pager_ok p'" "pager_same p p'"
    "u = ud_null \<or> (\<exists>bs. db_page p n = Some bs \<and> view_ok u \<and> ud_bytes u = take ?ps (drop (nat 0) bs))"
    using acquire_page [OF assms, of 0 ?ps] size(2) by auto
  have acq: "pager_acquirePageData n p = Some (u, p')" using u(1) size(1) by (simp add: pager_acquirePageData_def)
  have v: "view_ok u" using u(4) by auto
  show ?thesis
  proof (cases "u = ud_null")
    case True
    then show ?thesis using that(1) acq u(2,3) by simp
  next
    case False
    then obtain bs where bs: "db_page p n = Some bs" "ud_bytes u = take ?ps bs" using u(4) by auto
    have us: "ud_size u = ?ps" using acquire_size [OF u(1)] False by simp
    then have "?ps \<le> length bs" using length_ud_bytes [OF v] bs(2) by auto
    moreover have "length bs \<le> ?ps"
    proof (cases "pg_codec p")
      case None
      then show ?thesis using bs(1) by (auto simp: db_page_def db_raw_def Let_def split: option.splits)
    next
      case (Some cipher)
      then have "length bs = length (db_raw p n)" using bs(1) files by (auto simp: db_page_def pager_files_ok_def Let_def)
      then show ?thesis by (auto simp: db_raw_def Let_def split: option.splits)
    qed
    ultimately have len: "length bs = ?ps" by simp
    show ?thesis using acq u(2,3) v bs(1) _ len us by (rule that(2)) (simp add: bs(2) len)
  qed
qed

lemma page_load_cases:
  assumes "pager_ok p" "1 \<le> n" "pa_number pa = n" "pa_data pa = ud_null"
  obtains pa' p' where "page_load pa p = Some (False, pa', p')" "pager_ok p'" "pager_same p p'"
  | bs d p' where "page_load pa p = Some (True, pa\<lparr>pa_data := d, pa_ds := ds_reset d (pa_ds pa)\<rparr>, p')" "pager_ok p'" "pager_same p p'"
    "db_page p n = Some bs" "length bs = nat (pg_pageSize p)" "view_ok d" "ud_bytes d = bs" "ud_shared d"
proof -
  note none = that(1) and some = that(2)
  have load: ?thesis if u: "pager_acquirePageData n p = Some (u, p')" "pager_ok p'" "pager_same p p'" "view_ok u"
    and c: "ud_empty u \<or> db_page p n = Some (ud_bytes u) \<and> length (ud_bytes u) = nat (pg_pageSize p)" for u p'
  proof -
    have m: "malloc_ok (pager_malloc p')" using u(2) by (auto simp: pager_ok_def pager_files_ok_def Let_def sys_live_def pager_malloc_def)
    show ?thesis
    proof (rule data_assign_copy [OF m u(4)])
      fix d assume "data_assign (pager_malloc p') ud_null u = Some d" "ud_empty d"
      then show ?thesis using none u(1-3) assms(3,4) by (simp add: page_load_def)
    next
      fix d assume d: "data_assign (pager_malloc p') ud_null u = Some d" "view_ok d" "ud_bytes d = ud_bytes u" "ud_size d = ud_size u" "ud_shared d"
      show ?thesis
      proof (cases "ud_empty d")
        case True
        then show ?thesis using none u(1-3) d assms(3,4) by (simp add: page_load_def)
      next
        case False
        have "page_load pa p = Some (True, pa\<lparr>pa_data := d, pa_ds := ds_reset d (pa_ds pa)\<rparr>, p')"
          using d(1) u(1) assms(3,4) False by (simp add: page_load_def)
        then show ?thesis using u(2,3) _ _ d(2) _ d(5) by (rule some) (use c False d(3,4) in \<open>auto simp: ud_empty_def\<close>)
      qed
    qed
  qed
  show ?thesis by (rule acquire_whole [OF assms(1,2)]; rule load) auto
qed

section \<open>Parsing\<close>

lemma enough_iff:
  assumes "view_ok d" "- 4611686018427387904 \<le> i" "i < 4611686018427387904"
  shows "isEnough d i \<longleftrightarrow> 0 \<le> i \<and> i \<le> int (ud_size d)"
proof (cases "0 \<le> i")
  case True
  then show ?thesis using assms(3) by (simp add: isEnough_def to_size_nonneg size_max_def nat_le_iff)
next
  case False
  have "i mod size_max = (i + size_max) mod size_max" by simp
  also have "\<dots> = i + size_max" using False assms(2) by (intro mod_pos_pos_trivial) (simp_all add: size_max_def)
  finally have "i mod size_max = i + size_max" .
  then show ?thesis using False assms(2) view_ok_size_bound [OF assms(1)] by (simp add: isEnough_def to_size_def size_max_def)
qed

lemma page_ready_size: "page_ready n bs pa \<Longrightarrow> ud_size (pa_data pa) = length bs"
  by (metis page_ready_def length_ud_bytes)

lemma header_offset: "page_ready n bs pa \<Longrightarrow> getOffsetOfHeader pa = int (header_at n)"
  by (simp add: page_ready_def getOffsetOfHeader_def header_at_def)

lemma page_pointers_spec:
  assumes "page_ready n bs pa" "pa_type pa = type_in n bs" "pa_cellPointers pa = map (pointer_in n bs) [0 ..< i]" "i + k \<le> 32767"
  shows "page_pointers k (int i) pa p = Some (True, pa\<lparr>pa_cellPointers := map (pointer_in n bs) [0 ..< i + k]\<rparr>, p) \<or>
    (\<exists>pa' m. page_pointers k (int i) pa p = Some (False, pa', pager_markAsCorrupted n m p))"
  using assms
proof (induction k arbitrary: i pa)
  case (Suc k)
  let ?o = "getOffsetOfHeader pa + getOffsetOfCellPointer pa + int i * 2"
  define q where "q = header_at n + (if interior_type (type_in n bs) then 12 else 8) + 2 * i"
  note r = Suc.prems(1) and size = page_ready_size [OF Suc.prems(1)]
  have o: "?o = int q" using Suc.prems(2) header_offset [OF r] by (simp add: getOffsetOfCellPointer_def isInteriorPage_def interior_type_def q_def)
  have q: "q \<le> 70000" using Suc.prems(4) by (simp add: header_at_def q_def)
  have v: "view_ok (pa_data pa)" "ds_data (pa_ds pa) = pa_data pa" "pa_number pa = n" "ud_bytes (pa_data pa) = bs"
    using r by (simp_all add: page_ready_def)
  have enough: "ds_isEnough (?o + 2) (pa_ds pa) \<longleftrightarrow> q + 2 \<le> length bs"
    using q enough_iff [OF v(1), of "int q + 2"] by (simp only: ds_isEnough_def v(2) size o) linarith
  show ?case
  proof (cases "q + 2 \<le> length bs")
    case False
    then have "page_pointers (Suc k) (int i) pa p = Some (False, pa, pager_markAsCorrupted n ''Unable to deserialize CellPointer.'' p)"
      using enough v(3) by (simp add: Let_def)
    then show ?thesis by blast
  next
    case True
    have "int q + 2 \<le> int (ud_size (pa_data pa))" using True size by linarith
    then have get: "get2BytesInt (ds_data (pa_ds pa)) ?o = Some (pointer_in n bs i)"
      using get2BytesInt_be [OF v(1), of "int q"] by (simp only: v(2) o) (simp add: bytes_at_def v(4) pointer_in_def q_def [symmetric])
    let ?pa = "pa\<lparr>pa_cellPointers := pa_cellPointers pa @ [pointer_in n bs i]\<rparr>"
    have step: "page_pointers (Suc k) (int i) pa p = page_pointers k (int (Suc i)) ?pa p"
      using enough True get by (simp add: Let_def add.commute)
    have "page_ready n bs ?pa" "pa_type ?pa = type_in n bs" "pa_cellPointers ?pa = map (pointer_in n bs) [0 ..< Suc i]" "Suc i + k \<le> 32767"
      using Suc.prems by (simp_all add: page_ready_def)
    from Suc.IH [OF this] show ?thesis unfolding step by simp
  qed
qed simp

lemma be_sint_bounds:
  assumes "length bs = Suc n"
  shows "- (2 ^ (7 + 8 * n)) \<le> be_sint bs" "be_sint bs < 2 ^ (7 + 8 * n)"
proof -
  have "(2 :: int) ^ (8 * Suc n) = 2 * 2 ^ (7 + 8 * n)" by (simp add: power_add)
  then show "- (2 ^ (7 + 8 * n)) \<le> be_sint bs" "be_sint bs < 2 ^ (7 + 8 * n)"
    using be_uint_bounds [of bs] assms by (auto simp: be_sint_def)
qed

text \<open>What a page is after a successful initialization.\<close>

definition children_ok :: "int \<Rightarrow> byte list \<Rightarrow> int \<Rightarrow> bool" where
  "children_ok n bs count \<longleftrightarrow> (\<forall>x \<in> set (pointers_in n bs). 0 \<le> x \<and> x + 4 \<le> int (length bs)) \<and>
     (\<forall>c \<in> set (children_in n bs). 1 \<le> c \<and> c \<le> count)"

lemma page_child_cases:
  assumes "page_ready n bs pa" "- 32768 \<le> x" "x < 32768" "\<not> (- 4 \<le> x \<and> x < 0)"
  obtains m where "page_child x pa p = Some (False, pa, pager_markAsCorrupted n m p)"
  | "page_child x pa p = Some (True, pa\<lparr>pa_subpagenos := pa_subpagenos pa @ [child_at bs x]\<rparr>, p)"
    "0 \<le> x" "x + 4 \<le> int (length bs)" "1 \<le> child_at bs x" "child_at bs x \<le> pager_getNumberOfPages p"
proof -
  note size = page_ready_size [OF assms(1)]
  have v: "view_ok (pa_data pa)" "ds_data (pa_ds pa) = pa_data pa" "pa_number pa = n" "ud_bytes (pa_data pa) = bs"
    using assms(1) by (simp_all add: page_ready_def)
  have enough: "ds_isEnough (x + 4) (pa_ds pa) \<longleftrightarrow> 0 \<le> x \<and> x + 4 \<le> int (length bs)"
    using assms(2-4) enough_iff [OF v(1), of "x + 4"] by (simp only: ds_isEnough_def v(2) size) linarith
  show ?thesis
  proof (cases "0 \<le> x \<and> x + 4 \<le> int (length bs)")
    case False
    then show ?thesis using that(1) enough v(3) by (simp add: page_child_def)
  next
    case True
    then have "get4BytesInt (ds_data (pa_ds pa)) x = Some (child_at bs x)"
      using get4BytesInt_be [OF v(1), of x] size by (simp add: v(2,4) bytes_at_def child_at_def)
    then have eq: "page_child x pa p =
      (if child_at bs x > pager_getNumberOfPages p
       then Some (False, pa, pager_markAsCorrupted n ''Page number: %d exceeds the page count: %d.'' p)
       else if child_at bs x \<le> 0
       then Some (False, pa, pager_markAsCorrupted n ''Pageno: %d is less than or equal to 0.'' p)
       else Some (True, pa\<lparr>pa_subpagenos := pa_subpagenos pa @ [child_at bs x]\<rparr>, p))"
      using enough True v(3) by (simp add: page_child_def)
    show ?thesis
    proof (cases "1 \<le> child_at bs x \<and> child_at bs x \<le> pager_getNumberOfPages p")
      case ok: True
      then show ?thesis using that(2) eq True by simp
    next
      case False
      then show ?thesis using that(1) eq by (cases "child_at bs x > pager_getNumberOfPages p") simp_all
    qed
  qed
qed

lemma page_children_spec:
  assumes "page_ready n bs pa" "pa_cellPointers pa = ptrs" "isInteriorPage pa" "i + k = length offs" "offs = ptrs @ [int (header_at n) + 8]"
    "\<forall>x \<in> set ptrs. - 32768 \<le> x \<and> x < 32768 \<and> \<not> (- 4 \<le> x \<and> x < 0)"
  shows "page_children k (int i) pa p = Some (True, pa\<lparr>pa_subpagenos := pa_subpagenos pa @ map (child_at bs) (drop i offs)\<rparr>, p) \<and>
      (\<forall>x \<in> set (drop i offs). 0 \<le> x \<and> x + 4 \<le> int (length bs) \<and> 1 \<le> child_at bs x \<and> child_at bs x \<le> pager_getNumberOfPages p) \<or>
    (\<exists>pa' m. page_children k (int i) pa p = Some (False, pa', pager_markAsCorrupted n m p))"
  using assms(1-4)
proof (induction k arbitrary: i pa)
  case (Suc k)
  let ?x = "offs ! i" and ?pa = "pa\<lparr>pa_subpagenos := pa_subpagenos pa @ [child_at bs (offs ! i)]\<rparr>"
  have off: "childOffset (int i) pa = Some ?x"
    using Suc.prems(2-4) assms(5) header_offset [OF Suc.prems(1)] by (auto simp: childOffset_def hasRightMostPageNo_def at_def nth_append)
  have "?x \<in> set offs" using Suc.prems(4) by (intro nth_mem) linarith
  then have x: "- 32768 \<le> ?x" "?x < 32768" "\<not> (- 4 \<le> ?x \<and> ?x < 0)" using assms(5,6) by (auto simp: header_at_def)
  have drop: "drop i offs = ?x # drop (Suc i) offs" using Suc.prems(4) by (simp add: Cons_nth_drop_Suc)
  have ih: "page_ready n bs ?pa" "pa_cellPointers ?pa = ptrs" "isInteriorPage ?pa" "Suc i + k = length offs"
    using Suc.prems by (simp_all add: page_ready_def isInteriorPage_def)
  show ?case using Suc.IH [OF ih]
    by (rule_tac page_child_cases [OF Suc.prems(1) x, of p]) (auto simp: off drop add.commute)
qed simp

lemma ds_seek_in: "view_ok (ds_data r) \<Longrightarrow> 0 \<le> c \<Longrightarrow> c \<le> int (ud_size (ds_data r)) \<Longrightarrow> ds_seek c r = r\<lparr>ds_cursor := c\<rparr>"
  using view_ok_size_bound [of "ds_data r"] by (auto simp: ds_seek_def iter_seek_def to_off_def min_def)

lemma page_parse_header:
  assumes "page_ready n bs pa"
  obtains r1 where "advance1ByteInt (ds_seek (getOffsetOfHeader pa) (pa_ds pa)) = Some (be_sint (take 1 (drop (header_at n) bs)), r1)"
    "ds_data r1 = pa_data pa"
    "\<exists>r2. advance2BytesInt (ds_advance 2 r1) = Some (cells_in n bs, r2) \<and> ds_data r2 = pa_data pa"
proof -
  note size = page_ready_size [OF assms]
  have v: "view_ok (pa_data pa)" "ds_data (pa_ds pa) = pa_data pa" "ud_bytes (pa_data pa) = bs" "512 \<le> length bs"
    "getOffsetOfHeader pa = int (header_at n)"
    using assms header_offset [OF assms] by (simp_all add: page_ready_def)
  have h: "header_at n \<le> 100" by (simp add: header_at_def)
  let ?h = "int (header_at n)"
  let ?r = "(pa_ds pa)\<lparr>ds_cursor := ?h\<rparr>" and ?r1 = "(pa_ds pa)\<lparr>ds_cursor := ?h + 1\<rparr>" and ?r2 = "(pa_ds pa)\<lparr>ds_cursor := ?h + 3\<rparr>"
  have seek: "ds_seek c ((pa_ds pa)\<lparr>ds_cursor := x\<rparr>) = (pa_ds pa)\<lparr>ds_cursor := c\<rparr>" if "0 \<le> c" "c \<le> 200" for c x
    using ds_seek_in [of "(pa_ds pa)\<lparr>ds_cursor := x\<rparr>" c] v size that by simp
  have at: "ds_seek ?h (pa_ds pa) = ?r" using seek [of ?h "ds_cursor (pa_ds pa)"] h by simp
  have "get1ByteInt (pa_data pa) ?h = Some (be_sint (take 1 (drop (header_at n) bs)))"
    using get1ByteInt_be [OF v(1), of ?h] v(3,4) h size by (simp add: bytes_at_def)
  then have 1: "advance1ByteInt ?r = Some (be_sint (take 1 (drop (header_at n) bs)), ?r1)"
    using seek [of "?h + 1" ?h] h v(2) by (simp add: advance1ByteInt_def advance_read_def ds_advance_def)
  have "ds_advance 2 ?r1 = ?r2" using seek [of "?h + 3" "?h + 1"] h by (simp add: ds_advance_def add.commute)
  moreover have "nat (?h + 3) = header_at n + 3" by simp
  then have "get2BytesInt (pa_data pa) (?h + 3) = Some (cells_in n bs)"
    using get2BytesInt_be [OF v(1), of "?h + 3"] v(3,4) h size by (simp add: bytes_at_def cells_in_def)
  ultimately have 2: "advance2BytesInt (ds_advance 2 ?r1) = Some (cells_in n bs, ds_advance 2 ?r2)" "ds_data (ds_advance 2 ?r2) = pa_data pa"
    using v(2) by (simp_all add: advance2BytesInt_def advance_read_def ds_advance_def ds_seek_def)
  show ?thesis using that [of ?r1] 1 2 v(2,5) at by simp
qed

text \<open>The page shows its bytes: the type, and for a page of a B-tree the pointers and children.\<close>

definition page_shows :: "int \<Rightarrow> byte list \<Rightarrow> int \<Rightarrow> page \<Rightarrow> bool" where
  "page_shows n bs count pa \<longleftrightarrow> page_ready n bs pa \<and> pa_type pa = type_in n bs \<and>
     (type_in n bs \<noteq> Page_Unknown \<longrightarrow> pa_cellPointers pa = pointers_in n bs \<and>
        (if interior_type (type_in n bs) then pa_subpagenos pa = children_in n bs \<and> children_ok n bs count else pa_subpagenos pa = []))"

lemma pointers_bounds: "512 \<le> length bs \<Longrightarrow> cells_in n bs < 32768" 
  using be_sint_bounds(2) [of "take 2 (drop (header_at n + 3) bs)" 1] by (simp add: cells_in_def header_at_def split: if_splits)

lemma be_sint_2: "length bs \<le> 2 \<Longrightarrow> - 32768 \<le> be_sint bs \<and> be_sint bs < 32768"
proof -
  assume l: "length bs \<le> 2"
  then consider "bs = []" | "length bs = Suc 0" | "length bs = Suc 1" by (cases bs) (auto simp: le_Suc_eq)
  then show ?thesis
    by cases (use be_sint_bounds [of bs 0] be_sint_bounds [of bs 1] in \<open>auto simp: be_sint_def be_uint_def\<close>)
qed

lemma page_parse_cases:
  assumes "page_ready n bs pa" "pointers_safe n bs" "pa_cellPointers pa = []" "pa_subpagenos pa = []"
  obtains pa' m where "page_parse pa p = Some (False, pa', pager_markAsCorrupted n m p)"
  | pa' where "page_parse pa p = Some (True, pa', p)" "page_shows n bs (pager_getNumberOfPages p) pa'" "pa_state pa' = pa_state pa"
proof -
  obtain r1 r2 where r1: "advance1ByteInt (ds_seek (getOffsetOfHeader pa) (pa_ds pa)) = Some (be_sint (take 1 (drop (header_at n) bs)), r1)"
    "ds_data r1 = pa_data pa" and r2: "advance2BytesInt (ds_advance 2 r1) = Some (cells_in n bs, r2)" "ds_data r2 = pa_data pa"
    using page_parse_header [OF assms(1)] by blast
  let ?t = "type_in n bs" and ?c = "nat (cells_in n bs)" and ?ptrs = "pointers_in n bs"
  let ?pa1 = "pa\<lparr>pa_type := ?t, pa_ds := r1\<rparr>" and ?pa2 = "pa\<lparr>pa_type := ?t, pa_ds := r2\<rparr>"
  let ?pa3 = "?pa2\<lparr>pa_cellPointers := ?ptrs\<rparr>"
  have ready: "page_ready n bs ?pa1" "page_ready n bs ?pa2" "page_ready n bs ?pa3" using assms(1) r1(2) r2(2) by (simp_all add: page_ready_def)
  have n: "pa_number pa = n" using assms(1) by (simp add: page_ready_def)
  have eq: "page_parse pa p = (if ?t = Page_Unknown then Some (True, ?pa1, p)
      else if cells_in n bs < 0 then Some (False, ?pa2, pager_markAsCorrupted n ''Unexpected CellCount: %d.'' p)
      else do {
        (ok, pa, p) \<leftarrow> page_pointers ?c 0 ?pa2 p;
        if \<not> ok then Some (False, pa, p)
        else if pa_type pa = InteriorTable \<or> pa_type pa = InteriorIndex
        then page_children (length (pa_cellPointers pa) + (if hasRightMostPageNo pa then 1 else 0)) 0 pa p
        else Some (True, pa, p)
      })"
    using r1(1) r2(1) n by (simp add: page_parse_def type_in_def Let_def)
  show ?thesis
  proof (cases "?t = Page_Unknown \<or> cells_in n bs < 0")
    case True
    show ?thesis
    proof (cases "?t = Page_Unknown")
      case unknown: True
      then show ?thesis using that(2) [of ?pa1] eq ready(1) by (simp add: page_shows_def)
    next
      case False
      then show ?thesis using that(1) [of ?pa2] True eq by simp
    qed
  next
    case False
    have "0 + ?c \<le> 32767" using pointers_bounds [of bs n] assms(1) by (simp add: page_ready_def)
    then have "page_pointers ?c 0 ?pa2 p = Some (True, ?pa3, p) \<or> (\<exists>pa' m. page_pointers ?c 0 ?pa2 p = Some (False, pa', pager_markAsCorrupted n m p))"
      using page_pointers_spec [OF ready(2), of 0 ?c p] assms(3) by (simp add: pointers_in_def)
    then show ?thesis
    proof
      assume "\<exists>pa' m. page_pointers ?c 0 ?pa2 p = Some (False, pa', pager_markAsCorrupted n m p)"
      then show ?thesis using that(1) eq False by auto
    next
      assume ptrs: "page_pointers ?c 0 ?pa2 p = Some (True, ?pa3, p)"
      show ?thesis
      proof (cases "interior_type ?t")
        case leaf: False
        then show ?thesis using that(2) [of ?pa3] eq False ptrs ready(3) assms(4) by (simp add: interior_type_def page_shows_def)
      next
        case interior: True
        have int: "isInteriorPage ?pa3" using interior by (simp add: isInteriorPage_def interior_type_def)
        have safe: "\<forall>x \<in> set ?ptrs. - 32768 \<le> x \<and> x < 32768 \<and> \<not> (- 4 \<le> x \<and> x < 0)"
          using assms(2) interior be_sint_2 by (auto simp: pointers_safe_def pointers_in_def pointer_in_def)
        have go: "page_parse pa p = page_children (length ?ptrs + 1) 0 ?pa3 p"
          using eq False ptrs interior int by (simp add: interior_type_def hasRightMostPageNo_def)
        show ?thesis
          using page_children_spec [OF ready(3) _ int _ refl safe, of 0 "length ?ptrs + 1" p] that(1)
            that(2) [of "?pa3\<lparr>pa_subpagenos := children_in n bs\<rparr>"] go ready(3) interior assms(4)
          by (auto simp: page_shows_def page_ready_def children_in_def children_ok_def)
      qed
    qed
  qed
qed

lemma pager_same_count: "pager_same p p' \<Longrightarrow> pager_getNumberOfPages p' = pager_getNumberOfPages p"
  by (simp add: pager_same_def pager_getNumberOfPages_def wal_getMaxPageno_def)

lemma page_initialize_cases:
  assumes "pager_ok p" "1 \<le> n" "\<forall>bs. db_page p n = Some bs \<longrightarrow> pointers_safe n bs"
  obtains pa p' where "page_initialize (page_init n, p) = Some (False, pa, p')" "pager_ok p'" "pager_same p p'"
  | bs pa p' where "page_initialize (page_init n, p) = Some (True, pa, p')" "pager_ok p'" "pager_same p p'"
    "db_page p n = Some bs" "page_shows n bs (pager_getNumberOfPages p) pa"
proof -
  let ?pa = "(page_init n)\<lparr>pa_state := State_Initializing\<rparr>"
  have first: "page_initialize (page_init n, p) =
      Some (ok, fst x\<lparr>pa_state := (if ok then State_Initialized else State_Failed)\<rparr>, snd x)"
    if "page_doInitialize (?pa, p) = Some (ok, x)" for ok x
    using page_once.initialize_first [of "(page_init n, p)" page_doInitialize ok x] that
    by (simp add: page_initialize_def page_init_def)
  have fresh: "pa_number ?pa = n" "pa_data ?pa = ud_null" "pa_cellPointers ?pa = []" "pa_subpagenos ?pa = []" "pa_ds ?pa = ds_init ud_null"
    by (simp_all add: page_init_def)
  show ?thesis
  proof (rule page_load_cases [OF assms(1,2) fresh(1,2)])
    fix pa' p' assume l: "page_load ?pa p = Some (False, pa', p')" "pager_ok p'" "pager_same p p'"
    then show ?thesis using that(1) first [of False "(pa', p')"] by (simp add: page_doInitialize_def)
  next
    fix bs d p' assume l: "page_load ?pa p = Some (True, ?pa\<lparr>pa_data := d, pa_ds := ds_reset d (pa_ds ?pa)\<rparr>, p')" "pager_ok p'" "pager_same p p'"
      "db_page p n = Some bs" "length bs = nat (pg_pageSize p)" "view_ok d" "ud_bytes d = bs" "ud_shared d"
    let ?pb = "?pa\<lparr>pa_data := d, pa_ds := ds_reset d (pa_ds ?pa)\<rparr>"
    have "512 \<le> pg_pageSize p" "pg_pageSize p \<le> 65536" using assms(1) by (simp_all add: pager_ok_def pager_files_ok_def Let_def)
    then have "512 \<le> length bs" "length bs \<le> 65536" using l(5) by linarith+
    then have ready: "page_ready n bs ?pb" using l(6-8) fresh(1) by (simp add: page_ready_def ds_reset_def)
    have safe: "pointers_safe n bs" using assms(3) l(4) by blast
    have do: "page_doInitialize (?pa, p) = page_parse ?pb p'" using l(1) by (simp add: page_doInitialize_def)
    show ?thesis
    proof (rule page_parse_cases [OF ready safe, of p'])
      show "pa_cellPointers ?pb = []" "pa_subpagenos ?pb = []" using fresh(3,4) by simp_all
    next
      fix pa' m assume c: "page_parse ?pb p' = Some (False, pa', pager_markAsCorrupted n m p')"
      show ?thesis using that(1) first [of False "(pa', pager_markAsCorrupted n m p')"] do c l(2) pager_same_trans [OF l(3) pager_mark_same(1)] by simp
    next
      fix pa' assume c: "page_parse ?pb p' = Some (True, pa', p')" "page_shows n bs (pager_getNumberOfPages p') pa'"
      have "page_shows n bs (pager_getNumberOfPages p) (pa'\<lparr>pa_state := State_Initialized\<rparr>)"
        using c(2) pager_same_count [OF l(3)] by (simp add: page_shows_def page_ready_def)
      then show ?thesis using that(2) first [of True "(pa', p')"] do c(1) l(2-4) by simp
    qed
  qed
qed

section \<open>Properties\<close>


text \<open>A database of two pages of 512 bytes.\<close>

definition demo_tree :: "byte list \<Rightarrow> pager" where
  "demo_tree bs = demo_pager\<lparr>pg_file := pf_setPageSize 512 (pf_init ((demo_fh bs)\<lparr>fh_fileSize := 1024\<rparr>))\<rparr>"

lemma demo_tree_ok:
  assumes "length bs = 1024"
  shows "pager_ok (demo_tree bs)" "db_page (demo_tree bs) n = Some (take 512 (drop (nat (n - 1) * 512) bs))"
    "pager_getNumberOfPages (demo_tree bs) = 2" "pager_getUsableSize (demo_tree bs) = 512"
proof -
  let ?h = "(demo_fh bs)\<lparr>fh_fileSize := 1024\<rparr>" and ?f = "pf_setPageSize 512 (pf_init ((demo_fh bs)\<lparr>fh_fileSize := 1024\<rparr>))"
  have h: "fh_ok ?h" "fh_content ?h = bs" "sys_pagesize (fh_sys ?h) = 4096" "fh_sys ?h = demo_sys"
    using assms by (simp_all add: fh_ok_def demo_fh_def fh_init_def fh_content_def demo_sys_def)
  have "0 < (512 :: nat)" "(512 :: nat) \<le> 65536" by simp_all
  note ok = setPageSize_ok [OF h(1) _ this]
  have f: "pf_ok ?f" "fh_content (pf_file ?f) = bs" "pf_pageSize ?f = 512" "fh_sys (pf_file ?f) = demo_sys"
    using ok h by simp_all
  have f': "pf_cachePageSize ?f = 4096" "pbc_range (lru_sub (pf_cache ?f)) = \<lparr>rg_loc = 0, rg_len = 1\<rparr>"
    by (simp_all add: pf_setPageSize_def pf_init_def Let_def fh_size_ok [OF h(1)] h(2,3,4) assms
        demo_sys_def to_size_def size_max_def pbc_setRange_def pbc_init_def lru_init_def)
  have live: "sys_live demo_sys" using demo_progresses by (simp add: sys_live_def malloc_ok_def) (simp add: demo_sys_def)
  have pf: "pg_file (demo_tree bs) = ?f" by (simp add: demo_tree_def)
  have rest: "pg_pageSize (demo_tree bs) = 512" "pg_codec (demo_tree bs) = None" "pg_numberOfPages (demo_tree bs) = 2"
    "wal_pages2Frames (pg_wal (demo_tree bs)) = []" "wal_pageSize (pg_wal (demo_tree bs)) = 512" "pg_cache (demo_tree bs) = pgc_init 16777216"
    by (simp_all add: demo_tree_def demo_pager_simps)
  have "pager_files_ok (demo_tree bs)"
    unfolding pager_files_ok_def Let_def rest pf f f'
    using live f(1) demo_page_index by (auto simp: rg_set_def assms)
  then show "pager_ok (demo_tree bs)"
    by (simp add: pager_ok_def rest pgc_init_def lru_init_def lru_inv_def lru_abs_def)
  show "db_page (demo_tree bs) n = Some (take 512 (drop (nat (n - 1) * 512) bs))" by (simp add: db_page_def db_raw_def rest pf f)
  show "pager_getNumberOfPages (demo_tree bs) = 2" by (simp add: pager_getNumberOfPages_def wal_getMaxPageno_def rest)
  show "pager_getUsableSize (demo_tree bs) = 512" by (simp add: pager_getUsableSize_def demo_tree_def demo_pager_def)
qed

text \<open>Its second page: a leaf of a table with one row, whose only column is 42.\<close>

definition demo_leaf :: "byte list" where
  "demo_leaf = [13, 0, 0, 0, 1, 0, 0, 0, 1, 244] @ replicate 490 0 @ [3, 1, 2, 1, 42] @ replicate 7 0"

lemma demo_leaf_facts: "length (replicate 512 0 @ demo_leaf) = 1024" "db_page (demo_tree (replicate 512 0 @ demo_leaf)) 2 = Some demo_leaf"
  using demo_tree_ok(2) [of "replicate 512 0 @ demo_leaf" 2] by (simp_all add: demo_leaf_def)

lemma demo_leaf_parsed: "type_in 2 demo_leaf = LeafTable" "pointers_in 2 demo_leaf = [500]"
  by code_simp+


definition demo_interior :: udata where
  "demo_interior = \<lparr>ud_mem = [5, 0, 0, 0, 1, 0, 0, 0, 0, 0, 0, 2, 0xFF, 0xFE, 0, 0], ud_off = 0, ud_size = 16, ud_shared = True\<rparr>"

text \<open>
  A cell pointer that points to one of the four bytes before the page passes the check of
  the bounds, and the number of the child is read outside of the buffer.
\<close>

theorem page_pointer_before_buffer:
  "case page_with (pager_malloc p) 2 demo_interior of Some pa \<Rightarrow> Option.is_none (page_doInitialize (pa, p)) | None \<Rightarrow> False"
  by code_simp

text \<open>
  The type of the first page is taken from the start of the file and not from the header of the
  page when the data of the page is given.
\<close>

lemma acquireType_first_page:
  assumes "page_with malloc 1 d = Some pa" "ud_byte d 0 = Some 0x53" "0 < ud_size d"
  shows "\<exists>pa'. acquireType pa p = Some (Some Page_Unknown, pa', p)"
proof -
  obtain c where "pa = (page_init 1)\<lparr>pa_ds := ds_init d, pa_data := c\<rparr>" using assms(1) by (auto simp: page_with_def bind_Some_conv)
  then show ?thesis using assms(2,3) by (simp add: acquireType_def ds_init_def ud_empty_def get1ByteInt_def ds_seek_def convertToPageType_def)
qed

end
