(* ===== verification/WCDB_Cell.thy ===== *)
theory WCDB_Cell
  imports WCDB_Page
begin

unbundle bit_operations_syntax

text \<open>
  \<open>src/src/common/repair/parse/Cell.cpp\<close>: a cell of a page, that is a row of a table or an entry
  of an index, with its payload, which may go on in a chain of overflow pages, and the columns
  of the record in it.

  A cell refers to its page and reads further pages from the pager.  A sum of two \<open>int\<close>s that
  overflows wraps.
\<close>

section \<open>The state\<close>

datatype cell_type = Cell_Null | Cell_Integer | Cell_Real | Cell_Text | Cell_BLOB

record cell =
  ce_state :: init_state
  ce_page :: page
  ce_leftChild :: u32
  ce_rowid :: int
  ce_pointer :: int
  ce_ds :: deserialization
  ce_overflowed :: udata
  ce_nonOverflowed :: udata
  ce_payload :: udata
  ce_columns :: "(int \<times> int) list"

definition cell_init :: "int \<Rightarrow> page \<Rightarrow> cell" where
  "cell_init pointer pa =
     \<lparr>ce_state = State_None, ce_page = pa, ce_leftChild = 0, ce_rowid = 0, ce_pointer = pointer, ce_ds = ds_init ud_null,
      ce_overflowed = ud_null, ce_nonOverflowed = ud_null, ce_payload = ud_null, ce_columns = []\<rparr>"

definition getCell :: "int \<Rightarrow> page \<Rightarrow> cell option" where
  "getCell index pa = map_option (\<lambda>pointer. cell_init pointer pa) (at (pa_cellPointers pa) index)"

section \<open>Serial types and values\<close>

definition isSerialTypeSanity :: "int \<Rightarrow> bool" where
  "isSerialTypeSanity serialType \<longleftrightarrow> serialType \<ge> 0 \<and> serialType \<noteq> 10 \<and> serialType \<noteq> 11"

definition getLengthOfSerialType :: "int \<Rightarrow> int option" where
  "getLengthOfSerialType serialType =
     (if serialType \<le> 10 then at [0, 1, 2, 3, 4, 6, 8, 8, 0, 0] serialType
      else Some ((serialType - 12 - serialType smod 2) sdiv 2))"

definition getValueType :: "int \<Rightarrow> cell \<Rightarrow> cell_type option" where
  "getValueType index ce = do {
     (serialType, _) \<leftarrow> at (ce_columns ce) index;
     Some (if serialType = 0 then Cell_Null
           else if serialType = 7 then Cell_Real
           else if serialType \<le> 10 then Cell_Integer
           else if serialType smod 2 \<noteq> 0 then Cell_Text else Cell_BLOB)
   }"

definition integerValue :: "int \<Rightarrow> cell \<Rightarrow> int option" where
  "integerValue index ce = do {
     (serialType, offset) \<leftarrow> at (ce_columns ce) index;
     if serialType = 8 then Some 0
     else if serialType = 9 then Some 1
     else do {
       len \<leftarrow> getLengthOfSerialType serialType;
       let d = ds_data (ce_ds ce);
       if len = 1 then get1ByteInt d offset
       else if len = 2 then get2BytesInt d offset
       else if len = 3 then get3BytesInt d offset
       else if len = 4 then get4BytesInt d offset
       else if len = 6 then get6BytesInt d offset
       else if len = 8 then get8BytesInt d offset
       else Some 0
     }
   }"

definition doubleValue :: "int \<Rightarrow> cell \<Rightarrow> u64 option" where
  "doubleValue index ce = do {
     (_, offset) \<leftarrow> at (ce_columns ce) index;
     get8BytesDouble (ds_data (ce_ds ce)) offset
   }"

definition textValue :: "int \<Rightarrow> cell \<Rightarrow> udata option" where
  "textValue index ce = do {
     (serialType, offset) \<leftarrow> at (ce_columns ce) index;
     len \<leftarrow> getLengthOfSerialType serialType;
     Some (ud_immutable (ce_payload ce) offset (to_size len))
   }"

definition stringValue :: "int \<Rightarrow> cell \<Rightarrow> byte list option" where
  "stringValue index ce = do {
     (serialType, offset) \<leftarrow> at (ce_columns ce) index;
     len \<leftarrow> getLengthOfSerialType serialType;
     getString (ds_data (ce_ds ce)) offset (to_size len)
   }"

definition blobValue :: "int \<Rightarrow> cell \<Rightarrow> udata option" where
  "blobValue index ce = do {
     (serialType, offset) \<leftarrow> at (ce_columns ce) index;
     len \<leftarrow> getLengthOfSerialType serialType;
     Some (getData (ds_data (ce_ds ce)) offset (to_size len))
   }"

section \<open>Initialization\<close>

definition cell_corrupted :: "string \<Rightarrow> cell \<Rightarrow> pager \<Rightarrow> pager" where
  "cell_corrupted message ce p = pager_markAsCorrupted (pa_number (ce_page ce)) message p"

text \<open>
  The parts before the payload: the left child, the size of the payload and the row id.  The
  result is the cell with the size and the offset of the payload and the reader; or
  nothing when the cell is corrupted.
\<close>

definition cell_parseLeft :: "cell \<Rightarrow> deserialization \<Rightarrow> ((string + cell \<times> int) \<times> deserialization) option" where
  "cell_parseLeft ce r =
     (if \<not> isLeafPage (ce_page ce)
      then if \<not> ds_canAdvance 4 r then Some (Inl ''Unable to deserialize left child.'', r)
           else do {
             (leftChild, r) \<leftarrow> advance4BytesInt r;
             Some (Inr (ce\<lparr>ce_leftChild := word_of_int leftChild\<rparr>, ce_pointer ce + 4), r)
           }
      else Some (Inr (ce, ce_pointer ce), r))"

definition cell_parseSize :: "cell \<Rightarrow> deserialization \<Rightarrow> ((string + int \<times> int) \<times> deserialization) option" where
  "cell_parseSize ce r =
     (if pa_type (ce_page ce) \<noteq> InteriorTable then do {
        ((lengthOfPayloadSize, payloadSize), r) \<leftarrow> advanceVarint r;
        Some (if lengthOfPayloadSize = 0 then Inl ''Unable to deserialize PayloadSize.''
              else Inr (int lengthOfPayloadSize, to_int32 payloadSize), r)
      }
      else Some (Inr (0, 0), r))"

definition cell_parseRowid :: "cell \<Rightarrow> deserialization \<Rightarrow> ((string + int \<times> cell) \<times> deserialization) option" where
  "cell_parseRowid ce r =
     (if isTablePage (ce_page ce) then do {
        ((lengthOfRowid, rowid), r) \<leftarrow> advanceVarint r;
        Some (if lengthOfRowid = 0 then Inl ''Unable to deserialize Rowid.''
              else Inr (int lengthOfRowid, ce\<lparr>ce_rowid := sint rowid\<rparr>), r)
      }
      else Some (Inr (0, ce), r))"

definition localPayload :: "page \<Rightarrow> pager \<Rightarrow> int \<Rightarrow> int" where
  "localPayload pa p payloadSize =
     (if payloadSize < getMaxLocal pa p then payloadSize
      else let k = getMinLocal pa p + (payloadSize - getMinLocal pa p) smod (pager_getUsableSize p - 4)
           in if k \<le> getMaxLocal pa p then k else getMinLocal pa p)"

text \<open>
  The loop over the overflow pages.  \<open>Inl\<close> is an early return; \<open>Inr\<close> gives the number and the
  cursor at the end of the loop and the filled buffer.
\<close>

partial_function (option) cell_overflow ::
  "int \<Rightarrow> cell \<Rightarrow> int \<Rightarrow> int \<Rightarrow> int set \<Rightarrow> udata \<Rightarrow> pager \<Rightarrow> ((unit + int \<times> int \<times> udata) \<times> pager) option" where
  "cell_overflow payloadSize ce overflowPageno cursorOfPayload overflowPagenos holder p =
     (if \<not> (overflowPageno > 0 \<and> cursorOfPayload < payloadSize) then Some (Inr (overflowPageno, cursorOfPayload, holder), p)
      else if overflowPageno \<in> overflowPagenos
      then Some (Inl (), cell_corrupted ''Overflow page: %d is redundant.'' ce p)
      else if overflowPageno > pager_getNumberOfPages p
      then Some (Inl (), cell_corrupted ''Overflow page number: %d exceeds the page count: %d.'' ce p)
      else do {
        (overflow, p) \<leftarrow> pager_acquirePageData overflowPageno p;
        if ud_empty overflow then Some (Inl (), p)
        else do {
          let overflowSize = min (payloadSize - cursorOfPayload) (pager_getUsableSize p - 4);
          bs \<leftarrow> ud_read overflow 4 (to_size overflowSize);
          holder \<leftarrow> ud_write holder cursorOfPayload bs;
          (nextPageno, _) \<leftarrow> advance4BytesInt (ds_init overflow);
          cell_overflow payloadSize ce nextPageno (cursorOfPayload + overflowSize) (insert overflowPageno overflowPagenos) holder p
        }
      })"

text \<open>The payload: the local bytes followed by the overflow pages, or a part of the page.\<close>

definition cell_payload :: "int \<Rightarrow> int \<Rightarrow> int \<Rightarrow> cell \<Rightarrow> deserialization \<Rightarrow> pager \<Rightarrow> (bool \<times> cell \<times> pager) option" where
  "cell_payload payloadSize localPayloadSize offsetOfPayload ce r p =
     (let data = pa_data (ce_page ce)
      in if localPayloadSize < payloadSize
         then let r = ds_seek (offsetOfPayload + localPayloadSize) r
              in if \<not> ds_canAdvance 4 r then Some (False, ce, cell_corrupted ''Unable to deserialize OverflowPageno.'' ce p)
              else do {
                (overflowPageno, r) \<leftarrow> advance4BytesInt r;
                (holder, _) \<leftarrow> data_reset (pager_malloc p) ud_null None (to_size payloadSize);
                if ud_empty holder then Some (False, ce\<lparr>ce_overflowed := holder\<rparr>, pager_assign p)
                else do {
                  bs \<leftarrow> ud_read data offsetOfPayload (to_size localPayloadSize);
                  holder \<leftarrow> ud_write holder 0 bs;
                  (x, p) \<leftarrow> cell_overflow payloadSize ce overflowPageno localPayloadSize {} holder p;
                  case x of
                    Inl _ \<Rightarrow> Some (False, ce, p)
                  | Inr (overflowPageno, cursorOfPayload, holder) \<Rightarrow>
                      if overflowPageno \<noteq> 0 \<or> cursorOfPayload \<noteq> payloadSize
                      then Some (False, ce\<lparr>ce_overflowed := holder\<rparr>, cell_corrupted ''Unexpected termination of OverflowPage.'' ce p)
                      else Some (True, ce\<lparr>ce_overflowed := holder, ce_payload := holder\<rparr>, p)
                }
              }
         else let d = data_subdata data offsetOfPayload (to_size localPayloadSize)
              in Some (True, ce\<lparr>ce_nonOverflowed := d, ce_payload := d\<rparr>, p))"

text \<open>The loop over the serial types.\<close>

partial_function (option) cell_columns :: "int \<Rightarrow> int \<Rightarrow> int \<Rightarrow> int \<Rightarrow> cell \<Rightarrow> pager \<Rightarrow> (bool \<times> cell \<times> pager) option" where
  "cell_columns endOfSerialTypes endOfValues cursorOfSerialTypes cursorOfValues ce p =
     (if \<not> cursorOfSerialTypes < endOfSerialTypes
      then Some (if cursorOfSerialTypes \<noteq> endOfSerialTypes \<or> cursorOfValues \<noteq> endOfValues
                 then (False, ce, cell_corrupted ''Unexpected termination of Payload.'' ce p) else (True, ce, p))
      else do {
        ((lengthOfSerialType, serialType), r) \<leftarrow> advanceVarint (ds_seek cursorOfSerialTypes (ce_ds ce));
        let ce = ce\<lparr>ce_ds := r\<rparr>;
        let serialType = to_int32 serialType;
        if lengthOfSerialType = 0 then Some (False, ce, cell_corrupted ''Unable to deserialize SerialType.'' ce p)
        else if \<not> isSerialTypeSanity serialType then Some (False, ce, cell_corrupted ''Serial type: %d is illegal.'' ce p)
        else do {
          len \<leftarrow> getLengthOfSerialType serialType;
          let ce = ce\<lparr>ce_columns := ce_columns ce @ [(serialType, cursorOfValues)]\<rparr>;
          let cursorOfValues = narrow32 (cursorOfValues + len);
          if cursorOfValues > endOfValues then Some (False, ce, cell_corrupted ''Unexpected termination of Payload.'' ce p)
          else cell_columns endOfSerialTypes endOfValues (narrow32 (cursorOfSerialTypes + int lengthOfSerialType)) cursorOfValues ce p
        }
      })"

definition cell_record :: "int \<Rightarrow> cell \<Rightarrow> pager \<Rightarrow> (bool \<times> cell \<times> pager) option" where
  "cell_record payloadSize ce p = do {
     ((lengthOfOffsetOfValues, offsetOfValues), r) \<leftarrow> advanceVarint (ds_reset (ce_payload ce) (ce_ds ce));
     let ce = ce\<lparr>ce_ds := r\<rparr>;
     if lengthOfOffsetOfValues = 0 then Some (False, ce, cell_corrupted ''Unable to deserialize CellValueOffset.'' ce p)
     else cell_columns (to_int32 offsetOfValues) payloadSize (int lengthOfOffsetOfValues) (to_int32 offsetOfValues) ce p
   }"

text \<open>The part of \<open>doInitialize\<close> after the row id.\<close>

definition cell_finish :: "int \<Rightarrow> int \<Rightarrow> cell \<Rightarrow> deserialization \<Rightarrow> pager \<Rightarrow> (bool \<times> cell \<times> pager) option" where
  "cell_finish payloadSize offsetOfPayload ce r p =
     (if pa_type (ce_page ce) = InteriorTable then Some (True, ce, p)
      else let localPayloadSize = localPayload (ce_page ce) p payloadSize
           in if \<not> ds_canAdvance localPayloadSize r
              then Some (False, ce, cell_corrupted ''Unable to deserialize LocalPayloadSize.'' ce p)
              else do {
                (ok, ce, p) \<leftarrow> cell_payload payloadSize localPayloadSize offsetOfPayload ce r p;
                if \<not> ok then Some (False, ce, p) else cell_record payloadSize ce p
              })"

text \<open>The part after the left child, and the whole.\<close>

definition cell_sizeAndRowid :: "int \<Rightarrow> cell \<Rightarrow> deserialization \<Rightarrow> pager \<Rightarrow> (bool \<times> cell \<times> pager) option" where
  "cell_sizeAndRowid offsetOfPayload ce r p = do {
     (x, r) \<leftarrow> cell_parseSize ce r;
     case x of Inl e \<Rightarrow> Some (False, ce, cell_corrupted e ce p) | Inr (n, payloadSize) \<Rightarrow> do {
       let offsetOfPayload = offsetOfPayload + n;
       (x, r) \<leftarrow> cell_parseRowid ce r;
       case x of Inl e \<Rightarrow> Some (False, ce, cell_corrupted e ce p) | Inr (n, ce) \<Rightarrow>
         cell_finish payloadSize (offsetOfPayload + n) ce r p
     }
   }"

definition cell_doInitialize :: "cell \<times> pager \<Rightarrow> (bool \<times> cell \<times> pager) option" where
  "cell_doInitialize x = (case x of (ce, p) \<Rightarrow> do {
     let r = ds_seek (ce_pointer ce) (ds_init (pa_data (ce_page ce)));
     (x, r) \<leftarrow> cell_parseLeft ce r;
     case x of Inl e \<Rightarrow> Some (False, ce, cell_corrupted e ce p) | Inr (ce, offsetOfPayload) \<Rightarrow>
       cell_sizeAndRowid offsetOfPayload ce r p
   })"

definition cell_initialize :: "cell \<times> pager \<Rightarrow> (bool \<times> cell \<times> pager) option" where
  "cell_initialize = initialize (\<lambda>x. ce_state (fst x)) (\<lambda>s x. ((fst x)\<lparr>ce_state := s\<rparr>, snd x)) cell_doInitialize"

interpretation cell_once: initializeable "\<lambda>x. ce_state (fst x)" "\<lambda>s x. ((fst x)\<lparr>ce_state := s\<rparr>, snd x :: pager)"
  by unfold_locales simp

section \<open>Overflow chains\<close>

text \<open>The bytes that a chain of overflow pages holds, for a number of bytes that are still needed.\<close>

inductive overflow_chain :: "pager \<Rightarrow> int \<Rightarrow> nat \<Rightarrow> byte list \<Rightarrow> bool" for p where
  stop: "overflow_chain p 0 0 []"
| page: "0 < n \<Longrightarrow> 0 < need \<Longrightarrow> db_page p n = Some pg \<Longrightarrow> k = min need (nat (pager_getUsableSize p) - 4) \<Longrightarrow>
    overflow_chain p (be_sint (take 4 pg)) (need - k) rest \<Longrightarrow> overflow_chain p n need (take k (drop 4 pg) @ rest)"

lemma pager_same_usable: "pager_same p p' \<Longrightarrow> pager_getUsableSize p' = pager_getUsableSize p"
  by (simp add: pager_same_def pager_getUsableSize_def)

lemma overflow_chain_same: "overflow_chain p' n need bs \<Longrightarrow> pager_same p p' \<Longrightarrow> overflow_chain p n need bs"
  by (induction rule: overflow_chain.induct) (auto simp: pager_same_usable pager_same_db(2) intro: overflow_chain.intros)

definition sizes_ok :: "pager \<Rightarrow> bool" where
  "sizes_ok p \<longleftrightarrow> 257 \<le> pager_getUsableSize p \<and> pager_getUsableSize p \<le> pg_pageSize p"

lemma sizes_ok_same: "pager_same p p' \<Longrightarrow> sizes_ok p' = sizes_ok p"
  by (simp add: sizes_ok_def pager_same_usable) (simp add: pager_same_def)

definition holder :: "byte list \<Rightarrow> udata" where
  "holder mem = \<lparr>ud_mem = mem, ud_off = 0, ud_size = length mem, ud_shared = True\<rparr>"

lemma holder_write:
  assumes "c + length bs \<le> length mem"
  shows "ud_write (holder mem) (int c) bs = Some (holder (take c mem @ bs @ drop (c + length bs) mem))"
  using assms by (cases "bs = []") (auto simp: ud_write_def holder_def Let_def)

lemma next_pageno:
  assumes "view_ok u" "4 \<le> ud_size u"
  shows "\<exists>r. advance4BytesInt (ds_init u) = Some (be_sint (take 4 (ud_bytes u)), r)"
  using get4BytesInt_be [OF assms(1), of 0] assms(2) by (simp add: advance4BytesInt_def advance_read_def ds_init_def bytes_at_def)

definition overflow_result :: "pager \<Rightarrow> int \<Rightarrow> int \<Rightarrow> nat \<Rightarrow> byte list \<Rightarrow> unit + int \<times> int \<times> udata \<Rightarrow> bool" where
  "overflow_result p payloadSize n c mem x \<longleftrightarrow>
     (case x of Inl _ \<Rightarrow> True
      | Inr (n', c', h) \<Rightarrow> \<exists>out. h = holder (take c mem @ out) \<and> length (take c mem @ out) = length mem \<and>
          (n' = 0 \<and> c' = payloadSize \<longrightarrow> overflow_chain p n (nat payloadSize - c) out))"

lemma cell_overflow_spec:
  assumes "pager_ok p" "sizes_ok p" "c \<le> length mem" "int (length mem) = payloadSize" "payloadSize \<le> 1000000000"
  shows "\<exists>x p'. cell_overflow payloadSize ce n (int c) seen (holder mem) p = Some (x, p') \<and> pager_ok p' \<and> pager_same p p' \<and>
    overflow_result p payloadSize n c mem x"
  using assms
proof (induction "length mem - c" arbitrary: c mem n seen p rule: less_induct)
  case less
  define k where "k = min (length mem - c) (nat (pager_getUsableSize p) - 4)"
  have same: "pager_same p (cell_corrupted m ce p)" "pager_ok (cell_corrupted m ce p)" for m
    using less.prems(1) by (simp_all add: cell_corrupted_def)
  show ?case
  proof (cases "n > 0 \<and> int c < payloadSize \<and> n \<notin> seen \<and> n \<le> pager_getNumberOfPages p")
    case False
    show ?thesis
    proof (cases "n > 0 \<and> int c < payloadSize")
      case True
      then show ?thesis using False same by (subst cell_overflow.simps) (auto simp: overflow_result_def)
    next
      case stop: False
      have "overflow_result p payloadSize n c mem (Inr (n, int c, holder mem))"
        using less.prems(3,4) overflow_chain.stop [of p]
        by (auto simp: overflow_result_def intro!: exI [of _ "drop c mem"]) 
      then show ?thesis using stop less.prems(1) by (subst cell_overflow.simps) auto
    qed
  next
    case True
    have step: "cell_overflow payloadSize ce n (int c) seen (holder mem) p = do {
        (overflow, p) \<leftarrow> pager_acquirePageData n p;
        if ud_empty overflow then Some (Inl (), p)
        else do {
          let overflowSize = min (payloadSize - int c) (pager_getUsableSize p - 4);
          bs \<leftarrow> ud_read overflow 4 (to_size overflowSize);
          h \<leftarrow> ud_write (holder mem) (int c) bs;
          (nextPageno, _) \<leftarrow> advance4BytesInt (ds_init overflow);
          cell_overflow payloadSize ce nextPageno (int c + overflowSize) (insert n seen) h p
        }
      }"
      using True by (subst cell_overflow.simps) simp
    have n: "1 \<le> n" using True by simp
    show ?thesis
    proof (rule acquire_whole [OF less.prems(1) n])
      fix u p' assume "pager_acquirePageData n p = Some (u, p')" "pager_ok p'" "pager_same p p'" "ud_empty u"
      then show ?thesis unfolding step by (simp add: overflow_result_def)
    next
      fix u p' pg assume u: "pager_acquirePageData n p = Some (u, p')" "pager_ok p'" "pager_same p p'" "view_ok u"
        "db_page p n = Some pg" "ud_bytes u = pg" "length pg = nat (pg_pageSize p)" "ud_size u = nat (pg_pageSize p)"
      have us: "257 \<le> pager_getUsableSize p" "pager_getUsableSize p \<le> pg_pageSize p" using less.prems(2) by (simp_all add: sizes_ok_def)
      have k: "min (payloadSize - int c) (pager_getUsableSize p' - 4) = int k"
        using less.prems(3,4) us pager_same_usable [OF u(3)] unfolding k_def by linarith
      have k': "0 < k" "c + k \<le> length mem" "4 + k \<le> ud_size u" using True less.prems(3,4) us u(8) unfolding k_def by linarith+
      let ?bs = "take k (drop 4 pg)" and ?mem = "take c mem @ take k (drop 4 pg) @ drop (c + k) mem"
      have read: "ud_read u 4 (to_size (int k)) = Some ?bs"
        using ud_read_in_view [OF u(4), of 4 k] k' u(6) less.prems(4,5) by (simp add: to_size_nonneg size_max_def)
      have lbs: "length ?bs = k" using k'(3) u(7,8) by simp
      have wr: "ud_write (holder mem) (int c) ?bs = Some (holder ?mem)" using holder_write [of c ?bs mem] k'(2) lbs by simp
      obtain r where nx: "advance4BytesInt (ds_init u) = Some (be_sint (take 4 pg), r)"
        using next_pageno [OF u(4)] k'(3) u(6) by auto
      have cell: "cell_overflow payloadSize ce n (int c) seen (holder mem) p =
          cell_overflow payloadSize ce (be_sint (take 4 pg)) (int (c + k)) (insert n seen) (holder ?mem) p'"
        unfolding step u(1) using k'(3) by (simp add: k read wr nx ud_empty_def Let_def)
      have lm: "length ?mem = length mem" using lbs k'(2) by simp
      have lt: "length ?mem - (c + k) < length mem - c" and le: "c + k \<le> length ?mem" using k' unfolding lm by linarith+
      have ll: "int (length ?mem) = payloadSize" using less.prems(4) unfolding lm .
      have so: "sizes_ok p'" using less.prems(2) sizes_ok_same [OF u(3)] by simp
      obtain x q where x: "cell_overflow payloadSize ce (be_sint (take 4 pg)) (int (c + k)) (insert n seen) (holder ?mem) p' = Some (x, q)"
        "pager_ok q" "pager_same p' q" "overflow_result p' payloadSize (be_sint (take 4 pg)) (c + k) ?mem x"
        using less.hyps [OF lt u(2) so le ll less.prems(5)] by blast
      have "overflow_result p payloadSize n c mem x"
      proof (cases x)
        case (Inr y)
        obtain n' c' h where y: "y = (n', c', h)" by (cases y)
        obtain out where out: "h = holder (take (c + k) ?mem @ out)" "length (take (c + k) ?mem @ out) = length ?mem"
          "n' = 0 \<and> c' = payloadSize \<Longrightarrow> overflow_chain p' (be_sint (take 4 pg)) (nat payloadSize - (c + k)) out"
          using x(4) Inr y by (auto simp: overflow_result_def)
        have t: "take (c + k) ?mem = take c mem @ ?bs" using lbs less.prems(3) k'(2) by simp
        have "overflow_chain p n (nat payloadSize - c) (?bs @ out)" if "n' = 0 \<and> c' = payloadSize"
        proof (rule overflow_chain.page)
          show "k = min (nat payloadSize - c) (nat (pager_getUsableSize p) - 4)" using less.prems(4) by (auto simp: k_def)
          show "overflow_chain p (be_sint (take 4 pg)) (nat payloadSize - c - k) out"
            using overflow_chain_same [OF out(3) [OF that] u(3)] by simp
        qed (use True u(5) less.prems(4) in auto)
        moreover have "h = holder (take c mem @ ?bs @ out)" "length (take c mem @ ?bs @ out) = length mem"
          using out(1,2) lm unfolding t by simp_all
        ultimately show ?thesis unfolding Inr y overflow_result_def sum.case prod.case by blast
      next
        case (Inl y)
        then show ?thesis by (simp add: overflow_result_def)
      qed
      then show ?thesis unfolding cell x(1) using x(2) pager_same_trans [OF u(3) x(3)] by blast
    qed
  qed
qed

section \<open>The payload\<close>

text \<open>The bytes of a payload: a local part at an offset of the page, then the overflow chain.\<close>

definition payload_bytes :: "pager \<Rightarrow> byte list \<Rightarrow> nat \<Rightarrow> nat \<Rightarrow> nat \<Rightarrow> byte list \<Rightarrow> bool" where
  "payload_bytes p bs offset local payload out \<longleftrightarrow>
     (\<exists>rest. out = take local (drop offset bs) @ rest \<and>
        (if local < payload then overflow_chain p (child_at bs (int (offset + local))) (payload - local) rest else rest = []))"

lemma local_limits:
  assumes "sizes_ok p" "pg_pageSize p \<le> 65536"
  shows "7 \<le> getMinLocal pa p" "getMinLocal pa p \<le> getMaxLocal pa p" "getMaxLocal pa p \<le> 65536"
proof -
  define u where "u = pager_getUsableSize p"
  have u: "257 \<le> u" "u \<le> 65536" using assms by (simp_all add: sizes_ok_def u_def)
  have min: "getMinLocal pa p = (u - 12) * 32 div 255 - 23" using u by (simp add: getMinLocal_def sdiv_nonneg u_def [symmetric])
  have max: "getMaxLocal pa p = (if pa_type pa = LeafTable then u - 35 else (u - 12) * 64 div 255 - 23)"
    using u by (simp add: getMaxLocal_def sdiv_nonneg u_def [symmetric])
  have "(245 * 32) div 255 \<le> (u - 12) * 32 div 255" using u by (intro zdiv_mono1) simp_all
  then show "7 \<le> getMinLocal pa p" unfolding min by simp
  have "(u - 12) * 32 div 255 \<le> (u - 12) * 64 div 255" "(u - 12) * 64 div 255 \<le> (u - 12) * 255 div 255"
    using u by (intro zdiv_mono1; simp)+
  then show "getMinLocal pa p \<le> getMaxLocal pa p" "getMaxLocal pa p \<le> 65536" using u unfolding min max by simp_all
qed

lemma smod_nonneg: "0 \<le> x \<Longrightarrow> 0 < y \<Longrightarrow> x smod y = x mod (y :: int)"
  by (simp add: signed_modulo_int_def sgn_if)

lemma localPayload_bounds:
  assumes "sizes_ok p" "pg_pageSize p \<le> 65536" "0 \<le> payloadSize"
  shows "0 \<le> localPayload pa p payloadSize" "localPayload pa p payloadSize \<le> payloadSize" "localPayload pa p payloadSize \<le> 65536"
proof -
  note l = local_limits [OF assms(1,2), of pa]
  let ?u = "pager_getUsableSize p - 4" and ?m = "getMinLocal pa p"
  have u: "0 < ?u" using assms(1) by (simp add: sizes_ok_def)
  have "0 \<le> (payloadSize - ?m) smod ?u \<and> (payloadSize - ?m) smod ?u \<le> payloadSize - ?m" if "getMaxLocal pa p \<le> payloadSize"
    using that l u by (simp add: smod_nonneg zmod_le_nonneg_dividend)
  then show "0 \<le> localPayload pa p payloadSize" "localPayload pa p payloadSize \<le> payloadSize" "localPayload pa p payloadSize \<le> 65536"
    using l assms(3) by (auto simp: localPayload_def Let_def)
qed

lemma data_subdata_view:
  assumes "view_ok d" "ud_shared d" "0 \<le> offset" "offset + int n \<le> int (ud_size d)"
  shows "view_ok (data_subdata d offset n)" "ud_bytes (data_subdata d offset n) = take n (drop (nat offset) (ud_bytes d))"
proof -
  have o: "0 \<le> ud_off d" "ud_off d + int (ud_size d) \<le> int (length (ud_mem d))" "length (ud_mem d) < 4611686018427387904"
    using assms(1) by (simp_all add: view_ok_def)
  have "to_size (ud_off d + offset + int n) = nat (ud_off d + offset + int n)" using o assms(3,4) by (simp add: to_size_nonneg size_max_def)
  then have eq: "data_subdata d offset n = (if n = 0 then ud_null else d\<lparr>ud_off := ud_off d + offset, ud_size := n\<rparr>)"
    using o assms(2-4) by (simp add: data_subdata_def nat_le_iff)
  show "view_ok (data_subdata d offset n)" using eq o assms(3,4) by (simp add: view_ok_def)
  have "nat (ud_off d + offset) = nat offset + nat (ud_off d)" using o(1) assms(3) by (simp add: nat_add_distrib)
  moreover have "n \<le> ud_size d - nat offset" using assms(3,4) by linarith
  ultimately show "ud_bytes (data_subdata d offset n) = take n (drop (nat offset) (ud_bytes d))"
    using eq by (simp add: ud_bytes_def drop_take)
qed

definition cell_kept :: "cell \<Rightarrow> cell \<Rightarrow> bool" where
  "cell_kept ce ce' \<longleftrightarrow> ce_page ce' = ce_page ce \<and> ce_leftChild ce' = ce_leftChild ce \<and> ce_rowid ce' = ce_rowid ce \<and> ce_columns ce' = ce_columns ce"

lemma overflow_pageno:
  assumes "view_ok (ds_data r)" "0 \<le> x" "x \<le> int (ud_size (ds_data r))"
  shows "ds_canAdvance 4 (ds_seek x r) \<longleftrightarrow> x + 4 \<le> int (ud_size (ds_data r))"
    "x + 4 \<le> int (ud_size (ds_data r)) \<Longrightarrow> \<exists>r'. advance4BytesInt (ds_seek x r) = Some (child_at (ud_bytes (ds_data r)) x, r')"
proof -
  have seek: "ds_seek x r = r\<lparr>ds_cursor := x\<rparr>" using assms by (rule ds_seek_in)
  show "ds_canAdvance 4 (ds_seek x r) \<longleftrightarrow> x + 4 \<le> int (ud_size (ds_data r))"
    using assms view_ok_size_bound [OF assms(1)]
    by (simp add: seek ds_canAdvance_def iter_canAdvance_def to_size_nonneg size_max_def nat_le_iff)
  show "\<exists>r'. advance4BytesInt (ds_seek x r) = Some (child_at (ud_bytes (ds_data r)) x, r')" if "x + 4 \<le> int (ud_size (ds_data r))"
    using get4BytesInt_be [OF assms(1,2)] that by (simp add: seek advance4BytesInt_def advance_read_def bytes_at_def child_at_def)
qed

lemma to_size_small: "n \<le> 1000000000 \<Longrightarrow> to_size (int n) = n"
  by (simp add: to_size_nonneg size_max_def)

lemma holder_view: "length mem \<le> 1000000000 \<Longrightarrow> view_ok (holder mem)" "ud_bytes (holder mem) = mem"
  by (simp_all add: holder_def view_ok_def ud_bytes_def)

lemma holder_reset:
  assumes "pager_ok p" "0 < n"
  obtains "data_reset (pager_malloc p) ud_null None n = Some (ud_null, False)"
  | block where "data_reset (pager_malloc p) ud_null None n = Some (holder block, True)" "length block = n"
proof -
  have m: "malloc_ok (pager_malloc p)" using assms(1) by (auto simp: pager_ok_def pager_files_ok_def Let_def sys_live_def pager_malloc_def)
  show ?thesis
  proof (cases "pager_malloc p n")
    case None
    then show ?thesis using that(1) assms(2) by (simp add: data_reset_def)
  next
    case (Some block)
    then show ?thesis using that(2) [of block] assms(2) m by (simp add: data_reset_def holder_def malloc_ok_def)
  qed
qed

definition payload_result :: "pager \<Rightarrow> byte list \<Rightarrow> nat \<Rightarrow> nat \<Rightarrow> nat \<Rightarrow> cell \<Rightarrow> (bool \<times> cell \<times> pager) option \<Rightarrow> bool" where
  "payload_result p bs offset local payload ce res \<longleftrightarrow>
     (\<exists>ok ce' p'. res = Some (ok, ce', p') \<and> pager_ok p' \<and> pager_same p p' \<and> cell_kept ce ce' \<and>
        (ok \<longrightarrow> view_ok (ce_payload ce') \<and> ud_size (ce_payload ce') = payload \<and>
           payload_bytes p bs offset local payload (ud_bytes (ce_payload ce'))))"

lemma payload_fails:
  "pager_ok p' \<Longrightarrow> pager_same p p' \<Longrightarrow> cell_kept ce ce' \<Longrightarrow> payload_result p bs offset local payload ce (Some (False, ce', p'))"
  unfolding payload_result_def by blast

lemma payload_succeeds:
  "pager_ok p' \<Longrightarrow> pager_same p p' \<Longrightarrow> cell_kept ce ce' \<Longrightarrow> view_ok (ce_payload ce') \<Longrightarrow>
   ud_size (ce_payload ce') = payload \<Longrightarrow> payload_bytes p bs offset local payload (ud_bytes (ce_payload ce')) \<Longrightarrow> payload_result p bs offset local payload ce (Some (True, ce', p'))"
  unfolding payload_result_def by blast

lemma cell_payload_spec:
  assumes "pager_ok p" "sizes_ok p" "page_ready n bs (ce_page ce)" "ds_data r = pa_data (ce_page ce)"
    "offset + local \<le> length bs" "local \<le> payload" "payload \<le> 1000000000"
  shows "payload_result p bs offset local payload ce (cell_payload (int payload) (int local) (int offset) ce r p)"
proof -
  let ?d = "pa_data (ce_page ce)" and ?x = "int (offset + local)" and ?lb = "take local (drop offset bs)"
  have d: "view_ok ?d" "ud_bytes ?d = bs" "ud_shared ?d" "ud_size ?d = length bs" "length bs \<le> 65536"
    using assms(3) page_ready_size [OF assms(3)] by (simp_all add: page_ready_def)
  have same: "pager_same p (cell_corrupted m ce p)" "pager_ok (cell_corrupted m ce p)" for m
    using assms(1) by (simp_all add: cell_corrupted_def)
  have ts: "to_size (int local) = local" "to_size (int payload) = payload" using assms(6,7) by (simp_all add: to_size_small)
  have seek: "ds_canAdvance 4 (ds_seek ?x r) \<longleftrightarrow> ?x + 4 \<le> int (length bs)"
    "?x + 4 \<le> int (length bs) \<Longrightarrow> \<exists>r'. advance4BytesInt (ds_seek ?x r) = Some (child_at bs ?x, r')"
    using overflow_pageno [of r ?x] d assms(4,5) by auto
  show ?thesis
  proof (cases "local < payload")
    case False
    let ?s = "data_subdata ?d (int offset) local"
    have "cell_payload (int payload) (int local) (int offset) ce r p = Some (True, ce\<lparr>ce_nonOverflowed := ?s, ce_payload := ?s\<rparr>, p)"
      using False by (simp add: cell_payload_def Let_def ts)
    moreover have s: "view_ok ?s" "ud_bytes ?s = ?lb" using data_subdata_view [OF d(1,3), of "int offset" local] d(2,4) assms(5) by simp_all
    moreover have "ud_size ?s = payload" using length_ud_bytes [OF s(1)] s(2) False assms(5,6) by simp
    ultimately show ?thesis using False assms(1) payload_succeeds by (simp add: payload_bytes_def cell_kept_def)
  next
    case True
    show ?thesis
    proof (cases "?x + 4 \<le> int (length bs)")
      case False
      then have "cell_payload (int payload) (int local) (int offset) ce r p = Some (False, ce, cell_corrupted ''Unable to deserialize OverflowPageno.'' ce p)"
        using True seek(1) by (simp add: cell_payload_def Let_def)
      then show ?thesis using payload_fails [OF same(2,1)] by (simp add: cell_kept_def)
    next
      case room: True
      obtain r' where r': "advance4BytesInt (ds_seek ?x r) = Some (child_at bs ?x, r')" using seek(2) [OF room] by blast
      have "0 < payload" using True by simp
      then show ?thesis
      proof (rule holder_reset [OF assms(1)])
        assume "data_reset (pager_malloc p) ud_null None payload = Some (ud_null, False)"
        then have "cell_payload (int payload) (int local) (int offset) ce r p = Some (False, ce\<lparr>ce_overflowed := ud_null\<rparr>, pager_assign p)"
          using True seek(1) room r' by (simp add: cell_payload_def Let_def ts)
        then show ?thesis using payload_fails assms(1) by (simp add: cell_kept_def)
      next
        fix block assume block: "data_reset (pager_malloc p) ud_null None payload = Some (holder block, True)" "length block = payload"
        let ?mem = "?lb @ drop local block"
        have lb: "length ?lb = local" using assms(5) by simp
        have rd: "ud_read ?d (int offset) local = Some ?lb" using ud_read_in_view [OF d(1), of "int offset" local] d(2,4) assms(5) by simp
        have wr: "ud_write (holder block) 0 ?lb = Some (holder ?mem)" using holder_write [of 0 ?lb block] lb assms(6) block(2) by simp
        have lm: "length ?mem = payload" using lb assms(6) block(2) by simp
        have ne: "\<not> ud_empty (holder block)" using block(2) True by (simp add: holder_def ud_empty_def)
        obtain x p' where x: "cell_overflow (int payload) ce (child_at bs ?x) (int local) {} (holder ?mem) p = Some (x, p')"
          "pager_ok p'" "pager_same p p'" "overflow_result p (int payload) (child_at bs ?x) local ?mem x"
          using cell_overflow_spec [OF assms(1,2), of local ?mem "int payload" ce "child_at bs ?x" "{}"] lm assms(6,7) by auto
        have eq: "cell_payload (int payload) (int local) (int offset) ce r p = (case x of
              Inl _ \<Rightarrow> Some (False, ce, p')
            | Inr (overflowPageno, cursorOfPayload, h) \<Rightarrow>
                if overflowPageno \<noteq> 0 \<or> cursorOfPayload \<noteq> int payload
                then Some (False, ce\<lparr>ce_overflowed := h\<rparr>, cell_corrupted ''Unexpected termination of OverflowPage.'' ce p')
                else Some (True, ce\<lparr>ce_overflowed := h, ce_payload := h\<rparr>, p'))"
          using True seek(1) room r' block(1) ne rd wr x(1) by (simp add: cell_payload_def Let_def ts)
        show ?thesis
        proof (cases x)
          case (Inl y)
          then show ?thesis using eq payload_fails x(2,3) by (simp add: cell_kept_def)
        next
          case (Inr y)
          obtain n' c' h where y: "y = (n', c', h)" by (cases y)
          show ?thesis
          proof (cases "n' \<noteq> 0 \<or> c' \<noteq> int payload")
            case True
            then show ?thesis using eq Inr y payload_fails x(2,3) pager_same_trans [OF x(3)] by (simp add: cell_kept_def cell_corrupted_def)
          next
            case False
            obtain out where out: "h = holder (take local ?mem @ out)" "length (take local ?mem @ out) = length ?mem"
              "n' = 0 \<and> c' = int payload \<longrightarrow> overflow_chain p (child_at bs ?x) (nat (int payload) - local) out"
              using x(4) unfolding Inr y overflow_result_def sum.case prod.case by blast
            have t: "take local ?mem = ?lb" using lb by simp
            have "overflow_chain p (child_at bs ?x) (payload - local) out" using out(3) False by simp
            then have "view_ok h" "ud_size h = payload" "payload_bytes p bs offset local payload (ud_bytes h)"
              using out(1,2) lm assms(7) True unfolding t by (simp_all add: holder_view payload_bytes_def) (simp add: holder_def)
            then show ?thesis using eq Inr y False x(2,3) payload_succeeds by (simp add: cell_kept_def)
          qed
        qed
      qed
    qed
  qed
qed

section \<open>The record\<close>

definition serial_len :: "int \<Rightarrow> int" where
  "serial_len t = (if t \<le> 10 then [0, 1, 2, 3, 4, 6, 8, 8, 0, 0] ! nat t else (t - 12 - t mod 2) div 2)"

text \<open>The serial types that the header of a record has between two offsets.\<close>

inductive header_types :: "byte list \<Rightarrow> nat \<Rightarrow> nat \<Rightarrow> int list \<Rightarrow> bool" for bs where
  finish: "header_types bs e e []"
| more: "i < e \<Longrightarrow> varint_ref 0 0 (drop i bs) = (l, v) \<Longrightarrow> 0 < l \<Longrightarrow> header_types bs (i + l) e ts \<Longrightarrow> header_types bs i e (to_int32 v # ts)"

text \<open>The values stand one after the other.\<close>

primrec place :: "int \<Rightarrow> int list \<Rightarrow> (int \<times> int) list" where
  "place offset [] = []"
| "place offset (t # ts) = (t, offset) # place (offset + serial_len t) ts"

definition values_len :: "int list \<Rightarrow> int" where
  "values_len ts = sum_list (map serial_len ts)"

text \<open>The format of a record: the size of the header, the serial types, the values.\<close>

definition record_is :: "byte list \<Rightarrow> int list \<Rightarrow> (int \<times> int) list \<Rightarrow> bool" where
  "record_is bs ts cols \<longleftrightarrow>
     (\<exists>l v e. varint_ref 0 0 bs = (l, v) \<and> 0 < l \<and> to_int32 v = int e \<and> header_types bs l e ts \<and>
        list_all isSerialTypeSanity ts \<and> cols = place (int e) ts \<and> int e + values_len ts = int (length bs))"

lemma varint_ref_bounds: "fst (varint_ref i acc ps) \<le> i + length ps" "i \<le> 8 \<Longrightarrow> fst (varint_ref i acc ps) \<le> 9"
proof -
  show "fst (varint_ref i acc ps) \<le> i + length ps"
  proof (induction i acc ps rule: varint_ref.induct)
    case (2 i acc p ps)
    then show ?case by (auto simp: Let_def)
  qed simp
  show "fst (varint_ref i acc ps) \<le> 9" if "i \<le> 8"
    using that
  proof (induction i acc ps rule: varint_ref.induct)
    case (2 i acc p ps)
    then show ?case by (auto simp: Let_def)
  qed simp
qed

lemma serial_text_nonneg: "12 \<le> t \<Longrightarrow> 0 \<le> t - 12 - t mod (2 :: int)"
  by (cases "t = 12") (use pos_mod_bound [of 2 t] in auto)

lemma serial_len_eq:
  assumes "isSerialTypeSanity t"
  shows "getLengthOfSerialType t = Some (serial_len t)"
  using assms serial_text_nonneg [of t]
  by (cases "t \<le> 10") (auto simp: getLengthOfSerialType_def serial_len_def isSerialTypeSanity_def at_def sdiv_nonneg smod_nonneg)

lemma serial_len_bounds:
  assumes "isSerialTypeSanity t" "t \<le> 2147483647"
  shows "0 \<le> serial_len t" "serial_len t \<le> 1073741818"
proof -
  have "serial_len t \<in> {0, 1, 2, 3, 4, 6, 8}" if "t \<le> 10"
  proof -
    have "0 \<le> t" "t \<noteq> 10" using assms(1) by (auto simp: isSerialTypeSanity_def)
    then have "t = 0 \<or> t = 1 \<or> t = 2 \<or> t = 3 \<or> t = 4 \<or> t = 5 \<or> t = 6 \<or> t = 7 \<or> t = 8 \<or> t = 9" using that by presburger
    then show ?thesis by (auto simp: serial_len_def)
  qed
  moreover have "0 \<le> serial_len t \<and> serial_len t \<le> 1073741818" if "\<not> t \<le> 10"
  proof -
    have "12 \<le> t" using that assms(1) by (auto simp: isSerialTypeSanity_def)
    then show ?thesis using assms(2) that serial_text_nonneg [of t] pos_mod_sign [of 2 t] unfolding serial_len_def by auto
  qed
  ultimately show "0 \<le> serial_len t" "serial_len t \<le> 1073741818" by fastforce+
qed

lemma serial_len_nonneg: "isSerialTypeSanity t \<Longrightarrow> 0 \<le> serial_len t"
proof (cases "t \<le> 10")
  case True
  then show "isSerialTypeSanity t \<Longrightarrow> 0 \<le> serial_len t" by (intro serial_len_bounds(1)) simp_all
next
  case False
  assume "isSerialTypeSanity t"
  then have "12 \<le> t" using False by (auto simp: isSerialTypeSanity_def)
  then show "0 \<le> serial_len t" using serial_text_nonneg [of t] False by (simp add: serial_len_def)
qed

lemma to_int32_bounds: "- 2147483648 \<le> to_int32 v" "to_int32 v \<le> 2147483647"
  using sint_range_size [of "ucast v :: u32"] by (simp_all add: to_int32_def word_size)

lemma advanceVarint_at:
  assumes "view_ok (ds_data r)" "i \<le> ud_size (ds_data r)"
  obtains l v r' where "advanceVarint (ds_seek (int i) r) = Some ((l, v), r')" "ds_data r' = ds_data r"
    "varint_ref 0 0 (drop i (ud_bytes (ds_data r))) = (l, v)" "i + l \<le> ud_size (ds_data r)" "l \<le> 9"
    "r' = r\<lparr>ds_cursor := int (i + l)\<rparr>"
proof -
  obtain l v where lv: "varint_ref 0 0 (drop i (ud_bytes (ds_data r))) = (l, v)" by fastforce
  have l: "l \<le> 9" "i + l \<le> ud_size (ds_data r)"
    using varint_ref_bounds [of 0 0 "drop i (ud_bytes (ds_data r))"] lv assms length_ud_bytes [OF assms(1)] by auto
  have seek: "ds_seek (int i) r = r\<lparr>ds_cursor := int i\<rparr>" using assms by (intro ds_seek_in) simp_all
  have get: "getVarint (ds_data r) (int i) = Some (l, v)"
    using getVarint_eq_ref [OF assms(1), of "int i"] assms view_ok_size_bound [OF assms(1)] lv by simp
  have "ds_advance (to_off l) (r\<lparr>ds_cursor := int i\<rparr>) = r\<lparr>ds_cursor := int (i + l)\<rparr>"
    using ds_seek_in [of "r\<lparr>ds_cursor := int i\<rparr>" "int (i + l)"] assms l by (simp add: ds_advance_def to_off_def)
  then have "advanceVarint (ds_seek (int i) r) = Some ((l, v), r\<lparr>ds_cursor := int (i + l)\<rparr>)"
    using get by (cases "l = 0") (simp_all add: seek advanceVarint_def advance_pair_def)
  then show ?thesis using lv l by (intro that) simp_all
qed

definition cell_rest :: "cell \<Rightarrow> cell \<Rightarrow> bool" where
  "cell_rest ce ce' \<longleftrightarrow> ce_page ce' = ce_page ce \<and> ce_leftChild ce' = ce_leftChild ce \<and> ce_rowid ce' = ce_rowid ce \<and>
     ce_payload ce' = ce_payload ce \<and> ds_data (ce_ds ce') = ds_data (ce_ds ce)"

definition columns_result ::
  "byte list \<Rightarrow> int \<Rightarrow> nat \<Rightarrow> int \<Rightarrow> cell \<Rightarrow> pager \<Rightarrow> (bool \<times> cell \<times> pager) option \<Rightarrow> bool" where
  "columns_result pl e i x ce p res \<longleftrightarrow>
     (\<exists>ok ce' p'. res = Some (ok, ce', p') \<and> (p' = p \<or> (\<exists>m. p' = cell_corrupted m ce p)) \<and> cell_rest ce ce' \<and>
        (ok \<longrightarrow> (\<exists>ts. header_types pl i (nat e) ts \<and> 0 \<le> e \<and> list_all isSerialTypeSanity ts \<and>
           (0 \<le> x \<and> x \<le> int (length pl) \<longrightarrow> ce_columns ce' = ce_columns ce @ place x ts \<and> x + values_len ts = int (length pl)))))"

lemma columns_fail: "cell_rest ce ce' \<Longrightarrow> columns_result pl e i x ce p (Some (False, ce', cell_corrupted m ce p))"
  unfolding columns_result_def by blast

lemma cell_columns_spec:
  assumes "view_ok (ds_data (ce_ds ce))" "ud_bytes (ds_data (ce_ds ce)) = pl" "length pl \<le> 1000000000" "i \<le> length pl"
  shows "columns_result pl e i x ce p (cell_columns e (int (length pl)) (int i) x ce p)"
  using assms
proof (induction "length pl - i" arbitrary: i x ce rule: less_induct)
  case less
  have size: "ud_size (ds_data (ce_ds ce)) = length pl" using length_ud_bytes [OF less.prems(1)] less.prems(2) by simp
  show ?case
  proof (cases "int i < e")
    case False
    have "columns_result pl e i x ce p (Some (True, ce, p))" if "int i = e" "x = int (length pl)"
      unfolding columns_result_def
      by (rule exI [of _ True], rule exI [of _ ce], rule exI [of _ p])
        (use that in \<open>auto simp: cell_rest_def values_len_def intro!: exI [of _ "[]"] header_types.finish\<close>)
    then show ?thesis using False columns_fail [of ce ce]
      by (subst cell_columns.simps) (simp add: cell_rest_def)
  next
    case True
    have "i \<le> ud_size (ds_data (ce_ds ce))" using less.prems(4) size by simp
    then obtain l v r where lv: "advanceVarint (ds_seek (int i) (ce_ds ce)) = Some ((l, v), r)" "ds_data r = ds_data (ce_ds ce)"
      "varint_ref 0 0 (drop i pl) = (l, v)" "i + l \<le> length pl" "l \<le> 9"
      by (rule advanceVarint_at [OF less.prems(1)]) (use less.prems(2) size in auto)
    let ?t = "to_int32 v" and ?ce = "ce\<lparr>ce_ds := r, ce_columns := ce_columns ce @ [(to_int32 v, x)]\<rparr>"
    have rest: "cell_rest ce (ce\<lparr>ce_ds := r\<rparr>)" "cell_rest ce ?ce" using lv(2) by (simp_all add: cell_rest_def)
    have mark: "cell_corrupted m (ce\<lparr>ce_ds := r\<rparr>) p = cell_corrupted m ce p" "cell_corrupted m ?ce p = cell_corrupted m ce p" for m
      by (simp_all add: cell_corrupted_def)
    show ?thesis
    proof (cases "l = 0 \<or> \<not> isSerialTypeSanity ?t")
      case bad: True
      then show ?thesis using True lv(1) columns_fail [OF rest(1)] by (subst cell_columns.simps) (auto simp: Let_def mark)
    next
      case False
      have t: "getLengthOfSerialType ?t = Some (serial_len ?t)" "0 \<le> serial_len ?t" "serial_len ?t \<le> 1073741818"
        using False serial_len_eq serial_len_bounds to_int32_bounds(2) by auto
      let ?y = "narrow32 (x + serial_len ?t)"
      have i: "narrow32 (int i + int l) = int (i + l)" using lv(4) less.prems(3) by (simp add: narrow32_id)
      have step: "cell_columns e (int (length pl)) (int i) x ce p =
          (if ?y > int (length pl) then Some (False, ?ce, cell_corrupted ''Unexpected termination of Payload.'' ce p)
           else cell_columns e (int (length pl)) (int (i + l)) ?y ?ce p)"
        using True lv(1) False t(1) by (subst cell_columns.simps) (simp add: Let_def mark i)
      show ?thesis
      proof (cases "?y > int (length pl)")
        case big: True
        then show ?thesis unfolding step using columns_fail [OF rest(2)] by simp
      next
        case small: False
        have "columns_result pl e (i + l) ?y ?ce p (cell_columns e (int (length pl)) (int (i + l)) ?y ?ce p)"
          by (rule less.hyps) (use False lv less.prems in auto)
        then obtain ok ce' p' where c: "cell_columns e (int (length pl)) (int (i + l)) ?y ?ce p = Some (ok, ce', p')"
          "p' = p \<or> (\<exists>m. p' = cell_corrupted m ?ce p)" "cell_rest ?ce ce'"
          "ok \<Longrightarrow> \<exists>ts. header_types pl (i + l) (nat e) ts \<and> 0 \<le> e \<and> list_all isSerialTypeSanity ts \<and>
             (0 \<le> ?y \<and> ?y \<le> int (length pl) \<longrightarrow> ce_columns ce' = ce_columns ?ce @ place ?y ts \<and> ?y + values_len ts = int (length pl))"
          unfolding columns_result_def by blast
        have "\<exists>ts. header_types pl i (nat e) ts \<and> 0 \<le> e \<and> list_all isSerialTypeSanity ts \<and>
             (0 \<le> x \<and> x \<le> int (length pl) \<longrightarrow> ce_columns ce' = ce_columns ce @ place x ts \<and> x + values_len ts = int (length pl))" if good: ok
        proof -
          obtain ts where ts: "header_types pl (i + l) (nat e) ts" "0 \<le> e" "list_all isSerialTypeSanity ts"
            "0 \<le> ?y \<and> ?y \<le> int (length pl) \<longrightarrow> ce_columns ce' = ce_columns ?ce @ place ?y ts \<and> ?y + values_len ts = int (length pl)"
            using c(4) [OF good] by blast
          have "header_types pl i (nat e) (?t # ts)" using ts(1) lv(3) False True by (intro header_types.more) auto
          moreover have "ce_columns ce' = ce_columns ce @ place x (?t # ts) \<and> x + values_len (?t # ts) = int (length pl)"
            if x: "0 \<le> x" "x \<le> int (length pl)"
          proof -
            have y: "?y = x + serial_len ?t" using x t less.prems(3) by (intro narrow32_id) linarith+
            show ?thesis using ts(4) small x t(2) unfolding y by (simp add: values_len_def)
          qed
          ultimately show ?thesis using ts(2,3) False by (intro exI [of _ "?t # ts"]) auto
        qed
        moreover have "p' = p \<or> (\<exists>m. p' = cell_corrupted m ce p)" using c(2) mark by auto
        moreover have "cell_rest ce ce'" using c(3) lv(2) by (simp add: cell_rest_def)
        ultimately show ?thesis unfolding step columns_result_def using small c(1) by auto
      qed
    qed
  qed
qed

lemma header_types_bound: "header_types bs i e ts \<Longrightarrow> i \<le> length bs \<Longrightarrow> e \<le> length bs"
proof (induction rule: header_types.induct)
  case (more i e l v ts)
  then show ?case using varint_ref_bounds(1) [of 0 0 "drop i bs"] by simp
qed

lemma cell_record_spec:
  assumes "view_ok (ce_payload ce)" "ud_bytes (ce_payload ce) = pl" "length pl \<le> 1000000000" "ce_columns ce = []"
  shows "\<exists>ok ce' p'. cell_record (int (length pl)) ce p = Some (ok, ce', p') \<and> (p' = p \<or> (\<exists>m. p' = cell_corrupted m ce p)) \<and>
    ce_page ce' = ce_page ce \<and> ce_leftChild ce' = ce_leftChild ce \<and> ce_rowid ce' = ce_rowid ce \<and> ce_payload ce' = ce_payload ce \<and>
    ds_data (ce_ds ce') = ce_payload ce \<and> (ok \<longrightarrow> (\<exists>ts. record_is pl ts (ce_columns ce')))"
proof -
  let ?r = "ds_reset (ce_payload ce) (ce_ds ce)"
  have r: "ds_data ?r = ce_payload ce" "ds_seek 0 ?r = ?r"
    using ds_seek_in [of ?r 0] assms(1) by (simp_all add: ds_reset_def)
  have size: "ud_size (ce_payload ce) = length pl" using length_ud_bytes [OF assms(1)] assms(2) by simp
  have v: "view_ok (ds_data ?r)" using r(1) assms(1) by simp
  obtain l v r' where lv: "advanceVarint ?r = Some ((l, v), r')" "ds_data r' = ce_payload ce" "varint_ref 0 0 pl = (l, v)" "l \<le> length pl"
    by (rule advanceVarint_at [OF v, of 0]) (use r size assms(2) in auto)
  let ?ce = "ce\<lparr>ce_ds := r'\<rparr>"
  have mark: "cell_corrupted m ?ce p = cell_corrupted m ce p" for m by (simp add: cell_corrupted_def)
  show ?thesis
  proof (cases "l = 0")
    case True
    then show ?thesis using lv(1,2) mark by (auto simp: cell_record_def Let_def)
  next
    case False
    let ?e = "to_int32 v"
    have "columns_result pl ?e l ?e ?ce p (cell_columns ?e (int (length pl)) (int l) ?e ?ce p)"
      by (rule cell_columns_spec) (use lv assms in auto)
    then obtain ok ce' p' where c: "cell_columns ?e (int (length pl)) (int l) ?e ?ce p = Some (ok, ce', p')"
      "p' = p \<or> (\<exists>m. p' = cell_corrupted m ?ce p)" "cell_rest ?ce ce'"
      "ok \<Longrightarrow> \<exists>ts. header_types pl l (nat ?e) ts \<and> 0 \<le> ?e \<and> list_all isSerialTypeSanity ts \<and>
         (0 \<le> ?e \<and> ?e \<le> int (length pl) \<longrightarrow> ce_columns ce' = ce_columns ?ce @ place ?e ts \<and> ?e + values_len ts = int (length pl))"
      unfolding columns_result_def by blast
    have "\<exists>ts. record_is pl ts (ce_columns ce')" if good: ok
    proof -
      obtain ts where ts: "header_types pl l (nat ?e) ts" "0 \<le> ?e" "list_all isSerialTypeSanity ts"
        "0 \<le> ?e \<and> ?e \<le> int (length pl) \<longrightarrow> ce_columns ce' = ce_columns ?ce @ place ?e ts \<and> ?e + values_len ts = int (length pl)"
        using c(4) [OF good] by blast
      have "nat ?e \<le> length pl" using header_types_bound [OF ts(1)] lv(4) by simp
      then show ?thesis using ts lv(3) False assms(4)
        by (intro exI [of _ ts]) (auto simp: record_is_def intro!: exI [of _ l] exI [of _ v] exI [of _ "nat (to_int32 v)"])
    qed
    moreover have "cell_record (int (length pl)) ce p = Some (ok, ce', p')" using lv(1) False c(1) by (simp add: cell_record_def Let_def)
    ultimately show ?thesis using c(2,3) mark lv(2) by (auto simp: cell_rest_def)
  qed
qed

section \<open>The cell\<close>

text \<open>The parts of a cell in the bytes of its page.\<close>

definition cell_start :: "page \<Rightarrow> nat \<Rightarrow> nat" where
  "cell_start pa ptr = ptr + (if isLeafPage pa then 0 else 4)"

definition cell_size :: "page \<Rightarrow> byte list \<Rightarrow> nat \<Rightarrow> nat \<times> u64" where
  "cell_size pa bs ptr = varint_ref 0 0 (drop (cell_start pa ptr) bs)"

definition cell_row :: "page \<Rightarrow> byte list \<Rightarrow> nat \<Rightarrow> nat \<times> u64" where
  "cell_row pa bs ptr = (if isTablePage pa then varint_ref 0 0 (drop (cell_start pa ptr + fst (cell_size pa bs ptr)) bs) else (0, 0))"

definition cell_offset :: "page \<Rightarrow> byte list \<Rightarrow> nat \<Rightarrow> nat" where
  "cell_offset pa bs ptr = cell_start pa ptr + fst (cell_size pa bs ptr) + fst (cell_row pa bs ptr)"

definition cell_total :: "page \<Rightarrow> byte list \<Rightarrow> nat \<Rightarrow> int" where
  "cell_total pa bs ptr = to_int32 (snd (cell_size pa bs ptr))"

text \<open>
  What the code takes for granted: the pointer is not negative, and the size of the payload fits
  an \<open>int\<close> (SQLite limits it to \<open>10\<^sup>9\<close>).
\<close>

definition cell_safe :: "page \<Rightarrow> byte list \<Rightarrow> int \<Rightarrow> bool" where
  "cell_safe pa bs ptr \<longleftrightarrow> 0 \<le> ptr \<and> 0 \<le> cell_total pa bs (nat ptr) \<and> cell_total pa bs (nat ptr) \<le> 1000000000"

definition cell_shows :: "pager \<Rightarrow> page \<Rightarrow> byte list \<Rightarrow> nat \<Rightarrow> cell \<Rightarrow> bool" where
  "cell_shows p pa bs ptr ce \<longleftrightarrow> ce_page ce = pa \<and>
     (if isLeafPage pa then ce_leftChild ce = 0 else ce_leftChild ce = word_of_int (child_at bs (int ptr)) \<and> ptr + 4 \<le> length bs) \<and>
     ce_rowid ce = sint (snd (cell_row pa bs ptr)) \<and> view_ok (ce_payload ce) \<and> ds_data (ce_ds ce) = ce_payload ce \<and>
     payload_bytes p bs (cell_offset pa bs ptr) (nat (localPayload pa p (cell_total pa bs ptr))) (nat (cell_total pa bs ptr)) (ud_bytes (ce_payload ce)) \<and>
     (\<exists>ts. record_is (ud_bytes (ce_payload ce)) ts (ce_columns ce))"

text \<open>The three parts before the payload, read from a well-formed position.\<close>

lemma cell_parseLeft_cases:
  assumes "view_ok (ds_data r)" "ud_bytes (ds_data r) = bs" "ds_cursor r = int i" "i \<le> length bs" "ce_pointer ce = int i"
  obtains m where "cell_parseLeft ce r = Some (Inl m, r)"
  | "isLeafPage (ce_page ce)" "cell_parseLeft ce r = Some (Inr (ce, int i), r)"
  | "\<not> isLeafPage (ce_page ce)" "i + 4 \<le> length bs"
    "cell_parseLeft ce r = Some (Inr (ce\<lparr>ce_leftChild := word_of_int (child_at bs (int i))\<rparr>, int (i + 4)), r\<lparr>ds_cursor := int (i + 4)\<rparr>)"
proof (cases "isLeafPage (ce_page ce)")
  case True
  then show ?thesis using that(2) assms(5) by (simp add: cell_parseLeft_def)
next
  case False
  have size: "ud_size (ds_data r) = length bs" using length_ud_bytes [OF assms(1)] assms(2) by simp
  have seek: "ds_seek (int i) r = r" using ds_seek_in [OF assms(1), of "int i"] assms(3,4) size by simp
  note o = overflow_pageno [OF assms(1), of "int i", unfolded seek size assms(2)]
  show ?thesis
  proof (cases "i + 4 \<le> length bs")
    case True
    have can: "ds_canAdvance 4 r" using o(1) True assms(4) by simp
    have get: "get4BytesInt (ds_data r) (int i) = Some (child_at bs (int i))"
      using get4BytesInt_be [OF assms(1), of "int i"] True size by (simp add: bytes_at_def assms(2) child_at_def)
    have "ds_advance 4 r = r\<lparr>ds_cursor := int (i + 4)\<rparr>" using ds_seek_in [OF assms(1), of "int (i + 4)"] True size assms(3) by (simp add: ds_advance_def)
    then show ?thesis using that(3) False True can get assms(3,5)
      by (simp add: cell_parseLeft_def advance4BytesInt_def advance_read_def)
  next
    case no: False
    then have "\<not> ds_canAdvance 4 r" using o(1) assms(4) by simp
    then show ?thesis using that(1) False by (simp add: cell_parseLeft_def)
  qed
qed

lemma advanceVarint_here:
  assumes "view_ok (ds_data r)" "ud_bytes (ds_data r) = bs" "ds_cursor r = int i" "i \<le> length bs" "varint_ref 0 0 (drop i bs) = (l, v)"
  shows "advanceVarint r = Some ((l, v), r\<lparr>ds_cursor := int (i + l)\<rparr>)" "i + l \<le> length bs"
proof -
  have size: "ud_size (ds_data r) = length bs" using length_ud_bytes [OF assms(1)] assms(2) by simp
  have seek: "ds_seek (int i) r = r" using ds_seek_in [OF assms(1), of "int i"] assms(3,4) size by simp
  obtain l' v' r' where "advanceVarint r = Some ((l', v'), r')" "varint_ref 0 0 (drop i bs) = (l', v')" "i + l' \<le> length bs"
    "r' = r\<lparr>ds_cursor := int (i + l')\<rparr>"
    by (rule advanceVarint_at [OF assms(1), of i]) (use assms(2,4) size seek in auto)
  then show "advanceVarint r = Some ((l, v), r\<lparr>ds_cursor := int (i + l)\<rparr>)" "i + l \<le> length bs" using assms(5) by simp_all
qed

definition cell_result :: "pager \<Rightarrow> (bool \<times> cell \<times> pager) option \<Rightarrow> (cell \<Rightarrow> bool) \<Rightarrow> bool" where
  "cell_result p res Q \<longleftrightarrow> (\<exists>ok ce p'. res = Some (ok, ce, p') \<and> pager_ok p' \<and> pager_same p p' \<and> (ok \<longrightarrow> Q ce))"

lemma cell_fails: "pager_ok p \<Longrightarrow> cell_result p (Some (False, ce, cell_corrupted m ce' p)) Q"
  unfolding cell_result_def cell_corrupted_def
  by (rule exI [of _ False], rule exI [of _ ce], rule exI [of _ "pager_markAsCorrupted (pa_number (ce_page ce')) m p"]) simp

lemma cell_finish_spec:
  assumes "pager_ok p" "sizes_ok p" "page_ready n bs (ce_page ce)" "ds_data r = pa_data (ce_page ce)" "ds_cursor r = int offset" "offset \<le> length bs"
    "payload \<le> 1000000000" "ce_columns ce = []" "pa_type (ce_page ce) \<noteq> InteriorTable"
  shows "cell_result p (cell_finish (int payload) (int offset) ce r p) (\<lambda>ce'. ce_page ce' = ce_page ce \<and> ce_leftChild ce' = ce_leftChild ce \<and>
    ce_rowid ce' = ce_rowid ce \<and> view_ok (ce_payload ce') \<and> ds_data (ce_ds ce') = ce_payload ce' \<and>
    payload_bytes p bs offset (nat (localPayload (ce_page ce) p (int payload))) payload (ud_bytes (ce_payload ce')) \<and>
    (\<exists>ts. record_is (ud_bytes (ce_payload ce')) ts (ce_columns ce')))"
    (is "cell_result p ?res ?Q")
proof -
  let ?l = "localPayload (ce_page ce) p (int payload)"
  have ps: "pg_pageSize p \<le> 65536" using assms(1) by (simp add: pager_ok_def pager_files_ok_def Let_def)
  have l: "0 \<le> ?l" "?l \<le> int payload" "?l \<le> 65536" using localPayload_bounds [OF assms(2) ps] by simp_all
  have size: "ud_size (ds_data r) = length bs" using page_ready_size [OF assms(3)] assms(4) by simp
  have len: "length bs \<le> 65536" using assms(3) by (simp add: page_ready_def)
  have can: "ds_canAdvance ?l r \<longleftrightarrow> offset + nat ?l \<le> length bs"
    using l len assms(5,6) by (simp add: ds_canAdvance_def iter_canAdvance_def size to_size_nonneg size_max_def nat_le_iff) linarith
  show ?thesis
  proof (cases "offset + nat ?l \<le> length bs")
    case False
    then show ?thesis using can assms(1,9) cell_fails [of p] by (simp add: cell_finish_def Let_def)
  next
    case True
    have "payload_result p bs offset (nat ?l) payload ce (cell_payload (int payload) (int (nat ?l)) (int offset) ce r p)"
      using assms(1-4) True _ assms(7) by (rule cell_payload_spec) (use l in linarith)
    then obtain ok ce1 p1 where c: "cell_payload (int payload) ?l (int offset) ce r p = Some (ok, ce1, p1)" "pager_ok p1" "pager_same p p1" "cell_kept ce ce1"
      "ok \<longrightarrow> view_ok (ce_payload ce1) \<and> ud_size (ce_payload ce1) = payload \<and> payload_bytes p bs offset (nat ?l) payload (ud_bytes (ce_payload ce1))"
      using l(1) by (auto simp: payload_result_def)
    have eq: "?res = (if \<not> ok then Some (False, ce1, p1) else cell_record (int payload) ce1 p1)"
      using can True assms(9) c(1) by (simp add: cell_finish_def Let_def)
    show ?thesis
    proof (cases ok)
      case False
      then show ?thesis unfolding eq cell_result_def using c(2,3) by auto
    next
      case ok: True
      have v: "view_ok (ce_payload ce1)" "length (ud_bytes (ce_payload ce1)) = payload" "ce_columns ce1 = []"
        using c(4,5) ok assms(8) length_ud_bytes [of "ce_payload ce1"] by (simp_all add: cell_kept_def)
      obtain ok' ce' p' where r: "cell_record (int payload) ce1 p1 = Some (ok', ce', p')" "p' = p1 \<or> (\<exists>m. p' = cell_corrupted m ce1 p1)"
        "ce_page ce' = ce_page ce1" "ce_leftChild ce' = ce_leftChild ce1" "ce_rowid ce' = ce_rowid ce1" "ce_payload ce' = ce_payload ce1"
        "ds_data (ce_ds ce') = ce_payload ce1" "ok' \<longrightarrow> (\<exists>ts. record_is (ud_bytes (ce_payload ce1)) ts (ce_columns ce'))"
        using cell_record_spec [OF v(1) refl _ v(3), of p1] assms(7) unfolding v(2) by blast
      have "pager_ok p' \<and> pager_same p p'" using r(2) c(2,3) pager_same_trans [OF c(3)] by (auto simp: cell_corrupted_def)
      moreover have "ok' \<longrightarrow> ?Q ce'" using r(3-8) c(4,5) ok by (auto simp: cell_kept_def)
      ultimately show ?thesis unfolding eq using ok r(1) by (auto simp: cell_result_def)
    qed
  qed
qed

lemma cell_result_mono: "cell_result p res Q \<Longrightarrow> (\<And>ce. Q ce \<Longrightarrow> Q' ce) \<Longrightarrow> cell_result p res Q'"
  unfolding cell_result_def by blast

lemma cell_sizeAndRowid_spec:
  assumes "pager_ok p" "sizes_ok p" "page_ready n bs pa" "pa_type pa \<noteq> InteriorTable" "cell_safe pa bs (int ptr)"
    "ce_page ce = pa" "ce_columns ce = []" "ce_rowid ce = 0" "ds_data r = pa_data pa" "ds_cursor r = int (cell_start pa ptr)" "cell_start pa ptr \<le> length bs"
    "if isLeafPage pa then ce_leftChild ce = 0 else ce_leftChild ce = word_of_int (child_at bs (int ptr)) \<and> ptr + 4 \<le> length bs"
  shows "cell_result p (cell_sizeAndRowid (int (cell_start pa ptr)) ce r p) (cell_shows p pa bs ptr)"
proof -
  let ?s = "cell_start pa ptr" and ?l = "fst (cell_size pa bs ptr)" and ?v = "snd (cell_size pa bs ptr)"
  let ?k = "fst (cell_row pa bs ptr)" and ?w = "snd (cell_row pa bs ptr)" and ?r1 = "r\<lparr>ds_cursor := int (cell_start pa ptr + fst (cell_size pa bs ptr))\<rparr>"
  let ?r2 = "r\<lparr>ds_cursor := int (cell_offset pa bs ptr)\<rparr>" and ?ce = "ce\<lparr>ce_rowid := sint (snd (cell_row pa bs ptr))\<rparr>"
  have d: "view_ok (ds_data r)" "ud_bytes (ds_data r) = bs" using assms(3,9) by (simp_all add: page_ready_def)
  have total: "0 \<le> cell_total pa bs ptr" "cell_total pa bs ptr \<le> 1000000000" using assms(5) by (simp_all add: cell_safe_def)
  have v: "advanceVarint r = Some ((?l, ?v), ?r1)" "?s + ?l \<le> length bs"
    using advanceVarint_here [OF d assms(10,11), of ?l ?v] by (simp_all add: cell_size_def)
  show ?thesis
  proof (cases "?l = 0")
    case True
    then have "cell_sizeAndRowid (int ?s) ce r p = Some (False, ce, cell_corrupted ''Unable to deserialize PayloadSize.'' ce p)"
      using v(1) assms(4,6) by (simp add: cell_sizeAndRowid_def cell_parseSize_def)
    then show ?thesis using cell_fails [OF assms(1)] by simp
  next
    case False
    have size: "cell_parseSize ce r = Some (Inr (int ?l, cell_total pa bs ptr), ?r1)"
      using v(1) assms(4,6) False by (simp add: cell_parseSize_def cell_total_def split_beta)
    have row: "advanceVarint ?r1 = Some ((?k, ?w), ?r2) \<and> cell_offset pa bs ptr \<le> length bs" if "isTablePage pa"
      using advanceVarint_here [of ?r1 bs "?s + ?l" ?k ?w] d v(2) that by (simp add: cell_row_def cell_offset_def)
    show ?thesis
    proof (cases "isTablePage pa \<and> ?k = 0")
      case True
      then have "cell_sizeAndRowid (int ?s) ce r p = Some (False, ce, cell_corrupted ''Unable to deserialize Rowid.'' ce p)"
        using row size assms(6) by (simp add: cell_sizeAndRowid_def cell_parseRowid_def split_beta)
      then show ?thesis using cell_fails [OF assms(1)] by simp
    next
      case ok: False
      have rowid: "cell_parseRowid ce ?r1 = Some (Inr (int ?k, ?ce), ?r2) \<and> cell_offset pa bs ptr \<le> length bs"
      proof (cases "isTablePage pa")
        case True
        then show ?thesis using row [OF True] ok assms(6) by (simp add: cell_parseRowid_def split_beta)
      next
        case False
        have "ce\<lparr>ce_rowid := 0\<rparr> = ce" using assms(8) by simp
        then show ?thesis using False assms(6) v(2) by (simp add: cell_parseRowid_def cell_row_def cell_offset_def)
      qed
      have eq: "cell_sizeAndRowid (int ?s) ce r p = cell_finish (int (nat (cell_total pa bs ptr))) (int (cell_offset pa bs ptr)) ?ce ?r2 p"
        using size rowid total by (simp add: cell_sizeAndRowid_def cell_offset_def Let_def)
      have fin: "page_ready n bs (ce_page ?ce)" "ds_data ?r2 = pa_data (ce_page ?ce)" "ds_cursor ?r2 = int (cell_offset pa bs ptr)" "cell_offset pa bs ptr \<le> length bs"
        "nat (cell_total pa bs ptr) \<le> 1000000000" "ce_columns ?ce = []" "pa_type (ce_page ?ce) \<noteq> InteriorTable"
        using assms(3,4,6,7,9) rowid total by simp_all
      show ?thesis unfolding eq
        by (rule cell_result_mono [OF cell_finish_spec [OF assms(1,2) fin]])
          (use assms(6,12) total(1) in \<open>auto simp: cell_shows_def\<close>)
    qed
  qed
qed

lemma cell_doInitialize_spec:
  assumes "pager_ok p" "sizes_ok p" "page_ready n bs pa" "pa_type pa \<noteq> InteriorTable" "cell_safe pa bs ptr"
    "ce_page ce = pa" "ce_pointer ce = ptr" "ce_columns ce = []" "ce_leftChild ce = 0" "ce_rowid ce = 0"
  shows "cell_result p (cell_doInitialize (ce, p)) (cell_shows p pa bs (nat ptr))"
proof -
  let ?q = "ds_init (pa_data pa)"
  obtain i where ptr: "ptr = int i" using assms(5) nonneg_int_cases [of ptr] by (auto simp: cell_safe_def)
  have d: "view_ok (ds_data ?q)" "ud_bytes (ds_data ?q) = bs" "ds_data ?q = pa_data pa"
    using assms(3) by (simp_all add: page_ready_def ds_init_def)
  have size: "ud_size (ds_data ?q) = length bs" "length bs \<le> 65536" using page_ready_size [OF assms(3)] assms(3) d(3) by (simp_all add: page_ready_def)
  show ?thesis
  proof (cases "i \<le> length bs")
    case True
    let ?r = "?q\<lparr>ds_cursor := int i\<rparr>"
    have seek: "ds_seek ptr ?q = ?r" unfolding ptr by (rule ds_seek_in [OF d(1)]) (use True size in simp_all)
    have r: "view_ok (ds_data ?r)" "ud_bytes (ds_data ?r) = bs" "ds_cursor ?r = int i" "ds_data ?r = pa_data pa" using d by simp_all
    have safe: "cell_safe pa bs (int i)" using assms(5) ptr by simp
    note spec = cell_sizeAndRowid_spec [OF assms(1-4) safe]
    have "ce_pointer ce = int i" using assms(7) ptr by simp
    then show ?thesis
    proof (rule cell_parseLeft_cases [OF r(1-3) True])
      fix m assume "cell_parseLeft ce ?r = Some (Inl m, ?r)"
      then show ?thesis using cell_fails [OF assms(1)] seek assms(6,7) ptr by (simp add: cell_doInitialize_def)
    next
      assume leaf: "isLeafPage (ce_page ce)" "cell_parseLeft ce ?r = Some (Inr (ce, int i), ?r)"
      have "cell_result p (cell_sizeAndRowid (int (cell_start pa i)) ce ?r p) (cell_shows p pa bs i)"
        by (rule spec) (use leaf(1) assms(6,8-10) r True in \<open>simp_all add: cell_start_def\<close>)
      then show ?thesis using leaf seek assms(6,7) ptr by (simp add: cell_doInitialize_def cell_start_def)
    next
      let ?ce = "ce\<lparr>ce_leftChild := word_of_int (child_at bs (int i))\<rparr>"
      assume lt: "\<not> isLeafPage (ce_page ce)" "i + 4 \<le> length bs"
        "cell_parseLeft ce ?r = Some (Inr (?ce, int (i + 4)), ?r\<lparr>ds_cursor := int (i + 4)\<rparr>)"
      have "cell_result p (cell_sizeAndRowid (int (cell_start pa i)) ?ce (?r\<lparr>ds_cursor := int (i + 4)\<rparr>) p) (cell_shows p pa bs i)"
        by (rule spec) (use lt(1,2) assms(6,8-10) r in \<open>simp_all add: cell_start_def\<close>)
      then show ?thesis using lt seek assms(6,7) ptr by (simp add: cell_doInitialize_def cell_start_def)
    qed
  next
    case False
    let ?r = "?q\<lparr>ds_cursor := int (length bs)\<rparr>"
    have seek: "ds_seek ptr ?q = ?r" using False size ptr by (simp add: ds_seek_def iter_seek_def to_off_def)
    have "\<not> ds_canAdvance 4 ?r" using size by (simp add: ds_canAdvance_def iter_canAdvance_def to_size_nonneg size_max_def)
    moreover have "advanceVarint ?r = Some ((0, 0), ?r)"
      using advanceVarint_here(1) [of ?r bs "length bs" 0 0] d by simp
    ultimately show ?thesis using cell_fails [OF assms(1)] seek assms(4,6,7)
      by (cases "isLeafPage pa") (simp_all add: cell_doInitialize_def cell_parseLeft_def cell_sizeAndRowid_def cell_parseSize_def Let_def)
  qed
qed

lemma cell_initialize_spec:
  assumes "pager_ok p" "sizes_ok p" "page_ready n bs pa" "pa_type pa \<noteq> InteriorTable" "cell_safe pa bs ptr"
  shows "cell_result p (cell_initialize (cell_init ptr pa, p)) (cell_shows p pa bs (nat ptr))"
proof -
  let ?ce = "(cell_init ptr pa)\<lparr>ce_state := State_Initializing\<rparr>"
  have "cell_result p (cell_doInitialize (?ce, p)) (cell_shows p pa bs (nat ptr))"
    by (rule cell_doInitialize_spec [OF assms]) (simp_all add: cell_init_def)
  then obtain ok ce p' where c: "cell_doInitialize (?ce, p) = Some (ok, ce, p')" "pager_ok p'" "pager_same p p'" "ok \<longrightarrow> cell_shows p pa bs (nat ptr) ce"
    unfolding cell_result_def by blast
  have "cell_initialize (cell_init ptr pa, p) = Some (ok, ce\<lparr>ce_state := (if ok then State_Initialized else State_Failed)\<rparr>, p')"
    using cell_once.initialize_first [of "(cell_init ptr pa, p)" cell_doInitialize ok "(ce, p')"] c(1)
    by (simp add: cell_initialize_def cell_init_def)
  moreover have "cell_shows p pa bs (nat ptr) (ce\<lparr>ce_state := s\<rparr>) = cell_shows p pa bs (nat ptr) ce" for s by (simp add: cell_shows_def)
  ultimately show ?thesis using c(2-4) by (auto simp: cell_result_def)
qed

section \<open>Records that are well formed\<close>

lemma cell_columns_complete:
  assumes "header_types pl i e ts" "view_ok (ds_data (ce_ds ce))" "ud_bytes (ds_data (ce_ds ce)) = pl" "length pl \<le> 1000000000" "i \<le> length pl"
    "list_all isSerialTypeSanity ts" "0 \<le> x" "x + values_len ts = int (length pl)"
  shows "\<exists>ce'. cell_columns (int e) (int (length pl)) (int i) x ce p = Some (True, ce', p) \<and> ce_columns ce' = ce_columns ce @ place x ts"
  using assms
proof (induction arbitrary: ce x rule: header_types.induct)
  case (finish e)
  then show ?case by (subst cell_columns.simps) (simp add: values_len_def)
next
  case (more i e l v ts)
  have size: "ud_size (ds_data (ce_ds ce)) = length pl" using length_ud_bytes more.prems(1,2) by metis
  then have "i \<le> ud_size (ds_data (ce_ds ce))" using more.prems(4) by simp
  then obtain r where r: "advanceVarint (ds_seek (int i) (ce_ds ce)) = Some ((l, v), r)" "ds_data r = ds_data (ce_ds ce)" "i + l \<le> length pl"
    by (rule advanceVarint_at [OF more.prems(1)]) (use more.prems(2) more.hyps(2) size in auto)
  let ?t = "to_int32 v" and ?ce = "ce\<lparr>ce_ds := r, ce_columns := ce_columns ce @ [(to_int32 v, x)]\<rparr>"
  have sane: "isSerialTypeSanity ?t" "list_all isSerialTypeSanity ts" using more.prems(5) by simp_all
  have t: "getLengthOfSerialType ?t = Some (serial_len ?t)" "0 \<le> serial_len ?t" "serial_len ?t \<le> 1073741818"
    using sane serial_len_eq serial_len_bounds to_int32_bounds(2) by auto
  have "0 \<le> values_len ts" unfolding values_len_def
    using sane(2) serial_len_nonneg by (intro sum_list_nonneg) (auto simp: list_all_iff)
  then have y: "x + serial_len ?t \<le> int (length pl)" "x + serial_len ?t + values_len ts = int (length pl)"
    using more.prems(7) by (simp_all add: values_len_def)
  have n: "narrow32 (int i + int l) = int (i + l)" "narrow32 (x + serial_len ?t) = x + serial_len ?t"
    using r(3) y(1) t(2) more.prems(3,6) by (simp_all add: narrow32_id)
  have step: "cell_columns (int e) (int (length pl)) (int i) x ce p = cell_columns (int e) (int (length pl)) (int (i + l)) (x + serial_len ?t) ?ce p"
    using more.hyps(1,3) r(1) sane(1) t(1) y(1) by (subst cell_columns.simps) (simp add: Let_def n)
  have "\<exists>ce'. cell_columns (int e) (int (length pl)) (int (i + l)) (x + serial_len ?t) ?ce p = Some (True, ce', p) \<and>
      ce_columns ce' = ce_columns ?ce @ place (x + serial_len ?t) ts"
    by (rule more.IH) (use more.prems r sane y t in auto)
  then show ?case unfolding step by simp
qed

lemma cell_record_complete:
  assumes "view_ok (ce_payload ce)" "ud_bytes (ce_payload ce) = pl" "length pl \<le> 1000000000" "ce_columns ce = []" "record_is pl ts cols"
  shows "\<exists>ce'. cell_record (int (length pl)) ce p = Some (True, ce', p) \<and> ce_columns ce' = cols"
proof -
  obtain l v e where rec: "varint_ref 0 0 pl = (l, v)" "0 < l" "to_int32 v = int e" "header_types pl l e ts" "list_all isSerialTypeSanity ts"
    "cols = place (int e) ts" "int e + values_len ts = int (length pl)" using assms(5) by (auto simp: record_is_def)
  let ?r = "ds_reset (ce_payload ce) (ce_ds ce)" and ?q = "(ds_reset (ce_payload ce) (ce_ds ce))\<lparr>ds_cursor := int (0 + l)\<rparr>"
  have r: "view_ok (ds_data ?r)" "ud_bytes (ds_data ?r) = pl" "ds_cursor ?r = int 0" "0 \<le> length pl" "varint_ref 0 0 (drop 0 pl) = (l, v)"
    using assms(1,2) rec(1) by (simp_all add: ds_reset_def)
  note adv = advanceVarint_here [OF r]
  have "\<exists>ce'. cell_columns (int e) (int (length pl)) (int l) (int e) (ce\<lparr>ce_ds := ?q\<rparr>) p = Some (True, ce', p) \<and>
      ce_columns ce' = ce_columns (ce\<lparr>ce_ds := ?q\<rparr>) @ place (int e) ts"
    by (rule cell_columns_complete [OF rec(4)]) (use r adv(2) rec assms(3) in auto)
  then show ?thesis using adv(1) rec(2,3,6) assms(4) by (simp add: cell_record_def Let_def)
qed

text \<open>Every column lies in the payload.\<close>

lemma place_bounds:
  assumes "(t, o1) \<in> set (place x ts)" "list_all isSerialTypeSanity ts" "0 \<le> x"
  shows "isSerialTypeSanity t" "0 \<le> o1" "o1 + serial_len t \<le> x + values_len ts"
proof -
  have "isSerialTypeSanity t \<and> 0 \<le> o1 \<and> o1 + serial_len t \<le> x + values_len ts"
    using assms
  proof (induction ts arbitrary: x)
    case (Cons s ts)
    have s: "0 \<le> serial_len s" using Cons.prems(2) serial_len_nonneg by simp
    have "0 \<le> values_len ts" unfolding values_len_def
      using Cons.prems(2) serial_len_nonneg by (intro sum_list_nonneg) (auto simp: list_all_iff)
    then show ?case using Cons.IH [of "x + serial_len s"] Cons.prems s by (auto simp: values_len_def)
  qed simp
  then show "isSerialTypeSanity t" "0 \<le> o1" "o1 + serial_len t \<le> x + values_len ts" by simp_all
qed

lemma cell_column_values:
  assumes "cell_shows p pa bs ptr ce" "i < length (ce_columns ce)" "ce_columns ce ! i = (t, off)"
  shows "0 \<le> off \<and> off + serial_len t \<le> int (ud_size (ce_payload ce)) \<and>
    stringValue (int i) ce = Some (bytes_at (ce_payload ce) off (nat (serial_len t))) \<and>
    (t \<in> {1 .. 6} \<longrightarrow> integerValue (int i) ce = Some (be_sint (bytes_at (ce_payload ce) off (nat (serial_len t))))) \<and>
    (t \<in> {8, 9} \<longrightarrow> integerValue (int i) ce = Some (t - 8)) \<and>
    (t = 7 \<longrightarrow> map_option uint (doubleValue (int i) ce) = Some (be_uint (bytes_at (ce_payload ce) off 8)))"
proof -
  let ?pl = "ud_bytes (ce_payload ce)" and ?d = "ce_payload ce"
  have v: "view_ok ?d" "ds_data (ce_ds ce) = ?d" "\<exists>ts. record_is ?pl ts (ce_columns ce)" using assms(1) by (simp_all add: cell_shows_def)
  have size: "length ?pl = ud_size ?d" using v(1) by (rule length_ud_bytes)
  obtain e ts where rec: "list_all isSerialTypeSanity ts" "ce_columns ce = place (int e) ts" "int e + values_len ts = int (length ?pl)"
    using v(3) by (auto simp: record_is_def)
  have "(t, off) \<in> set (place (int e) ts)" using assms(2,3) rec(2) nth_mem by fastforce
  note b = place_bounds [OF this rec(1)]
  have bounds: "isSerialTypeSanity t" "0 \<le> off" "off + serial_len t \<le> int (ud_size ?d)" "0 \<le> serial_len t"
    using b rec(3) size serial_len_nonneg by auto
  have at: "at (ce_columns ce) (int i) = Some (t, off)" using assms(2,3) by (simp add: at_def)
  note len = serial_len_eq [OF bounds(1)]
  have "nat (serial_len t) \<le> ud_size ?d" using bounds by linarith
  then have ts: "to_size (serial_len t) = nat (serial_len t)"
    using bounds(4) view_ok_size_bound [OF v(1)] by (simp add: to_size_nonneg size_max_def)
  have "stringValue (int i) ce = Some (bytes_at ?d off (nat (serial_len t)))"
    using ud_read_in_view [OF v(1) bounds(2), of "nat (serial_len t)"] bounds(3,4)
    by (simp add: stringValue_def at len v(2) getString_def ts bytes_at_def)
  moreover have "integerValue (int i) ce = Some (be_sint (bytes_at ?d off (nat (serial_len t))))" if "t \<in> {1 .. 6}"
  proof -
    have "t = 1 \<or> t = 2 \<or> t = 3 \<or> t = 4 \<or> t = 5 \<or> t = 6" using that by auto
    moreover have "integerValue (int i) ce = (let len = serial_len t in if len = 1 then get1ByteInt ?d off else if len = 2 then get2BytesInt ?d off
        else if len = 3 then get3BytesInt ?d off else if len = 4 then get4BytesInt ?d off else if len = 6 then get6BytesInt ?d off
        else if len = 8 then get8BytesInt ?d off else Some 0)"
      using that by (auto simp: integerValue_def at len v(2) Let_def)
    ultimately show ?thesis using bounds(2,3) get8BytesInt_be [OF v(1) bounds(2)]
      by (elim disjE) (simp_all add: serial_len_def get1ByteInt_be [OF v(1) bounds(2)] get2BytesInt_be [OF v(1) bounds(2)]
          get3BytesInt_be [OF v(1) bounds(2)] get4BytesInt_be [OF v(1) bounds(2)] get6BytesInt_be [OF v(1) bounds(2)])
  qed
  moreover have "integerValue (int i) ce = Some (t - 8)" if "t \<in> {8, 9}" using that by (auto simp: integerValue_def at)
  moreover have "map_option uint (doubleValue (int i) ce) = Some (be_uint (bytes_at ?d off 8))" if "t = 7"
    using bounds(3) get8BytesInt_be [OF v(1) bounds(2)] that by (simp add: doubleValue_def at v(2) serial_len_def)
  ultimately show ?thesis using bounds by simp
qed

section \<open>Properties\<close>


text \<open>
  C13: The parser of the record accepts exactly the payloads in SQLite's record format, with the
  columns that the format prescribes.
\<close>

theorem cell_record_exact:
  assumes "view_ok (ce_payload ce)" "length (ud_bytes (ce_payload ce)) \<le> 1000000000" "ce_columns ce = []"
  shows "\<exists>ok ce' p'. cell_record (int (length (ud_bytes (ce_payload ce)))) ce p = Some (ok, ce', p') \<and>
    ok = (\<exists>ts cols. record_is (ud_bytes (ce_payload ce)) ts cols) \<and>
    (ok \<longrightarrow> (\<exists>ts. record_is (ud_bytes (ce_payload ce)) ts (ce_columns ce')))"
proof -
  let ?pl = "ud_bytes (ce_payload ce)"
  obtain ok ce' p' where c: "cell_record (int (length ?pl)) ce p = Some (ok, ce', p')" "ok \<longrightarrow> (\<exists>ts. record_is ?pl ts (ce_columns ce'))"
    using cell_record_spec [OF assms(1) refl assms(2,3), of p] by blast
  have "ok" if "record_is ?pl ts cols" for ts cols using cell_record_complete [OF assms(1) refl assms(2,3) that, of p] c(1) by auto
  then show ?thesis using c by blast
qed


definition demo_entry :: "byte list \<Rightarrow> page" where
  "demo_entry bs = (page_init 2)\<lparr>pa_type := LeafIndex, pa_data := holder bs\<rparr>"


text \<open>The row of the leaf page.\<close>

definition demo_page :: page where
  "demo_page = (page_init 2)\<lparr>pa_type := LeafTable, pa_data := holder demo_leaf, pa_ds := ds_init (holder demo_leaf)\<rparr>"

lemma demo_page_ready: "page_ready 2 demo_leaf demo_page" "pa_type demo_page = LeafTable" "cell_safe demo_page demo_leaf 500"
proof -
  have "length demo_leaf = 512" by (simp add: demo_leaf_def)
  then show "page_ready 2 demo_leaf demo_page"
    by (simp add: page_ready_def demo_page_def holder_view ds_init_def page_init_def) (simp add: holder_def)
  show "pa_type demo_page = LeafTable" by (simp add: demo_page_def)
  have "cell_total demo_page demo_leaf 500 = 3" by code_simp
  then show "cell_safe demo_page demo_leaf 500" by (simp add: cell_safe_def)
qed

definition demo_cell :: cell where
  "demo_cell = (cell_init 500 demo_page)\<lparr>ce_rowid := 1, ce_payload := holder [2, 1, 42], ce_ds := ds_init (holder [2, 1, 42]), ce_columns := [(1, 2)]\<rparr>"

lemma demo_record: "record_is [2, 1, 42] [1] [(1, 2)]"
proof -
  have a: "varint_ref 0 0 [2, 1, 42 :: byte] = (1, 2)" "to_int32 2 = int 2" "varint_ref 0 0 (drop 1 [2, 1, 42 :: byte]) = (1, 1)" "to_int32 1 = 1"
    by code_simp+
  have "header_types [2, 1, 42] (1 + 1) 2 []" unfolding one_add_one by (rule header_types.finish)
  from header_types.more [OF _ a(3) _ this] have "header_types [2, 1, 42] 1 2 [to_int32 1]" by simp
  then show ?thesis unfolding record_is_def
    by (intro exI [of _ 1] exI [of _ 2] exI [of _ 2]) (use a in \<open>simp add: isSerialTypeSanity_def values_len_def serial_len_def\<close>)
qed

lemma demo_leaf_cell:
  "cell_size demo_page demo_leaf 500 = (1, 3)" "cell_row demo_page demo_leaf 500 = (1, 1)" "cell_offset demo_page demo_leaf 500 = 502"
  "cell_total demo_page demo_leaf 500 = 3" "take 3 (drop 502 demo_leaf) = [2, 1, 42]"
  by code_simp+

lemma demo_cell_shows: "cell_shows (demo_tree (replicate 512 0 @ demo_leaf)) demo_page demo_leaf 500 demo_cell"
proof -
  have "pager_getUsableSize (demo_tree (replicate 512 0 @ demo_leaf)) = 512" using demo_leaf_facts(1) by (rule demo_tree_ok(4))
  then have l: "localPayload demo_page (demo_tree (replicate 512 0 @ demo_leaf)) 3 = 3"
    by (simp add: localPayload_def getMaxLocal_def demo_page_ready)
  show ?thesis unfolding cell_shows_def demo_leaf_cell l
    using demo_record by (auto simp: demo_cell_def cell_init_def isLeafPage_def demo_page_ready holder_view payload_bytes_def demo_leaf_cell ds_init_def)
qed


theorem cell_record_exact_witness:
  "\<exists>ce' p'. cell_record 3 ((cell_init 0 demo_page)\<lparr>ce_payload := holder [2, 1, 42]\<rparr>) demo_pager = Some (True, ce', p') \<and>
     (\<exists>ts. record_is [2, 1, 42] ts (ce_columns ce'))"
proof -
  have "(\<exists>ts cols. record_is [2, 1, 42] ts cols) = True" using demo_record by blast
  then show ?thesis using cell_record_exact [of "(cell_init 0 demo_page)\<lparr>ce_payload := holder [2, 1, 42]\<rparr>" demo_pager]
    by (simp add: holder_view cell_init_def) (metis (full_types))
qed


end
