(* ===== verification/WCDB_Crawl.thy ===== *)
theory WCDB_Crawl
  imports WCDB_Cell
begin

unbundle bit_operations_syntax

text \<open>
  \<open>src/src/common/repair/basic/Crawlable.cpp\<close>: the walk over the pages of a B-tree, and the two
  crawlers of the schema table and the sequence table
  (\<open>repair/crawl/MasterCrawler.cpp\<close>, \<open>SequenceCrawler.cpp\<close>).

  The objects that walk share one pager, and one may start or suspend another from its
  callbacks, so the state holds the pager and the flags of every object; \<open>cr_user\<close> is what else
  the client has.  The virtual methods of an object are a record of functions on that state.
  \<open>m_suspend\<close> may be set by another thread at any time: \<open>cr_signal\<close> tells whether it has been
  by the time of a reading of a flag.  The messages of the errors are kept with their formats.
\<close>

section \<open>The crawl\<close>

text \<open>The object of the client itself, its crawler of the schema table and that of the sequence table.\<close>

datatype crawl_object = Crawl_This | Crawl_Master | Crawl_Sequence

record crawlable =
  co_suspend :: bool
  co_isCrawling :: bool
  co_isCrawlingIndexTable :: bool

text \<open>The constructor leaves \<open>m_isCrawlingIndexTable\<close> open; every crawl sets it before it is read.\<close>

definition crawlable_init :: crawlable where
  "crawlable_init = \<lparr>co_suspend = False, co_isCrawling = False, co_isCrawlingIndexTable = False\<rparr>"

record 's crawl =
  cr_pager :: pager
  cr_objects :: "crawl_object \<Rightarrow> crawlable"
  cr_signal :: "nat \<Rightarrow> bool"
  cr_readings :: nat
  cr_user :: 's

record 's crawler =
  v_this :: crawl_object
  v_canCrawlPage :: "int \<Rightarrow> 's crawl \<Rightarrow> (bool \<times> 's crawl) option"
  v_willCrawlPage :: "page \<Rightarrow> int \<Rightarrow> 's crawl \<Rightarrow> (bool \<times> 's crawl) option"
  v_onCellCrawled :: "cell \<Rightarrow> 's crawl \<Rightarrow> 's crawl option"
  v_onCrawlerError :: "'s crawl \<Rightarrow> 's crawl"

definition crawl_update :: "crawl_object \<Rightarrow> (crawlable \<Rightarrow> crawlable) \<Rightarrow> 's crawl \<Rightarrow> 's crawl" where
  "crawl_update this f s = s\<lparr>cr_objects := (cr_objects s)(this := f (cr_objects s this))\<rparr>"

definition crawl_suspend :: "crawl_object \<Rightarrow> 's crawl \<Rightarrow> 's crawl" where
  "crawl_suspend this = crawl_update this (\<lambda>c. c\<lparr>co_suspend := True\<rparr>)"

definition crawl_suspended :: "crawl_object \<Rightarrow> 's crawl \<Rightarrow> bool \<times> 's crawl" where
  "crawl_suspended this s =
     (let b = co_suspend (cr_objects s this) \<or> cr_signal s (cr_readings s)
      in (b, crawl_update this (\<lambda>c. c\<lparr>co_suspend := b\<rparr>) (s\<lparr>cr_readings := Suc (cr_readings s)\<rparr>)))"

definition crawl_markAsCorrupted :: "('s crawl \<Rightarrow> 's crawl) \<Rightarrow> int \<Rightarrow> string \<Rightarrow> 's crawl \<Rightarrow> 's crawl" where
  "crawl_markAsCorrupted onCrawlerError number message s =
     onCrawlerError (s\<lparr>cr_pager := pager_markAsCorrupted number message (cr_pager s)\<rparr>)"

definition crawl_markAsInterrupted :: "('s crawl \<Rightarrow> 's crawl) \<Rightarrow> 's crawl \<Rightarrow> 's crawl" where
  "crawl_markAsInterrupted onCrawlerError s = onCrawlerError (s\<lparr>cr_pager := pager_markAsError Code_Interrupt (cr_pager s)\<rparr>)"

text \<open>
  The loops over the children and the cells: the flag is read before every element, and the
  whole call returns when it is set.  The set \<open>crawledInteriorPages\<close>, which the calls share, is
  handed on with the state.
\<close>

primrec crawl_each ::
  "crawl_object \<Rightarrow> ('a \<Rightarrow> int set \<Rightarrow> 's crawl \<Rightarrow> (int set \<times> 's crawl) option) \<Rightarrow> 'a list \<Rightarrow> int set \<Rightarrow> 's crawl \<Rightarrow>
   (bool \<times> int set \<times> 's crawl) option" where
  "crawl_each this f [] pages s = Some (True, pages, s)"
| "crawl_each this f (x # xs) pages s =
     (let (stop, s) = crawl_suspended this s
      in if stop then Some (False, pages, s)
         else do {
           (pages, s) \<leftarrow> f x pages s;
           crawl_each this f xs pages s
         })"

lemma crawl_each_mono [partial_function_mono]:
  assumes "\<And>x pages s. mono_option (\<lambda>f. g f x pages s)"
  shows "mono_option (\<lambda>f. crawl_each this (g f) xs pages s)"
proof (induction xs arbitrary: pages s)
  case Nil
  show ?case by (simp add: option.const_mono)
next
  case (Cons x xs)
  show ?case
  proof (cases "crawl_suspended this s")
    case (Pair stop t)
    have "mono_option (\<lambda>f. g f x pages t \<bind> (\<lambda>y. crawl_each this (g f) xs (fst y) (snd y)))" by (rule bind_mono [OF assms Cons.IH])
    then show ?thesis by (cases stop) (simp_all add: Pair option.const_mono case_prod_unfold)
  qed
qed

definition crawl_cell ::
  "'s crawler \<Rightarrow> page \<Rightarrow> (cell \<Rightarrow> int set \<Rightarrow> 's crawl \<Rightarrow> (int set \<times> 's crawl) option) \<Rightarrow> int \<Rightarrow> int set \<Rightarrow> 's crawl \<Rightarrow> (int set \<times> 's crawl) option" where
  "crawl_cell v page f pointer pages s = do {
     (ok, ce, p) \<leftarrow> cell_initialize (cell_init pointer page, cr_pager s);
     let s = s\<lparr>cr_pager := p\<rparr>;
     if ok then f ce pages s else Some (pages, v_onCrawlerError v s)
   }"

lemma crawl_cell_mono [partial_function_mono]:
  assumes "\<And>ce pages s. mono_option (\<lambda>f. g f ce pages s)"
  shows "mono_option (\<lambda>f. crawl_cell v page (g f) pointer pages s)"
proof (cases "cell_initialize (cell_init pointer page, cr_pager s)")
  case None
  then show ?thesis by (simp add: crawl_cell_def option.const_mono)
next
  case (Some x)
  obtain ok ce p where "x = (ok, ce, p)" by (cases x)
  then show ?thesis using Some assms by (cases ok) (simp_all add: crawl_cell_def Let_def option.const_mono)
qed

text \<open>\<open>safeCrawl\<close> up to the checks of the page, and the part that enters it.\<close>

definition crawl_load :: "'s crawler \<Rightarrow> int \<Rightarrow> int \<Rightarrow> 's crawl \<Rightarrow> (page option \<times> 's crawl) option" where
  "crawl_load v rootpageno height s =
     (let (stop, s) = crawl_suspended (v_this v) s
      in if stop then Some (None, s)
         else do {
           (can, s) \<leftarrow> v_canCrawlPage v rootpageno s;
           if \<not> can then Some (None, s)
           else do {
             (ok, page, p) \<leftarrow> page_initialize (page_init rootpageno, cr_pager s);
             let s = s\<lparr>cr_pager := p\<rparr>;
             if \<not> ok then Some (None, v_onCrawlerError v s)
             else if height = 1 then Some (Some page, crawl_update (v_this v) (\<lambda>c. c\<lparr>co_isCrawlingIndexTable := isIndexPage page\<rparr>) s)
             else if co_isCrawlingIndexTable (cr_objects s (v_this v)) \<noteq> isIndexPage page
             then Some (None, crawl_markAsCorrupted (v_onCrawlerError v) rootpageno ''Unmatched page type.'' s)
             else Some (Some page, s)
           }
         })"

definition crawl_enter :: "'s crawler \<Rightarrow> page \<Rightarrow> int \<Rightarrow> int set \<Rightarrow> 's crawl \<Rightarrow> (bool \<times> int set \<times> 's crawl) option" where
  "crawl_enter v page height pages s = do {
     (go, s) \<leftarrow> v_willCrawlPage v page height s;
     if \<not> go then Some (False, pages, s)
     else if pa_number page \<in> pages
     then Some (False, pages, crawl_markAsCorrupted (v_onCrawlerError v) (pa_number page) ''Page is already crawled.'' s)
     else Some (True, insert (pa_number page) pages, s)
   }"

partial_function (option) safeCrawl :: "'s crawler \<Rightarrow> int \<Rightarrow> int \<Rightarrow> int set \<Rightarrow> 's crawl \<Rightarrow> (int set \<times> 's crawl) option" where
  "safeCrawl v rootpageno height pages s = do {
     (loaded, s) \<leftarrow> crawl_load v rootpageno height s;
     case loaded of
       None \<Rightarrow> Some (pages, s)
     | Some page \<Rightarrow> do {
         (go, pages, s) \<leftarrow> crawl_enter v page height pages s;
         if \<not> go then Some (pages, s)
         else if pa_type page = InteriorTable
         then do {
           (_, pages, s) \<leftarrow> crawl_each (v_this v) (\<lambda>pageno pages s. safeCrawl v pageno (height + 1) pages s) (pa_subpagenos page) pages s;
           Some (pages, s)
         }
         else if pa_type page = InteriorIndex
         then do {
           (all, pages, s) \<leftarrow> crawl_each (v_this v) (\<lambda>pointer pages s. crawl_cell v page (\<lambda>ce pages s. do {
               (pages, s) \<leftarrow> safeCrawl v (sint (ce_leftChild ce)) (height + 1) pages s;
               s \<leftarrow> v_onCellCrawled v ce s;
               Some (pages, s)
             }) pointer pages s) (pa_cellPointers page) pages s;
           if \<not> all then Some (pages, s)
           else do {
             pageno \<leftarrow> getRightMostPage page;
             safeCrawl v pageno (height + 1) pages s
           }
         }
         else if pa_type page = LeafTable \<or> pa_type page = LeafIndex
         then do {
           (_, pages, s) \<leftarrow> crawl_each (v_this v) (crawl_cell v page (\<lambda>ce pages s. map_option (Pair pages) (v_onCellCrawled v ce s)))
             (pa_cellPointers page) pages s;
           Some (pages, s)
         }
         else Some (pages, crawl_markAsCorrupted (v_onCrawlerError v) (pa_number page) ''Unexpected page type: %d'' s)
       }
   }"

definition crawl :: "'s crawler \<Rightarrow> int \<Rightarrow> 's crawl \<Rightarrow> (bool \<times> 's crawl) option" where
  "crawl v rootpageno s = do {
     (_, s) \<leftarrow> safeCrawl v rootpageno 1 {} (crawl_update (v_this v) (\<lambda>c. c\<lparr>co_isCrawling := True\<rparr>) s);
     Some (error_isOK (wal_error (pg_wal (cr_pager s))), crawl_update (v_this v) (\<lambda>c. c\<lparr>co_isCrawling := False\<rparr>) s)
   }"

section \<open>The crawlers\<close>

text \<open>The virtual methods of \<open>Crawlable\<close> itself.\<close>

definition base_crawler :: "crawl_object \<Rightarrow> 's crawler" where
  "base_crawler this =
     \<lparr>v_this = this, v_canCrawlPage = (\<lambda>_ s. Some (True, s)), v_willCrawlPage = (\<lambda>_ _ s. Some (True, s)),
      v_onCellCrawled = (\<lambda>_ s. Some s), v_onCrawlerError = (\<lambda>s. s)\<rparr>"

record master_item =
  ma_type :: "byte list"
  ma_name :: "byte list"
  ma_tableName :: "byte list"
  ma_sql :: "byte list"
  ma_rootpage :: int

record 's master_delegate =
  d_onMasterPageCrawled :: "page \<Rightarrow> 's crawl \<Rightarrow> 's crawl option"
  d_onMasterCellCrawled :: "cell \<Rightarrow> master_item \<Rightarrow> 's crawl \<Rightarrow> 's crawl option"
  d_onMasterCrawlerError :: "'s crawl \<Rightarrow> 's crawl"

text \<open>A text column, or nothing when the column has another type.\<close>

definition textColumn :: "int \<Rightarrow> cell \<Rightarrow> byte list option" where
  "textColumn index ce = do {
     type \<leftarrow> getValueType index ce;
     if type = Cell_Text then stringValue index ce else Some []
   }"

text \<open>
  The row of the schema table: the root page when it is not positive, or the item.  A root page
  that is not an integer leaves the 0 of the constructor.
\<close>

definition master_read :: "cell \<Rightarrow> (int + master_item) option" where
  "master_read ce = do {
     type \<leftarrow> textColumn 0 ce;
     name \<leftarrow> textColumn 1 ce;
     tableName \<leftarrow> textColumn 2 ce;
     rootType \<leftarrow> getValueType 3 ce;
     root \<leftarrow> (if rootType = Cell_Integer then map_option narrow32 (integerValue 3 ce) else Some 0);
     if rootType = Cell_Integer \<and> root \<le> 0 then Some (Inl root)
     else do {
       sql \<leftarrow> textColumn 4 ce;
       Some (Inr \<lparr>ma_type = type, ma_name = name, ma_tableName = tableName, ma_sql = sql, ma_rootpage = root\<rparr>)
     }
   }"

definition master_onCellCrawled :: "'s master_delegate \<Rightarrow> cell \<Rightarrow> 's crawl \<Rightarrow> 's crawl option" where
  "master_onCellCrawled d ce s = do {
     x \<leftarrow> master_read ce;
     case x of
       Inl _ \<Rightarrow> Some (crawl_markAsCorrupted (d_onMasterCrawlerError d) (pa_number (ce_page ce))
            ''Root page: %d in Master is less than or equal to 0.'' s)
     | Inr master \<Rightarrow> d_onMasterCellCrawled d ce master s
   }"

definition master_crawler :: "'s master_delegate \<Rightarrow> 's crawler" where
  "master_crawler d = (base_crawler Crawl_Master)
     \<lparr>v_willCrawlPage := (\<lambda>page _ s. do { s \<leftarrow> d_onMasterPageCrawled d page s; Some (True, s) }),
      v_onCellCrawled := master_onCellCrawled d, v_onCrawlerError := d_onMasterCrawlerError d\<rparr>"

definition master_work :: "'s master_delegate \<Rightarrow> 's crawl \<Rightarrow> (bool \<times> 's crawl) option" where
  "master_work d s = crawl (master_crawler d) 1 s"

record sequence_item =
  sq_name :: "byte list"
  sq_seq :: int

record 's sequence_delegate =
  d_onSequencePageCrawled :: "page \<Rightarrow> 's crawl \<Rightarrow> 's crawl option"
  d_onSequenceCellCrawled :: "cell \<Rightarrow> sequence_item \<Rightarrow> 's crawl \<Rightarrow> 's crawl option"
  d_onSequenceCrawlerError :: "'s crawl \<Rightarrow> 's crawl"

definition sequence_onCrawlerError :: "'s sequence_delegate \<Rightarrow> 's crawl \<Rightarrow> 's crawl" where
  "sequence_onCrawlerError d s = crawl_suspend Crawl_Sequence (d_onSequenceCrawlerError d s)"

definition sequence_onCellCrawled :: "'s sequence_delegate \<Rightarrow> cell \<Rightarrow> 's crawl \<Rightarrow> 's crawl option" where
  "sequence_onCellCrawled d ce s = do {
     let corrupted = (\<lambda>message. Some (crawl_markAsCorrupted (sequence_onCrawlerError d) (pa_number (ce_page ce)) message s));
     nameType \<leftarrow> getValueType 0 ce;
     if nameType \<noteq> Cell_Text then corrupted ''Name with type: %d in Sequence is Text.''
     else do {
       seqType \<leftarrow> getValueType 1 ce;
       if seqType \<noteq> Cell_Integer then corrupted ''Seq with type: %d in Sequence is Integer.''
       else do {
         name \<leftarrow> stringValue 0 ce;
         if name = [] then corrupted ''Name in Sequence is empty.''
         else do {
           seq \<leftarrow> integerValue 1 ce;
           d_onSequenceCellCrawled d ce \<lparr>sq_name = name, sq_seq = seq\<rparr> s
         }
       }
     }
   }"

definition sequence_crawler :: "'s sequence_delegate \<Rightarrow> 's crawler" where
  "sequence_crawler d = (base_crawler Crawl_Sequence)
     \<lparr>v_willCrawlPage := (\<lambda>page _ s. do { s \<leftarrow> d_onSequencePageCrawled d page s; Some (True, s) }),
      v_onCellCrawled := sequence_onCellCrawled d, v_onCrawlerError := sequence_onCrawlerError d\<rparr>"

definition sequence_work :: "'s sequence_delegate \<Rightarrow> int \<Rightarrow> 's crawl \<Rightarrow> (bool \<times> 's crawl) option" where
  "sequence_work d rootpage s = crawl (sequence_crawler d) rootpage s"

section \<open>The walk returns\<close>

text \<open>
  What the pages of a tree must satisfy: the pointers of the pages in the set \<open>R\<close> are safe.  The
  children of the pages that are entered are in the set again, their cells are safe, and their
  rows are those that the crawler expects.
\<close>

definition tree_safe :: "(int \<Rightarrow> byte list \<Rightarrow> bool) \<Rightarrow> (cell \<Rightarrow> bool) \<Rightarrow> int set \<Rightarrow> pager \<Rightarrow> bool" where
  "tree_safe enters row R p \<longleftrightarrow>
     (\<forall>n \<in> R. 1 \<le> n \<and> (\<forall>bs. db_page p n = Some bs \<longrightarrow> pointers_safe n bs \<and>
        (interior_type (type_in n bs) \<and> enters n bs \<longrightarrow> set (children_in n bs) \<subseteq> R) \<and>
        (type_in n bs \<noteq> InteriorTable \<and> type_in n bs \<noteq> Page_Unknown \<and> enters n bs \<longrightarrow>
           (\<forall>pa. pa_type pa = type_in n bs \<longrightarrow> (\<forall>ptr \<in> set (pointers_in n bs). cell_safe pa bs ptr \<and>
             (\<forall>ce. cell_shows p pa bs (nat ptr) ce \<longrightarrow> row ce))))))"

text \<open>A step that leaves the database as it is, and keeps an invariant of the client.\<close>

definition kept :: "('s \<Rightarrow> bool) \<Rightarrow> 's crawl \<Rightarrow> 's crawl \<Rightarrow> bool" where
  "kept J s s' \<longleftrightarrow> pager_ok (cr_pager s') \<and> pager_same (cr_pager s) (cr_pager s') \<and> J (cr_user s')"

lemma kept_trans: "kept J s t \<Longrightarrow> kept J t u \<Longrightarrow> kept J s u"
  by (auto simp: kept_def intro: pager_same_trans)

lemma kept_update [simp]:
  "cr_pager (crawl_update this f s) = cr_pager s" "cr_user (crawl_update this f s) = cr_user s"
  "cr_pager (crawl_suspend this s) = cr_pager s" "cr_user (crawl_suspend this s) = cr_user s"
  by (simp_all add: crawl_update_def crawl_suspend_def)

definition crawl_at :: "pager \<Rightarrow> ('s \<Rightarrow> bool) \<Rightarrow> 's crawl \<Rightarrow> bool" where
  "crawl_at p J s \<longleftrightarrow> pager_ok (cr_pager s) \<and> pager_same p (cr_pager s) \<and> J (cr_user s)"

lemma kept_refl: "crawl_at p J s \<Longrightarrow> kept J s s"
  by (simp add: kept_def crawl_at_def)

lemma crawl_at_kept: "crawl_at p J s \<Longrightarrow> kept J s s' \<Longrightarrow> crawl_at p J s'"
  by (auto simp: crawl_at_def kept_def intro: pager_same_trans)

lemma kept_mono: "kept J s t \<Longrightarrow> (\<And>x. J x \<Longrightarrow> J' x) \<Longrightarrow> kept J' s t"
  by (auto simp: kept_def)

lemma crawl_at_mono: "crawl_at p J s \<Longrightarrow> (\<And>x. J x \<Longrightarrow> J' x) \<Longrightarrow> crawl_at p J' s"
  by (auto simp: crawl_at_def)

lemma page_shows_cells:
  assumes "page_shows n bs count page" "type_in n bs \<noteq> Page_Unknown"
  shows "getNumberOfCells page \<le> 65535"
proof -
  have "512 \<le> length bs" using assms by (simp add: page_shows_def page_ready_def)
  then have "cells_in n bs < 32768" by (rule pointers_bounds)
  then show ?thesis using assms by (simp add: page_shows_def getNumberOfCells_def pointers_in_def)
qed

text \<open>What the methods of an object promise to the walk over the database \<open>p\<close>, as long as it stays in the pages \<open>W\<close>.\<close>

locale crawl_hooks =
  fixes v :: "'s crawler" and enters :: "int \<Rightarrow> byte list \<Rightarrow> bool" and row :: "cell \<Rightarrow> bool" and W :: "int set" and p :: pager and J :: "'s \<Rightarrow> bool"
  assumes can_returns: "crawl_at p J s \<Longrightarrow> \<exists>b s'. v_canCrawlPage v n s = Some (b, s') \<and> kept J s s'"
    and will_returns: "crawl_at p J s \<Longrightarrow> n \<in> W \<Longrightarrow> page_shows n bs count page \<Longrightarrow>
      \<exists>b s'. v_willCrawlPage v page h s = Some (b, s') \<and> kept J s s' \<and> (b \<longrightarrow> enters n bs)"
    and cell_returns: "crawl_at p J s \<Longrightarrow> n \<in> W \<Longrightarrow> db_page p n = Some bs \<Longrightarrow> page_shows n bs count pa \<Longrightarrow> enters n bs \<Longrightarrow>
      type_in n bs \<noteq> Page_Unknown \<Longrightarrow> cell_shows p pa bs ptr ce \<Longrightarrow> row ce \<Longrightarrow> \<exists>s'. v_onCellCrawled v ce s = Some s' \<and> kept J s s'"
    and error_keeps: "crawl_at p J s \<Longrightarrow> kept J s (v_onCrawlerError v s)"
begin

lemma corrupted_keeps:
  assumes "crawl_at p J s"
  shows "kept J s (crawl_markAsCorrupted (v_onCrawlerError v) n m s)"
proof -
  let ?s = "s\<lparr>cr_pager := pager_markAsCorrupted n m (cr_pager s)\<rparr>"
  have "kept J s ?s" using pager_mark_same(1) assms by (auto simp: kept_def crawl_at_def)
  then show ?thesis unfolding crawl_markAsCorrupted_def by (rule kept_trans) (rule error_keeps [OF crawl_at_kept [OF assms \<open>kept J s ?s\<close>]])
qed

end

lemma cell_shows_same:
  assumes "pager_same p p'" "cell_shows p' pa bs ptr ce"
  shows "cell_shows p pa bs ptr ce"
proof -
  have "localPayload pa p' n = localPayload pa p n" for n
    by (simp add: localPayload_def getMaxLocal_def getMinLocal_def pager_same_usable [OF assms(1)])
  then show ?thesis using assms(2) overflow_chain_same [OF _ assms(1)] unfolding cell_shows_def payload_bytes_def by auto
qed

lemma suspended_keeps:
  assumes "crawl_at p J s"
  obtains b s' where "crawl_suspended this s = (b, s')" "kept J s s'"
  using assms that by (simp add: crawl_suspended_def kept_def crawl_at_def Let_def)

lemma crawl_each_returns:
  assumes "\<And>x P s. x \<in> set xs \<Longrightarrow> I P s \<Longrightarrow> \<exists>P' s'. f x P s = Some (P', s') \<and> I P' s'" "I P s" "\<And>P s s'. I P s \<Longrightarrow> kept J s s' \<Longrightarrow> I P s'"
    "\<And>P s. I P s \<Longrightarrow> crawl_at p J s"
  shows "\<exists>b P' s'. crawl_each this f xs P s = Some (b, P', s') \<and> I P' s'"
  using assms(1,2)
proof (induction xs arbitrary: P s)
  case (Cons x xs)
  obtain b t where t: "crawl_suspended this s = (b, t)" "kept J s t" using suspended_keeps [OF assms(4) [OF Cons.prems(2)]] .
  have "I P t" using assms(3) [OF Cons.prems(2) t(2)] .
  show ?case
  proof (cases b)
    case True
    then show ?thesis using t(1) \<open>I P t\<close> by simp blast
  next
    case False
    obtain Q u where u: "f x P t = Some (Q, u)" "I Q u" using Cons.prems(1) [OF list.set_intros(1) \<open>I P t\<close>] by blast
    then show ?thesis using t(1) False Cons.IH [OF _ u(2)] Cons.prems(1) by simp
  qed
qed auto

lemma page_shows_interior:
  assumes "page_shows n bs count page" "interior_type (type_in n bs)"
  shows "pa_subpagenos page = children_in n bs" "children_ok n bs count"
  using assms by (auto simp: page_shows_def interior_type_def)

lemma tree_safe_child:
  assumes "tree_safe enters row R p" "n \<in> R" "db_page p n = Some bs" "page_shows n bs (pager_getNumberOfPages p) page"
    "interior_type (type_in n bs)" "enters n bs" "c \<in> set (children_in n bs)"
  shows "c \<in> {1 .. pager_getNumberOfPages p} \<inter> R"
proof -
  have "1 \<le> c \<and> c \<le> pager_getNumberOfPages p" using page_shows_interior(2) [OF assms(4,5)] assms(7) by (simp add: children_ok_def)
  moreover have "set (children_in n bs) \<subseteq> R" using assms(1-3,5,6) unfolding tree_safe_def by blast
  ultimately show ?thesis using assms(7) by auto
qed

text \<open>The left child of a cell of an interior index page is one of the children of the page.\<close>

lemma left_child:
  assumes "interior_type (type_in n bs)" "page_shows n bs count page" "ptr \<in> set (pointers_in n bs)" "cell_shows p page bs (nat ptr) ce"
  shows "sint (ce_leftChild ce) \<in> set (children_in n bs)"
proof -
  have "pa_type page = type_in n bs" using assms(2) by (simp add: page_shows_def page_ready_def)
  then have "\<not> isLeafPage page" using assms(1) by (auto simp: isLeafPage_def interior_type_def)
  then have l: "ce_leftChild ce = word_of_int (child_at bs (int (nat ptr)))" "nat ptr + 4 \<le> length bs"
    using assms(4) by (simp_all add: cell_shows_def)
  have ptr: "0 \<le> ptr" using page_shows_interior(2) [OF assms(2,1)] assms(3) by (simp add: children_ok_def)
  have "length (take 4 (drop (nat ptr) bs)) = Suc 3" using l(2) by simp
  from be_sint_bounds [OF this]
  have "- (2 ^ 31) \<le> child_at bs ptr" "child_at bs ptr < 2 ^ 31" by (simp_all add: child_at_def)
  then have "sint (word_of_int (child_at bs ptr) :: u32) = child_at bs ptr"
    by (simp add: sint_sbintrunc' signed_take_bit_int_eq_self)
  then show ?thesis using l(1) ptr assms(3) by (simp add: children_in_def)
qed

context crawl_hooks
begin

lemma crawl_load_cases:
  assumes "crawl_at p J s" "tree_safe e r R p" "n \<in> R"
  obtains s' where "crawl_load v n h s = Some (None, s')" "kept J s s'"
  | page s' bs where "crawl_load v n h s = Some (Some page, s')" "kept J s s'" "db_page p n = Some bs"
    "page_shows n bs (pager_getNumberOfPages p) page"
proof -
  note stop = that(1) and go = that(2)
  obtain b t where t: "crawl_suspended (v_this v) s = (b, t)" "kept J s t" using suspended_keeps [OF assms(1)] .
  have at: "crawl_at p J t" using crawl_at_kept [OF assms(1) t(2)] .
  obtain can u where u: "v_canCrawlPage v n t = Some (can, u)" "kept J t u" using can_returns [OF at] by blast
  have su: "kept J s u" using t(2) u(2) by (rule kept_trans)
  have au: "crawl_at p J u" using crawl_at_kept [OF assms(1) su] .
  then have oku: "pager_ok (cr_pager u)" and pu: "pager_same p (cr_pager u)" and ju: "J (cr_user u)" by (simp_all add: crawl_at_def)
  show ?thesis
  proof (cases "b \<or> \<not> can")
    case True
    then show ?thesis using stop t u su by (cases b) (auto simp: crawl_load_def)
  next
    case False
    have n: "1 \<le> n" using assms(2,3) by (simp add: tree_safe_def)
    have safe: "\<forall>bs. db_page (cr_pager u) n = Some bs \<longrightarrow> pointers_safe n bs"
      using assms(2,3) pager_same_db(2) [OF pu] by (simp add: tree_safe_def)
    have eq: "crawl_load v n h s = do {
        (ok, page, p) \<leftarrow> page_initialize (page_init n, cr_pager u);
        let s = u\<lparr>cr_pager := p\<rparr>;
        if \<not> ok then Some (None, v_onCrawlerError v s)
        else if h = 1 then Some (Some page, crawl_update (v_this v) (\<lambda>c. c\<lparr>co_isCrawlingIndexTable := isIndexPage page\<rparr>) s)
        else if co_isCrawlingIndexTable (cr_objects s (v_this v)) \<noteq> isIndexPage page
        then Some (None, crawl_markAsCorrupted (v_onCrawlerError v) n ''Unmatched page type.'' s)
        else Some (Some page, s)
      }"
      using False t(1) u(1) by (simp add: crawl_load_def)
    show ?thesis
    proof (rule page_initialize_cases [OF oku n safe])
      fix pa p' assume pi: "page_initialize (page_init n, cr_pager u) = Some (False, pa, p')" "pager_ok p'" "pager_same (cr_pager u) p'"
      have "kept J u (u\<lparr>cr_pager := p'\<rparr>)" using pi(2,3) ju by (simp add: kept_def)
      then have "kept J s (v_onCrawlerError v (u\<lparr>cr_pager := p'\<rparr>))" using kept_trans [OF su kept_trans] error_keeps [OF crawl_at_kept [OF au]] by simp
      then show ?thesis using stop eq pi(1) by (simp add: Let_def)
    next
      fix bs pa p' assume pi: "page_initialize (page_init n, cr_pager u) = Some (True, pa, p')" "pager_ok p'" "pager_same (cr_pager u) p'"
        "db_page (cr_pager u) n = Some bs" "page_shows n bs (pager_getNumberOfPages (cr_pager u)) pa"
      let ?w = "u\<lparr>cr_pager := p'\<rparr>"
      have w: "kept J u ?w" "kept J u (crawl_update (v_this v) f ?w)" for f using pi(2,3) ju by (simp_all add: kept_def)
      have page: "db_page p n = Some bs" "page_shows n bs (pager_getNumberOfPages p) pa"
        using pi(4,5) pager_same_db(2) [OF pu] pager_same_count [OF pu] by simp_all
      consider "h = 1" | "h \<noteq> 1" "co_isCrawlingIndexTable (cr_objects ?w (v_this v)) \<noteq> isIndexPage pa"
        | "h \<noteq> 1" "co_isCrawlingIndexTable (cr_objects ?w (v_this v)) = isIndexPage pa" by blast
      then show ?thesis
      proof cases
        case 1
        then show ?thesis using go [OF _ kept_trans [OF su w(2)] page] eq pi(1) by (simp add: Let_def)
      next
        case 2
        have "kept J s (crawl_markAsCorrupted (v_onCrawlerError v) n ''Unmatched page type.'' ?w)"
          using kept_trans [OF su kept_trans [OF w(1) corrupted_keeps [OF crawl_at_kept [OF au w(1)]]]] .
        then show ?thesis using stop eq pi(1) 2 by (simp add: Let_def)
      next
        case 3
        then show ?thesis using go [OF _ kept_trans [OF su w(1)] page] eq pi(1) by (simp add: Let_def)
      qed
    qed
  qed
qed

lemma crawl_enter_cases:
  assumes "crawl_at p J s" "n \<in> W" "page_shows n bs count page"
  obtains s' where "crawl_enter v page h P s = Some (False, P, s')" "kept J s s'"
  | s' where "crawl_enter v page h P s = Some (True, insert n P, s')" "kept J s s'" "n \<notin> P" "enters n bs"
proof -
  have n: "pa_number page = n" using assms(3) by (simp add: page_shows_def page_ready_def)
  obtain b t where t: "v_willCrawlPage v page h s = Some (b, t)" "kept J s t" "b \<longrightarrow> enters n bs" using will_returns [OF assms] by blast
  have at: "crawl_at p J t" using crawl_at_kept [OF assms(1) t(2)] .
  consider "\<not> b" | "b" "n \<in> P" | "b" "n \<notin> P" by blast
  then show ?thesis
  proof cases
    case 1
    then show ?thesis using that(1) t by (simp add: crawl_enter_def)
  next
    case 2
    then show ?thesis using that(1) kept_trans [OF t(2) corrupted_keeps [OF at]] t(1) n by (simp add: crawl_enter_def)
  next
    case 3
    then show ?thesis using that(2) [of t] t n by (simp add: crawl_enter_def)
  qed
qed

text \<open>One cell: the continuation runs for a cell that shows its record.\<close>

lemma crawl_cell_returns:
  assumes "I P s" "\<And>P s. I P s \<Longrightarrow> crawl_at p J s" "\<And>P s s'. I P s \<Longrightarrow> kept J s s' \<Longrightarrow> I P s'"
    "sizes_ok p" "page_ready n bs page" "pa_type page \<noteq> InteriorTable" "cell_safe page bs ptr"
    "\<And>ce P s. cell_shows p page bs (nat ptr) ce \<Longrightarrow> I P s \<Longrightarrow> \<exists>P' s'. f ce P s = Some (P', s') \<and> I P' s'"
  shows "\<exists>P' s'. crawl_cell v page f ptr P s = Some (P', s') \<and> I P' s'"
proof -
  have s: "pager_ok (cr_pager s)" "pager_same p (cr_pager s)" using assms(2) [OF assms(1)] by (simp_all add: crawl_at_def)
  have "sizes_ok (cr_pager s)" using assms(4) sizes_ok_same [OF s(2)] by simp
  from cell_initialize_spec [OF s(1) this assms(5-7)]
  obtain ok ce q where c: "cell_initialize (cell_init ptr page, cr_pager s) = Some (ok, ce, q)" "pager_ok q" "pager_same (cr_pager s) q"
    "ok \<longrightarrow> cell_shows (cr_pager s) page bs (nat ptr) ce"
    unfolding cell_result_def by blast
  let ?t = "s\<lparr>cr_pager := q\<rparr>"
  have k: "kept J s ?t" using c(2,3) assms(2) [OF assms(1)] by (simp add: kept_def crawl_at_def)
  have t: "I P ?t" using assms(3) [OF assms(1) k] .
  show ?thesis
  proof (cases ok)
    case True
    then have "cell_shows p page bs (nat ptr) ce" using c(4) cell_shows_same [OF s(2)] by blast
    then show ?thesis using assms(8) [OF _ t] c(1) True by (simp add: crawl_cell_def Let_def)
  next
    case False
    then show ?thesis using assms(3) [OF t error_keeps [OF assms(2) [OF t]]] c(1) by (simp add: crawl_cell_def Let_def)
  qed
qed

end

definition crawl_inv :: "pager \<Rightarrow> ('s \<Rightarrow> bool) \<Rightarrow> int set \<Rightarrow> int set \<Rightarrow> int set \<Rightarrow> 's crawl \<Rightarrow> bool" where
  "crawl_inv p J U B P s \<longleftrightarrow> crawl_at p J s \<and> B \<subseteq> P \<and> P \<subseteq> U"

lemma crawl_inv_kept: "crawl_inv p J U B P s \<Longrightarrow> kept J s s' \<Longrightarrow> crawl_inv p J U B P s'"
  by (auto simp: crawl_inv_def intro: crawl_at_kept)

lemma crawl_inv_at: "crawl_inv p J U B P s \<Longrightarrow> crawl_at p J s"
  by (simp add: crawl_inv_def)

context crawl_hooks
begin

text \<open>The cells of a page, when the continuation keeps the invariant.\<close>

lemma crawl_cells_return:
  assumes "crawl_inv p J U B P s" "tree_safe enters row R p" "sizes_ok p" "n \<in> R" "db_page p n = Some bs"
    "page_shows n bs (pager_getNumberOfPages p) page" "type_in n bs \<noteq> InteriorTable" "type_in n bs \<noteq> Page_Unknown" "enters n bs"
    "\<And>ptr ce P s. ptr \<in> set (pointers_in n bs) \<Longrightarrow> cell_shows p page bs (nat ptr) ce \<Longrightarrow> row ce \<Longrightarrow> crawl_inv p J U B P s \<Longrightarrow>
       \<exists>P' s'. f ce P s = Some (P', s') \<and> crawl_inv p J U B P' s'"
  shows "\<exists>b P' s'. crawl_each this (crawl_cell v page f) (pa_cellPointers page) P s = Some (b, P', s') \<and> crawl_inv p J U B P' s'"
proof (rule crawl_each_returns [where I = "crawl_inv p J U B"])
  show "crawl_inv p J U B P s" by (rule assms(1))
  fix ptr P and s :: "'s crawl" assume ptr: "ptr \<in> set (pa_cellPointers page)" and s: "crawl_inv p J U B P s"
  have page: "page_ready n bs page" "pa_type page = type_in n bs" "pa_cellPointers page = pointers_in n bs"
    using assms(6,8) by (simp_all add: page_shows_def page_ready_def)
  have ptr': "ptr \<in> set (pointers_in n bs)" using ptr page(3) by simp
  have "\<forall>pa. pa_type pa = type_in n bs \<longrightarrow> (\<forall>ptr \<in> set (pointers_in n bs). cell_safe pa bs ptr \<and>
           (\<forall>ce. cell_shows p pa bs (nat ptr) ce \<longrightarrow> row ce))"
    using assms(2,4,5,7,8,9) page(2) unfolding tree_safe_def by auto
  then have safe: "cell_safe page bs ptr" "cell_shows p page bs (nat ptr) ce \<Longrightarrow> row ce" for ce
    using page(2) ptr' by blast+
  show "\<exists>P' s'. crawl_cell v page f ptr P s = Some (P', s') \<and> crawl_inv p J U B P' s'"
  proof (rule crawl_cell_returns [where I = "crawl_inv p J U B", OF s crawl_inv_at crawl_inv_kept assms(3) page(1) _ safe(1)])
    show "pa_type page \<noteq> InteriorTable" using assms(7) page(2) by simp
  qed (use assms(10) ptr' safe(2) in blast)+
qed (rule crawl_inv_kept crawl_inv_at, assumption+)+

lemma safeCrawl_returns:
  assumes "tree_safe enters row R p" "sizes_ok p" "finite U" "{1 .. pager_getNumberOfPages p} \<subseteq> U" "R \<subseteq> W"
  shows "n \<in> U \<Longrightarrow> n \<in> R \<Longrightarrow> crawl_inv p J U B P s \<Longrightarrow> \<exists>P' s'. safeCrawl v n h P s = Some (P', s') \<and> crawl_inv p J U B P' s'"
proof (induction "card (U - B)" arbitrary: n B P s h rule: less_induct)
  case less
  note s = crawl_inv_at [OF less.prems(3)]
  have nW: "n \<in> W" using assms(5) less.prems(2) by blast
  show ?case
  proof (rule crawl_load_cases [OF s assms(1) less.prems(2), of h])
    fix s' assume "crawl_load v n h s = Some (None, s')" "kept J s s'"
    then show ?thesis using crawl_inv_kept [OF less.prems(3)] by (subst safeCrawl.simps) simp
  next
    fix page t bs assume l: "crawl_load v n h s = Some (Some page, t)" "kept J s t" "db_page p n = Some bs" "page_shows n bs (pager_getNumberOfPages p) page"
    have t: "crawl_inv p J U B P t" using crawl_inv_kept [OF less.prems(3) l(2)] .
    have type: "pa_type page = type_in n bs" using l(4) by (simp add: page_shows_def)
    show ?thesis
    proof (rule crawl_enter_cases [OF crawl_inv_at [OF t] nW l(4), of h P])
      fix u assume "crawl_enter v page h P t = Some (False, P, u)" "kept J t u"
      then show ?thesis using crawl_inv_kept [OF t] l(1) by (subst safeCrawl.simps) simp
    next
      fix u assume u: "crawl_enter v page h P t = Some (True, insert n P, u)" "kept J t u" "n \<notin> P" "enters n bs"
      let ?I = "crawl_inv p J U (insert n B)"
      have w: "?I (insert n P) u" using crawl_inv_kept [OF t u(2)] less.prems(1) by (auto simp: crawl_inv_def)
      have nB: "n \<notin> B" using t u(3) by (auto simp: crawl_inv_def)
      have "card (U - insert n B) < card (U - B)" using nB less.prems(1) assms(3) by (intro psubset_card_mono) auto
      note ih = less.hyps [OF this]
      have weaken: "?I Q x \<Longrightarrow> crawl_inv p J U B Q x" for Q x by (auto simp: crawl_inv_def)
      have child: "\<exists>Q' x'. safeCrawl v c (h + 1) Q x = Some (Q', x') \<and> ?I Q' x'"
        if "interior_type (type_in n bs)" "c \<in> set (children_in n bs)" "?I Q x" for c Q x
        using ih [OF _ _ that(3)] tree_safe_child [OF assms(1) less.prems(2) l(3,4) that(1) u(4) that(2)] assms(4) by blast
      have hook: "\<exists>x'. v_onCellCrawled v ce x = Some x' \<and> ?I Q x'" if "?I Q x" "cell_shows p page bs (nat ptr) ce" "row ce" "type_in n bs \<noteq> Page_Unknown" for Q x ce ptr
        using cell_returns [OF crawl_inv_at [OF that(1)] nW l(3,4) u(4) that(4,2,3)] crawl_inv_kept [OF that(1)] by blast
      note cells = crawl_cells_return [OF w assms(1,2) less.prems(2) l(3,4) _ _ u(4)]
      have leaf: ?thesis if lf: "type_in n bs = LeafTable \<or> type_in n bs = LeafIndex"
      proof -
        let ?f = "\<lambda>ce pages s. map_option (Pair pages) (v_onCellCrawled v ce s)"
        have "\<exists>Q' x'. ?f ce Q x = Some (Q', x') \<and> ?I Q' x'" if "cell_shows p page bs (nat ptr) ce" "row ce" "?I Q x" for ptr ce Q x
          using hook [OF that(3,1,2)] lf by auto
        then obtain b Q y where "crawl_each (v_this v) (crawl_cell v page ?f) (pa_cellPointers page) (insert n P) u = Some (b, Q, y)" "?I Q y"
          using cells [of ?f "v_this v"] lf by auto
        then show ?thesis using l(1) u(1) type lf weaken by (subst safeCrawl.simps) auto
      qed
      show ?thesis
      proof (cases "type_in n bs")
        case InteriorTable
        then have sub: "interior_type (type_in n bs)" by (simp add: interior_type_def)
        have "\<exists>b Q x'. crawl_each (v_this v) (\<lambda>pageno pages s. safeCrawl v pageno (h + 1) pages s) (pa_subpagenos page) (insert n P) u = Some (b, Q, x') \<and> ?I Q x'"
          by (rule crawl_each_returns [where I = ?I, OF _ w crawl_inv_kept crawl_inv_at])
            (use child [OF sub] page_shows_interior(1) [OF l(4) sub] in auto)
        then show ?thesis using l(1) u(1) type InteriorTable weaken by (subst safeCrawl.simps) auto
      next
        case InteriorIndex
        then have sub: "interior_type (type_in n bs)" by (simp add: interior_type_def)
        let ?f = "\<lambda>ce pages s. do { (pages, s) \<leftarrow> safeCrawl v (sint (ce_leftChild ce)) (h + 1) pages s; s \<leftarrow> v_onCellCrawled v ce s; Some (pages, s) }"
        have f: "\<exists>Q' x'. ?f ce Q x = Some (Q', x') \<and> ?I Q' x'"
          if c: "ptr \<in> set (pointers_in n bs)" "cell_shows p page bs (nat ptr) ce" "row ce" "?I Q x" for ptr ce Q x
        proof -
          obtain Q' y where y: "safeCrawl v (sint (ce_leftChild ce)) (h + 1) Q x = Some (Q', y)" "?I Q' y"
            using child [OF sub left_child [OF sub l(4) c(1,2)] c(4)] by blast
          then show ?thesis using hook [OF y(2) c(2,3)] InteriorIndex by auto
        qed
        obtain b Q y where y: "crawl_each (v_this v) (crawl_cell v page ?f) (pa_cellPointers page) (insert n P) u = Some (b, Q, y)" "?I Q y"
          using cells [of ?f "v_this v"] f InteriorIndex by auto
        have right: "getRightMostPage page = Some (last (children_in n bs))" "last (children_in n bs) \<in> set (children_in n bs)"
          by (simp_all add: getRightMostPage_def at_def page_shows_interior(1) [OF l(4) sub] children_in_def nth_append)
        show ?thesis using l(1) u(1) type InteriorIndex y weaken child [OF sub right(2) y(2)] right(1)
          by (subst safeCrawl.simps) auto
      qed (use l(1) u(1) type leaf weaken [OF crawl_inv_kept [OF w corrupted_keeps [OF crawl_inv_at [OF w]]]] in \<open>auto simp: safeCrawl.simps [of v n]\<close>)
    qed
  qed
qed

lemma crawl_returns:
  assumes "crawl_at p J s" "sizes_ok p" "tree_safe enters row R p" "root \<in> R" "R \<subseteq> W"
  shows "\<exists>ok s'. crawl v root s = Some (ok, s') \<and> kept J s s' \<and> ok = error_isOK (wal_error (pg_wal (cr_pager s'))) \<and>
    \<not> co_isCrawling (cr_objects s' (v_this v))"
proof -
  let ?U = "insert root {1 .. pager_getNumberOfPages p}" and ?s = "crawl_update (v_this v) (\<lambda>c. c\<lparr>co_isCrawling := True\<rparr>) s"
  have at: "crawl_at p J ?s" using assms(1) by (simp add: crawl_at_def)
  have "crawl_inv p J ?U {} {} ?s" using at by (simp add: crawl_inv_def)
  from safeCrawl_returns [OF assms(3,2) _ _ assms(5) _ assms(4) this, of 1]
  obtain P t where "safeCrawl v root 1 {} ?s = Some (P, t)" "crawl_at p J t" by (auto simp: crawl_inv_def)
  then show ?thesis using assms(1) by (auto simp: crawl_def kept_def crawl_at_def crawl_update_def pager_same_def)
qed

end

section \<open>The crawlers return\<close>

lemma integer_type:
  assumes "isSerialTypeSanity t" "t \<noteq> 0" "t \<noteq> 7" "t \<le> 10"
  shows "t \<in> {1 .. 6} \<or> t \<in> {8, 9}"
  using assms by (auto simp: isSerialTypeSanity_def)

lemma column_sane:
  assumes "cell_shows p pa bs ptr ce" "i < length (ce_columns ce)"
  shows "isSerialTypeSanity (fst (ce_columns ce ! i))"
proof -
  obtain e ts where rec: "list_all isSerialTypeSanity ts" "ce_columns ce = place (int e) ts"
    using assms(1) by (auto simp: cell_shows_def record_is_def)
  obtain t off where c: "ce_columns ce ! i = (t, off)" by (cases "ce_columns ce ! i")
  have "(t, off) \<in> set (place (int e) ts)" using assms(2) rec(2) c nth_mem by fastforce
  from place_bounds(1) [OF this rec(1)] show ?thesis using c by simp
qed

lemma column_type:
  assumes "i < length (ce_columns ce)"
  obtains t where "getValueType (int i) ce = Some t"
  using that assms by (cases "ce_columns ce ! i") (auto simp: getValueType_def at_def)

lemma column_text:
  assumes "cell_shows p pa bs ptr ce" "i < length (ce_columns ce)"
  obtains x where "textColumn (int i) ce = Some x"
proof (cases "ce_columns ce ! i")
  case (Pair t off)
  obtain ty where "getValueType (int i) ce = Some ty" using column_type [OF assms(2)] .
  then show ?thesis using that cell_column_values [OF assms Pair] by (cases "ty = Cell_Text") (auto simp: textColumn_def)
qed

lemma column_string:
  assumes "cell_shows p pa bs ptr ce" "i < length (ce_columns ce)"
  obtains x where "stringValue (int i) ce = Some x"
  using that cell_column_values [OF assms surjective_pairing] by blast

lemma column_integer:
  assumes "cell_shows p pa bs ptr ce" "i < length (ce_columns ce)" "getValueType (int i) ce = Some Cell_Integer"
  obtains x where "integerValue (int i) ce = Some x"
proof (cases "ce_columns ce ! i")
  case (Pair t off)
  have "t \<noteq> 0" "t \<noteq> 7" "t \<le> 10" using assms(2,3) Pair by (auto simp: getValueType_def at_def split: if_splits)
  then have "t \<in> {1 .. 6} \<or> t \<in> {8, 9}" using column_sane [OF assms(1,2)] Pair integer_type by simp
  then show ?thesis using that cell_column_values [OF assms(1,2) Pair] by blast
qed

lemma master_read_returns:
  assumes "cell_shows p pa bs ptr ce" "5 \<le> length (ce_columns ce)"
  obtains x where "master_read ce = Some x"
proof -
  note col = column_text [OF assms(1)]
  have ne: "ce_columns ce \<noteq> []" using assms(2) by auto
  obtain a where a: "textColumn 0 ce = Some a" using col [of 0] ne by auto
  obtain b where b: "textColumn 1 ce = Some b" using col [of 1] assms(2) by auto
  obtain c where c: "textColumn 2 ce = Some c" using col [of 2] assms(2) by auto
  obtain e where e: "textColumn 4 ce = Some e" using col [of 4] assms(2) by auto
  note t = a b c e
  obtain ty where ty: "getValueType 3 ce = Some ty" using column_type [of 3 ce] assms(2) by auto
  show ?thesis
  proof (cases "ty = Cell_Integer")
    case True
    obtain n where "integerValue 3 ce = Some n" using column_integer [OF assms(1), of 3] assms(2) ty True by auto
    then show ?thesis using that t ty True by (cases "narrow32 n \<le> 0") (simp_all add: master_read_def)
  next
    case False
    then show ?thesis using that t ty by (simp add: master_read_def)
  qed
qed

text \<open>What a client of the crawler of the schema table promises, and what the crawler makes of it.\<close>

locale master_client =
  fixes d :: "'s master_delegate" and accepts :: "master_item \<Rightarrow> bool" and p :: pager and J :: "'s \<Rightarrow> bool"
  assumes page_returns: "crawl_at p J s \<Longrightarrow> \<exists>s'. d_onMasterPageCrawled d page s = Some s' \<and> kept J s s'"
    and item_returns: "crawl_at p J s \<Longrightarrow> accepts master \<Longrightarrow> getNumberOfCells (ce_page ce) \<le> 65535 \<Longrightarrow> \<exists>s'. d_onMasterCellCrawled d ce master s = Some s' \<and> kept J s s'"
    and failure_keeps: "crawl_at p J s \<Longrightarrow> kept J s (d_onMasterCrawlerError d s)"

definition master_row :: "(master_item \<Rightarrow> bool) \<Rightarrow> cell \<Rightarrow> bool" where
  "master_row accepts ce \<longleftrightarrow> 5 \<le> length (ce_columns ce) \<and> (case master_read ce of Some (Inr master) \<Rightarrow> accepts master | _ \<Rightarrow> True)"

lemma mark_keeps:
  assumes "\<And>s. crawl_at p J s \<Longrightarrow> kept J s (f s)" "crawl_at p J s"
  shows "kept J s (crawl_markAsCorrupted f n m s)" "kept J s (crawl_markAsInterrupted f s)"
proof -
  have "kept J s (s\<lparr>cr_pager := pager_markAsCorrupted n m (cr_pager s)\<rparr>)" "kept J s (s\<lparr>cr_pager := pager_markAsError c (cr_pager s)\<rparr>)" for c
    using assms(2) by (simp_all add: kept_def crawl_at_def pager_markAsError_def)
  then show "kept J s (crawl_markAsCorrupted f n m s)" "kept J s (crawl_markAsInterrupted f s)"
    using assms crawl_at_kept kept_trans unfolding crawl_markAsCorrupted_def crawl_markAsInterrupted_def by metis+
qed

sublocale master_client \<subseteq> crawl_hooks "master_crawler d" "\<lambda>_ _. True" "master_row accepts" UNIV p J
proof unfold_locales
  fix s :: "'s crawl" and n bs count page h assume s: "crawl_at p J s"
  show "\<exists>b s'. v_canCrawlPage (master_crawler d) n s = Some (b, s') \<and> kept J s s'"
    by (rule exI [of _ True]) (use kept_refl [OF s] in \<open>simp add: master_crawler_def base_crawler_def\<close>)
  show "\<exists>b s'. v_willCrawlPage (master_crawler d) page h s = Some (b, s') \<and> kept J s s' \<and> (b \<longrightarrow> True)"
    using page_returns [OF s, of page] by (auto simp: master_crawler_def)
  show "kept J s (v_onCrawlerError (master_crawler d) s)" using failure_keeps [OF s] by (simp add: master_crawler_def)
next
  fix s :: "'s crawl" and n count pa bs ptr ce assume s: "crawl_at p J s" and ce: "cell_shows p pa bs ptr ce" "master_row accepts ce"
    and pa: "page_shows n bs count pa" "type_in n bs \<noteq> Page_Unknown"
  have cells: "getNumberOfCells (ce_page ce) \<le> 65535" using page_shows_cells [OF pa] ce(1) by (simp add: cell_shows_def)
  obtain x where x: "master_read ce = Some x" using master_read_returns [OF ce(1)] ce(2) by (auto simp: master_row_def)
  show "\<exists>s'. v_onCellCrawled (master_crawler d) ce s = Some s' \<and> kept J s s'"
  proof (cases x)
    case (Inl root)
    then show ?thesis using x mark_keeps(1) [OF failure_keeps s] by (simp add: master_crawler_def master_onCellCrawled_def)
  next
    case (Inr master)
    then show ?thesis using x item_returns [OF s _ cells, of master] ce(2) by (simp add: master_crawler_def master_onCellCrawled_def master_row_def)
  qed
qed

context master_client
begin

lemma master_work_returns:
  assumes "crawl_at p J s" "sizes_ok p" "tree_safe (\<lambda>_ _. True) (master_row accepts) R p" "1 \<in> R"
  shows "\<exists>ok s'. master_work d s = Some (ok, s') \<and> kept J s s'"
  using crawl_returns [OF assms subset_UNIV] by (auto simp: master_work_def)

end

locale sequence_client =
  fixes d :: "'s sequence_delegate" and p :: pager and J :: "'s \<Rightarrow> bool"
  assumes page_returns: "crawl_at p J s \<Longrightarrow> \<exists>s'. d_onSequencePageCrawled d page s = Some s' \<and> kept J s s'"
    and item_returns: "crawl_at p J s \<Longrightarrow> getNumberOfCells (ce_page ce) \<le> 65535 \<Longrightarrow> \<exists>s'. d_onSequenceCellCrawled d ce sequence s = Some s' \<and> kept J s s'"
    and failure_keeps: "crawl_at p J s \<Longrightarrow> kept J s (d_onSequenceCrawlerError d s)"

sublocale sequence_client \<subseteq> crawl_hooks "sequence_crawler d" "\<lambda>_ _. True" "\<lambda>ce. 2 \<le> length (ce_columns ce)" UNIV p J
proof unfold_locales
  fix s :: "'s crawl" and n bs count page h assume s: "crawl_at p J s"
  show "\<exists>b s'. v_canCrawlPage (sequence_crawler d) n s = Some (b, s') \<and> kept J s s'"
    by (rule exI [of _ True]) (use kept_refl [OF s] in \<open>simp add: sequence_crawler_def base_crawler_def\<close>)
  show "\<exists>b s'. v_willCrawlPage (sequence_crawler d) page h s = Some (b, s') \<and> kept J s s' \<and> (b \<longrightarrow> True)"
    using page_returns [OF s, of page] by (auto simp: sequence_crawler_def)
  show "kept J s (v_onCrawlerError (sequence_crawler d) s)"
    using failure_keeps [OF s] by (simp add: sequence_crawler_def sequence_onCrawlerError_def kept_def)
next
  fix s :: "'s crawl" and n count pa bs ptr ce assume s: "crawl_at p J s" and ce: "cell_shows p pa bs ptr ce" "2 \<le> length (ce_columns ce)"
    and pa: "page_shows n bs count pa" "type_in n bs \<noteq> Page_Unknown"
  have cells: "getNumberOfCells (ce_page ce) \<le> 65535" using page_shows_cells [OF pa] ce(1) by (simp add: cell_shows_def)
  have fails: "kept J s (sequence_onCrawlerError d s)" if "crawl_at p J s" for s :: "'s crawl"
    using failure_keeps [OF that] by (simp add: sequence_onCrawlerError_def kept_def)
  have ne: "ce_columns ce \<noteq> []" using ce(2) by auto
  obtain a where a: "getValueType 0 ce = Some a" using column_type [of 0 ce] ne by auto
  obtain b where b: "getValueType 1 ce = Some b" using column_type [of 1 ce] ce(2) by auto
  note t = a b
  obtain name where n: "stringValue 0 ce = Some name" using column_string [OF ce(1), of 0] ne by auto
  show "\<exists>s'. v_onCellCrawled (sequence_crawler d) ce s = Some s' \<and> kept J s s'"
  proof (cases "a = Cell_Text \<and> b = Cell_Integer \<and> name \<noteq> []")
    case True
    obtain k where "integerValue 1 ce = Some k" using column_integer [OF ce(1), of 1] ce(2) t(2) True by auto
    then show ?thesis using item_returns [OF s cells] t n True by (simp add: sequence_crawler_def sequence_onCellCrawled_def)
  next
    case False
    then show ?thesis using t n mark_keeps(1) [OF fails s] by (auto simp: sequence_crawler_def sequence_onCellCrawled_def)
  qed
qed

context sequence_client
begin

lemma sequence_work_returns:
  assumes "crawl_at p J s" "sizes_ok p" "tree_safe (\<lambda>_ _. True) (\<lambda>ce. 2 \<le> length (ce_columns ce)) R p" "root \<in> R"
  shows "\<exists>ok s'. sequence_work d root s = Some (ok, s') \<and> kept J s s'"
  using crawl_returns [OF assms subset_UNIV] by (auto simp: sequence_work_def)

end

interpretation crawl_defaults: crawl_hooks "base_crawler this" "\<lambda>_ _. True" "\<lambda>_. True" UNIV p J for this p J
  by unfold_locales (auto simp: base_crawler_def crawl_at_def intro: kept_refl)

section \<open>Properties\<close>

text \<open>
  C40: The row of a view or a trigger, whose root page is the integer 0, is reported as corrupted
  and does not reach the client.
\<close>

theorem master_rejects_views:
  assumes "cell_shows p pa bs ptr ce" "5 \<le> length (ce_columns ce)" "fst (ce_columns ce ! 3) = 8"
  shows "master_onCellCrawled d ce s =
    Some (crawl_markAsCorrupted (d_onMasterCrawlerError d) (pa_number pa) ''Root page: %d in Master is less than or equal to 0.'' s)"
proof -
  obtain off where c: "ce_columns ce ! 3 = (8, off)" using assms(3) by (cases "ce_columns ce ! 3") auto
  have ne: "ce_columns ce \<noteq> []" using assms(2) by auto
  note col = column_text [OF assms(1)]
  obtain t where t: "textColumn 0 ce = Some t" using col [of 0] ne by auto
  obtain n where n: "textColumn 1 ce = Some n" using col [of 1] assms(2) by auto
  obtain u where u: "textColumn 2 ce = Some u" using col [of 2] assms(2) by auto
  have "getValueType 3 ce = Some Cell_Integer" using assms(2) c by (simp add: getValueType_def at_def)
  moreover have "integerValue 3 ce = Some 0" using cell_column_values [OF assms(1) _ c] assms(2) by simp
  moreover have "narrow32 0 \<le> 0" by code_simp
  moreover have "ce_page ce = pa" using assms(1) by (simp add: cell_shows_def)
  ultimately show ?thesis using t n u by (simp add: master_onCellCrawled_def master_read_def)
qed

text \<open>A leaf with the row of a view, and nothing but empty texts in the other columns.\<close>

definition demo_view :: "byte list" where
  "demo_view = [13, 0, 0, 0, 1, 0, 0, 0, 1, 244] @ replicate 490 0 @ [6, 1, 6, 13, 13, 13, 8, 13] @ replicate 4 0"

definition demo_view_page :: page where
  "demo_view_page = (page_init 2)\<lparr>pa_type := LeafTable, pa_data := holder demo_view, pa_ds := ds_init (holder demo_view)\<rparr>"

definition demo_view_cell :: cell where
  "demo_view_cell = (cell_init 500 demo_view_page)\<lparr>ce_rowid := 1, ce_payload := holder [6, 13, 13, 13, 8, 13],
     ce_ds := ds_init (holder [6, 13, 13, 13, 8, 13]), ce_columns := [(13, 6), (13, 6), (13, 6), (8, 6), (13, 6)]\<rparr>"

lemma demo_view_record: "record_is [6, 13, 13, 13, 8, 13] [13, 13, 13, 8, 13] [(13, 6), (13, 6), (13, 6), (8, 6), (13, 6)]"
proof -
  let ?bs = "[6, 13, 13, 13, 8, 13] :: byte list"
  have v: "varint_ref 0 0 ?bs = (1, 6)" "varint_ref 0 0 (drop 1 ?bs) = (1, 13)" "varint_ref 0 0 (drop 2 ?bs) = (1, 13)"
    "varint_ref 0 0 (drop 3 ?bs) = (1, 13)" "varint_ref 0 0 (drop 4 ?bs) = (1, 8)" "varint_ref 0 0 (drop 5 ?bs) = (1, 13)"
    "to_int32 6 = int 6" "to_int32 13 = 13" "to_int32 8 = 8"
    by code_simp+
  have "header_types ?bs 5 6 [to_int32 13]" using header_types.more [OF _ v(6)] header_types.finish [of ?bs 6] by simp
  from header_types.more [OF _ v(5) _, of 6] this have "header_types ?bs 4 6 [to_int32 8, to_int32 13]" by simp
  from header_types.more [OF _ v(4) _, of 6] this have "header_types ?bs 3 6 [to_int32 13, to_int32 8, to_int32 13]" by simp
  from header_types.more [OF _ v(3) _, of 6] this have "header_types ?bs 2 6 [to_int32 13, to_int32 13, to_int32 8, to_int32 13]" by simp
  from header_types.more [OF _ v(2) _, of 6] this have "header_types ?bs 1 6 [13, 13, 13, 8, 13]" by (simp add: v(8,9) numeral_2_eq_2)
  then show ?thesis unfolding record_is_def
    by (intro exI [of _ 1] exI [of _ 6] exI [of _ 6]) (use v in \<open>simp add: isSerialTypeSanity_def values_len_def serial_len_def\<close>)
qed

lemma demo_view_shows: "cell_shows (demo_tree (replicate 512 0 @ demo_view)) demo_view_page demo_view 500 demo_view_cell"
proof -
  have c: "cell_row demo_view_page demo_view 500 = (1, 1)" "cell_offset demo_view_page demo_view 500 = 502"
    "cell_total demo_view_page demo_view 500 = 6" "take 6 (drop 502 demo_view) = [6, 13, 13, 13, 8, 13]"
    by code_simp+
  have "pager_getUsableSize (demo_tree (replicate 512 0 @ demo_view)) = 512" by (rule demo_tree_ok(4)) (simp add: demo_view_def)
  then have l: "localPayload demo_view_page (demo_tree (replicate 512 0 @ demo_view)) 6 = 6"
    by (simp add: localPayload_def getMaxLocal_def demo_view_page_def)
  show ?thesis unfolding cell_shows_def c l
    using demo_view_record by (auto simp: demo_view_cell_def demo_view_page_def cell_init_def isLeafPage_def holder_view payload_bytes_def c ds_init_def)
qed

text \<open>A client that notes the items it is given.\<close>

definition demo_notes :: "master_item list master_delegate" where
  "demo_notes = \<lparr>d_onMasterPageCrawled = (\<lambda>_ s. Some s), d_onMasterCellCrawled = (\<lambda>_ master s. Some (s\<lparr>cr_user := master # cr_user s\<rparr>)),
     d_onMasterCrawlerError = crawl_suspend Crawl_Master\<rparr>"

definition demo_crawl :: "'s \<Rightarrow> byte list \<Rightarrow> 's crawl" where
  "demo_crawl x bs = \<lparr>cr_pager = demo_tree bs, cr_objects = (\<lambda>_. crawlable_init), cr_signal = (\<lambda>_. False), cr_readings = 0, cr_user = x\<rparr>"

theorem master_rejects_views_witness:
  "map_option cr_user (master_onCellCrawled demo_notes demo_view_cell (demo_crawl [] (replicate 512 0 @ demo_view))) = Some []"
proof -
  have "5 \<le> length (ce_columns demo_view_cell)" "fst (ce_columns demo_view_cell ! 3) = 8" by (simp_all add: demo_view_cell_def)
  from master_rejects_views [OF demo_view_shows this, of demo_notes "demo_crawl [] (replicate 512 0 @ demo_view)"]
  show ?thesis by (simp add: crawl_markAsCorrupted_def demo_notes_def demo_crawl_def)
qed

end
