(* ===== verification/WCDB_PagerInit.thy ===== *)
theory WCDB_PagerInit
  imports WCDB_PagerPages
begin

unbundle bit_operations_syntax

text \<open>
  Properties of the initialization of the pager: what is read from the header of the database,
  which page sizes are accepted, and that an initialized pager satisfies what the reads of
  pages rely on.
\<close>

section \<open>Powers of two\<close>

lemma power_of_two_if_and:
  assumes "0 < n" "(n - 1) AND n = (0 :: int)"
  shows "\<exists>k. n = 2 ^ k"
  using assms
proof (induction "nat n" arbitrary: n rule: less_induct)
  case less
  have split: "(n - 1) AND n = of_bool (odd (n - 1) \<and> odd n) + 2 * (((n - 1) div 2) AND (n div 2))" by (rule and_rec)
  show ?case
  proof (cases "odd n")
    case True
    then have "(n - 1) div 2 = n div 2" by presburger
    then have "n div 2 = 0" using split less.prems(2) by simp
    then have "n = 1" using less.prems(1) by presburger
    then show ?thesis by (intro exI [of _ 0]) simp
  next
    case False
    then have half: "(n - 1) div 2 = n div 2 - 1" "n = 2 * (n div 2)" by presburger+
    then have "(n div 2 - 1) AND (n div 2) = 0" using split less.prems(2) False by simp
    moreover have "0 < n div 2" "nat (n div 2) < nat n" using less.prems(1) half(2) by linarith+
    ultimately obtain k where "n div 2 = 2 ^ k" using less.hyps by blast
    then show ?thesis using half(2) by (intro exI [of _ "Suc k"]) simp
  qed
qed

lemma page_size_exponent:
  assumes "(n - 1) AND n = (0 :: int)" "512 \<le> n" "n \<le> 65536"
  shows "\<exists>k \<in> {9 .. 16}. n = 2 ^ k"
proof -
  obtain k where k: "n = 2 ^ k" using power_of_two_if_and [OF _ assms(1)] assms(2) by auto
  have "(2 :: int) ^ 9 \<le> 2 ^ k" "(2 :: int) ^ k \<le> 2 ^ 16" using assms(2,3) k by simp_all
  then have "9 \<le> k" "k \<le> 16" using power_le_imp_le_exp [of "2 :: int" 9 k] power_le_imp_le_exp [of "2 :: int" k 16] by auto
  then show ?thesis using k by auto
qed

section \<open>The header\<close>

text \<open>The pager that a header describes: the members that were not set by the caller are filled in.\<close>

definition header_pager :: "byte list \<Rightarrow> pager \<Rightarrow> pager" where
  "header_pager bs p =
     (let p = (if pg_pageSize p = - 1 then pager_setPageSize (be_sint (take 2 (drop 16 bs))) p else p);
          p = (if pg_reservedBytes p = - 1 then p\<lparr>pg_reservedBytes := be_sint (take 1 (drop 20 bs))\<rparr> else p)
      in if pg_schemaCookie p = - 1 then p\<lparr>pg_schemaCookie := be_sint (take 4 (drop 40 bs))\<rparr> else p)"

lemma ds_seek_view:
  assumes "0 \<le> x" "x \<le> int (ud_size (ds_data r))" "view_ok (ds_data r)"
  shows "ds_data (ds_seek x r) = ds_data r" "ds_cursor (ds_seek x r) = x"
  using assms view_ok_size_bound [OF assms(3)] by (simp_all add: ds_seek_def iter_seek_def to_off_small)

lemma advance_at:
  assumes "get (ds_data r) (ds_cursor r) = Some v"
  shows "advance_read get n r = Some (v, ds_advance n r)" "ds_data (ds_advance n r) = ds_data r"
  using assms by (simp_all add: advance_read_def ds_advance_def ds_seek_def)

lemma pager_parseHeader_spec:
  assumes "view_ok d" "ud_size d = 100"
  shows "pager_parseHeader d p =
    Some (if take 16 (ud_bytes d) = sqlite_magic then (True, header_pager (ud_bytes d) p)
          else (False, pager_markAsError Code_NotADatabase p))"
proof -
  have read: "ud_read d 0 16 = Some (take 16 (ud_bytes d))" using assms by (simp add: ud_read_in_view)
  have two: "get2BytesInt d 16 = Some (be_sint (take 2 (drop 16 (ud_bytes d))))"
    using get2BytesInt_be [of d 16] assms by (simp add: bytes_at_def)
  have one: "get1ByteInt d 20 = Some (be_sint (take 1 (drop 20 (ud_bytes d))))"
    using get1ByteInt_be [of d 20] assms by (simp add: bytes_at_def)
  have four: "get4BytesInt d 40 = Some (be_sint (take 4 (drop 40 (ud_bytes d))))"
    using get4BytesInt_be [of d 40] assms by (simp add: bytes_at_def)
  have seek: "ds_data (ds_seek x r) = d" "ds_cursor (ds_seek x r) = x" if "ds_data r = d" "0 \<le> x" "x \<le> 100" for x r
    using ds_seek_view [of x r] assms that by simp_all
  have init: "ds_data (ds_init d) = d" by (simp add: ds_init_def)
  show ?thesis
    by (simp add: pager_parseHeader_def read header_pager_def Let_def advance2BytesInt_def advance1ByteInt_def advance4BytesInt_def
        advance_at seek init two one four del: take_Suc)
qed

section \<open>Fresh handles\<close>

text \<open>A handle that was not opened yet, on a file that exists.\<close>

definition fh_fresh :: "fh \<Rightarrow> bool" where
  "fh_fresh h \<longleftrightarrow> fh_sound (h\<lparr>fh_mode := Mode_ReadOnly\<rparr>) \<and> fh_fileSize h < 0"

lemma fh_fresh_size:
  assumes "fh_fresh h"
  shows "getFileSize (h\<lparr>fh_error := e\<rparr>) = (Some (length (fh_content h)), h\<lparr>fh_error := e, fh_tick := Suc (fh_tick h)\<rparr>)"
  using assms by (auto simp: fh_fresh_def fh_sound_def getFileSize_def Let_def fh_content_def)

lemma fh_fresh_tick: "fh_fresh h \<Longrightarrow> fh_fresh (h\<lparr>fh_error := e, fh_tick := t\<rparr>)"
  by (auto simp: fh_fresh_def fh_sound_def fh_content_def)

lemma fh_fresh_open:
  assumes "fh_fresh h" "fh_open Mode_ReadOnly h = (True, h')"
  shows "fh_sound h'" "fh_content h' = fh_content h" "fh_sys h' = fh_sys h"
  using assms by (auto simp: fh_fresh_def fh_open_def Let_def fh_sound_def fh_content_def split: if_splits)

lemma setPageSize_sound:
  assumes "fh_sound h"
  obtains h1 where "pf_setPageSize n (pf_init h) = pf_setPageSize n (pf_init h1)" "fh_ok h1" "fh_content h1 = fh_content h"
    "fh_sys h1 = fh_sys h"
  using assms
proof (rule fh_sound_size)
  fix h1
  assume h1: "fh_size h = (int (length (fh_content h)), h1)" "fh_ok h1" "fh_content h1 = fh_content h" "fh_sys h1 = fh_sys h" "fh_size h1 = fh_size h"
  show thesis by (rule that [OF _ h1(2-4)]) (simp add: pf_setPageSize_def pf_init_def Let_def h1)
qed

lemma powers_dvd: "(2 :: nat) ^ k dvd max (2 ^ k) (2 ^ j)"
  by (cases "k \<le> j") (simp_all add: le_imp_power_dvd max_def)

lemma setPageSize_cache:
  assumes "fh_ok h" "sys_pagesize (fh_sys h) = 2 ^ j" "2 ^ j \<le> (65536 :: nat)" "n = 2 ^ k" "n \<le> 65536"
  shows "pf_cachePageSize (pf_setPageSize n (pf_init h)) = max n (2 ^ j)"
    and "rg_set (pbc_range (lru_sub (pf_cache (pf_setPageSize n (pf_init h))))) =
      {0 ..< int (length (fh_content h) div max n (2 ^ j) + (if length (fh_content h) mod max n (2 ^ j) > 0 then 1 else 0))}"
proof -
  have c: "max (2 ^ j) (if n mod 2 ^ j > 0 then to_size (int n - int (n mod 2 ^ j) + int (2 ^ j)) else n) = max n (2 ^ j)"
  proof (cases "j \<le> k")
    case True
    then have "n mod 2 ^ j = 0" using assms(4) by (simp add: le_imp_power_dvd)
    then show ?thesis by (simp add: max.commute)
  next
    case False
    then have "n < 2 ^ j" using assms(4) by simp
    moreover have "(2 :: int) ^ j \<le> 65536" using assms(3) by (metis of_nat_le_iff of_nat_numeral of_nat_power)
    ultimately show ?thesis by (simp add: to_size_nonneg size_max_def nat_power_eq)
  qed
  have size: "to_size (int (length (fh_content h))) = length (fh_content h)"
    using assms(1) by (simp add: fh_ok_def to_size_nonneg size_max_def)
  show "pf_cachePageSize (pf_setPageSize n (pf_init h)) = max n (2 ^ j)"
    unfolding pf_setPageSize_def pf_init_def Let_def pbf.simps assms(2) c by (simp add: fh_size_ok [OF assms(1)])
  show "rg_set (pbc_range (lru_sub (pf_cache (pf_setPageSize n (pf_init h))))) =
      {0 ..< int (length (fh_content h) div max n (2 ^ j) + (if length (fh_content h) mod max n (2 ^ j) > 0 then 1 else 0))}"
    unfolding pf_setPageSize_def pf_init_def Let_def pbf.simps assms(2) c fh_size_ok [OF assms(1)]
    by (simp add: size pbc_setRange_def pbc_init_def lru_init_def rg_set_def)
qed

lemma narrow32_le: "0 \<le> x \<Longrightarrow> narrow32 x \<le> x"
  unfolding narrow32_def by (simp add: sint_sbintrunc' signed_take_bit_int_less_eq_self_iff)

section \<open>A fresh log\<close>

definition wal_fresh :: "wal \<Rightarrow> bool" where
  "wal_fresh w \<longleftrightarrow> wal_state w = State_None \<and> \<not> wal_shmLegality w \<and> wal_pages2Frames w = [] \<and> 0 \<le> wal_nbackfill w \<and>
     fh_fresh (wal_file w) \<and> (wal_bytes w = [] \<or> 32 \<le> length (wal_bytes w) \<and> length (wal_bytes w) \<le> 2147483647)"

text \<open>The frames that the index names lie in the log.\<close>

definition log_fits :: "nat \<Rightarrow> wal \<Rightarrow> bool" where
  "log_fits ps w \<longleftrightarrow> (\<forall>n k. map_of (wal_pages2Frames w) n = Some k \<longrightarrow>
     fh_sound (wal_file w) \<and> 1 \<le> k \<and> 32 + (24 + ps) * nat k \<le> length (wal_bytes w) \<and> 32 + (24 + ps) * nat k \<le> 2147483647)"

lemma indexed_fits:
  assumes "indexed m0 d0 b w" "0 \<le> wal_nbackfill w" "wal_pageSize w = int ps" "fh_sound (wal_file w)" "length (wal_bytes w) \<le> 2147483647"
  shows "log_fits ps w"
  unfolding log_fits_def
proof (intro allI impI)
  fix n k
  assume k: "map_of (wal_pages2Frames w) n = Some k"
  let ?a = "wal_nbackfill w + 1" and ?m = "commit_point (wal_bytes w) ps (wal_nbackfill w + 1) b"
  have ix: "wal_nbackfill w \<le> b" "wal_nbackfill w < b \<longrightarrow> 32 + (24 + ps) * nat b \<le> length (wal_bytes w)"
    "map_of (wal_pages2Frames w) n = page_frame (wal_bytes w) ps ?a ?m n"
    using assms(1,3) by (auto simp: indexed_def Let_def)
  have "?a \<le> k" "k \<le> ?m" using k ix(3) by (auto simp: page_frame_def latest_iff)
  moreover have "?m \<le> b" using commit_point_bounds [of ?a b] ix(1) by auto
  ultimately have kb: "?a \<le> k" "k \<le> b" by auto
  then have "(24 + ps) * nat k \<le> (24 + ps) * nat b" by (intro mult_le_mono2) simp
  then have "32 + (24 + ps) * nat k \<le> length (wal_bytes w)" using ix(2) kb by linarith
  then show "fh_sound (wal_file w) \<and> 1 \<le> k \<and> 32 + (24 + ps) * nat k \<le> length (wal_bytes w) \<and> 32 + (24 + ps) * nat k \<le> 2147483647"
    using assms(2,4,5) kb(1) by auto
qed

lemma wal_doInitialize_fresh:
  assumes "wal_fresh w" "wal_pageSize w = int ps" "8 dvd ps" "0 < ps" "ps \<le> 65536"
  shows "\<exists>ok w'. wal_doInitialize (w\<lparr>wal_state := x\<rparr>) = Some (ok, w') \<and> wal_pageSize w' = wal_pageSize w \<and> (ok \<longrightarrow> log_fits ps w')"
proof -
  let ?h = "(wal_file w)\<lparr>fh_error := wal_thread w, fh_tick := Suc (fh_tick (wal_file w))\<rparr>"
  have fresh: "fh_fresh (wal_file w)" "\<not> wal_shmLegality w" "wal_pages2Frames w = []" using assms(1) by (simp_all add: wal_fresh_def)
  note size = fh_fresh_size [OF fresh(1), of "wal_thread w"]
  show ?thesis
  proof (cases "wal_bytes w = []")
    case True
    then show ?thesis using fresh(2,3) size
      by (intro exI [of _ True]) (simp add: wal_doInitialize_def wal_bytes_def Let_def log_fits_def)
  next
    case False
    obtain ok h where op: "fh_open Mode_ReadOnly ?h = (ok, h)" by force
    show ?thesis
    proof (cases ok)
      case False
      then show ?thesis using fresh(2) size op \<open>wal_bytes w \<noteq> []\<close>
        by (intro exI [of _ False]) (simp add: wal_doInitialize_def wal_bytes_def Let_def wal_assign_def)
    next
      case True
      let ?w = "w\<lparr>wal_state := x, wal_fileSize := length (wal_bytes w), wal_file := h, wal_thread := fh_error h\<rparr>"
      have h: "fh_sound h" "fh_content h = wal_bytes w"
        using fh_fresh_open [OF fh_fresh_tick [OF fresh(1)], of "Suc (fh_tick (wal_file w))" "wal_thread w" h] op True
        by (simp_all add: wal_bytes_def fh_content_def)
      then have wb: "wal_bytes ?w = wal_bytes w" by (simp add: wal_bytes_def)
      have eq: "wal_doInitialize (w\<lparr>wal_state := x\<rparr>) = wal_header 2147483647 ?w"
        using fresh(2) size op True \<open>wal_bytes w \<noteq> []\<close> by (simp add: wal_doInitialize_def wal_bytes_def Let_def)
      obtain ok' w' where w': "wal_header 2147483647 ?w = Some (ok', w')" "wal_kept ?w w'"
        "ok' \<longrightarrow> 0 \<le> wal_nbackfill w' \<and> (\<exists>b. indexed (wal_maxFrame ?w) (wal_disposedPages ?w) b w')"
        using wal_header_total [of ?w ps 2147483647] assms h wb \<open>wal_bytes w \<noteq> []\<close> by (auto simp: wal_fresh_def)
      have "length (wal_bytes w') \<le> 2147483647" using w'(2) wb assms(1) by (auto simp: wal_kept_def wal_fresh_def)
      then have "ok' \<longrightarrow> log_fits ps w'" using w'(2,3) assms(2) by (auto simp: wal_kept_def intro: indexed_fits)
      then show ?thesis using w'(1,2) by (auto simp: eq wal_kept_def)
    qed
  qed
qed

lemma wal_initialize_fresh:
  assumes "wal_fresh w" "wal_pageSize w = int ps" "8 dvd ps" "0 < ps" "ps \<le> 65536"
  obtains ok w' where "wal_initialize w = Some (ok, w')" "wal_pageSize w' = wal_pageSize w" "ok \<longrightarrow> log_fits ps w'"
proof -
  obtain ok w' where w': "wal_doInitialize (w\<lparr>wal_state := State_Initializing\<rparr>) = Some (ok, w')" "wal_pageSize w' = wal_pageSize w" "ok \<longrightarrow> log_fits ps w'"
    using wal_doInitialize_fresh [OF assms] by blast
  have st: "wal_state w = State_None" using assms(1) by (simp add: wal_fresh_def)
  show ?thesis
    using wal_once.initialize_first [where doInitialize = wal_doInitialize, OF st w'(1)] w'(2,3)
    by (intro that [of ok "w'\<lparr>wal_state := if ok then State_Initialized else State_Failed\<rparr>"])
      (simp_all add: wal_initialize_def log_fits_def wal_bytes_def)
qed

section \<open>A fresh pager\<close>

definition pager_started :: "fh \<Rightarrow> pager \<Rightarrow> bool" where
  "pager_started h p \<longleftrightarrow> pg_file p = pf_init h \<and> pg_codec p = None \<and> (\<exists>j. sys_pagesize (fh_sys h) = 2 ^ j) \<and>
     sys_pagesize (fh_sys h) \<le> 65536 \<and> pg_cache p = pgc_init 16777216 \<and>
     wal_pages2Frames (pg_wal p) = [] \<and> (pg_skipWal p \<or> wal_fresh (pg_wal p)) \<and> wal_pageSize (pg_wal p) = pg_pageSize p"

lemma files_ok_started:
  assumes "pager_started h p" "fh_sound h" "k \<le> 16" "9 \<le> k" "pg_pageSize p = 2 ^ k"
    "2 ^ k dvd length (fh_content h)" "numberOfPages \<le> int (length (fh_content h) div 2 ^ k)"
    "wal_pageSize w = pg_pageSize p" "log_fits (2 ^ k) w"
  shows "pager_ok (p\<lparr>pg_file := pf_setPageSize (2 ^ k) (pg_file p), pg_numberOfPages := numberOfPages, pg_wal := w\<rparr>)"
    "cache_bounded (p\<lparr>pg_file := pf_setPageSize (2 ^ k) (pg_file p), pg_numberOfPages := numberOfPages, pg_wal := w\<rparr>)"
proof -
  let ?p = "p\<lparr>pg_file := pf_setPageSize (2 ^ k) (pg_file p), pg_numberOfPages := numberOfPages, pg_wal := w\<rparr>"
  obtain h1 where h1: "pf_setPageSize (2 ^ k) (pf_init h) = pf_setPageSize (2 ^ k) (pf_init h1)" "fh_ok h1" "fh_content h1 = fh_content h"
    "fh_sys h1 = fh_sys h"
    using assms(2) by (rule setPageSize_sound)
  obtain j where j: "sys_pagesize (fh_sys h1) = 2 ^ j" "2 ^ j \<le> (65536 :: nat)" using assms(1) h1(4) by (auto simp: pager_started_def)
  have exp: "(2 :: nat) ^ k \<le> 2 ^ 16" "(2 :: nat) ^ 9 \<le> 2 ^ k" using assms(3,4) by (intro power_increasing; simp)+
  then have k: "(2 :: nat) ^ k \<le> 65536" "(512 :: nat) \<le> 2 ^ k" by simp_all
  let ?f = "pf_setPageSize (2 ^ k) (pf_init h1)" and ?c = "max (2 ^ k) (2 ^ j) :: nat" and ?C = "fh_content h"
  have pf: "pg_file ?p = ?f" using assms(1) h1(1) by (simp add: pager_started_def)
  have "sys_pagesize (fh_sys h1) \<le> 65536" "0 < (2 :: nat) ^ k" using j by simp_all
  note ok = setPageSize_ok [OF h1(2) this k(1)]
  note cache = setPageSize_cache [OF h1(2) j(1,2) refl k(1)]
  have page: "nat n * 2 ^ k \<le> length ?C" "(n - 1) * int (2 ^ k) div int ?c \<in> rg_set (pbc_range (lru_sub (pf_cache ?f)))"
    if "1 \<le> n" "n \<le> numberOfPages" for n
  proof -
    have "nat n \<le> length ?C div 2 ^ k" using that assms(7) by linarith
    then have "nat n * 2 ^ k \<le> length ?C div 2 ^ k * 2 ^ k" by (rule mult_le_mono1)
    also have "\<dots> \<le> length ?C" by simp
    finally show le: "nat n * 2 ^ k \<le> length ?C" .
    have "nat n * 2 ^ k = nat (n - 1) * 2 ^ k + 2 ^ k" using that(1) by (simp add: nat_diff_distrib algebra_simps)
    then have lt: "nat (n - 1) * 2 ^ k < length ?C" using le k(2) by linarith
    let ?q = "nat (n - 1) * 2 ^ k div ?c"
    have "?q * ?c \<le> nat (n - 1) * 2 ^ k" by simp
    then have "?q * ?c < length ?C" using lt by linarith
    then have "?q < length ?C div ?c + (if length ?C mod ?c > 0 then 1 else 0)"
    proof (cases "length ?C mod ?c > 0")
      case True
      have "?q \<le> length ?C div ?c" using lt by (intro div_le_mono) simp
      then show ?thesis using True by simp
    next
      case False
      then have "length ?C = length ?C div ?c * ?c" using div_mult_mod_eq [of "length ?C" ?c] by simp
      then have "?q * ?c < length ?C div ?c * ?c" using \<open>?q * ?c < length ?C\<close> by simp
      then show ?thesis using False by (simp only: mult_less_cancel2 if_False add_0_right)
    qed
    moreover have "(n - 1) * int (2 ^ k) div int ?c = int ?q" using that(1) by (simp add: zdiv_int)
    ultimately show "(n - 1) * int (2 ^ k) div int ?c \<in> rg_set (pbc_range (lru_sub (pf_cache ?f)))"
      unfolding cache(2) h1(3) by simp
  qed
  have live: "sys_live (fh_sys h1)" using assms(2) h1(4) by (simp add: fh_sound_def sys_live_def)
  have ps: "nat (pg_pageSize ?p) = 2 ^ k" using assms(5) by (simp add: nat_power_eq)
  have "(2 :: int) ^ k \<le> 65536" "(512 :: int) \<le> 2 ^ k"
    using k by (metis of_nat_le_iff of_nat_numeral of_nat_power)+
  then have "pager_files_ok ?p"
    unfolding pager_files_ok_def Let_def ps pf ok(2,3) cache(1) h1(3)
    using assms(1,5,8,9) ok(1) live page powers_dvd by (simp add: pager_started_def log_fits_def)
  then show "pager_ok ?p" using assms(1)
    by (simp add: pager_started_def pager_ok_def pgc_init_def lru_init_def lru_inv_def lru_abs_def)
  show "cache_bounded ?p" using assms(1)
    by (simp add: pager_started_def cache_bounded_def lru_accounted_def pgc_init_def lru_init_def lru_inv_def lru_abs_def size_max_def)
qed


lemma pager_start_ok:
  assumes "pager_started h p" "fh_sound h" "pg_fileSize p = length (fh_content h)"
  shows "\<exists>ok p'. pager_start p = Some (ok, p') \<and>
    (ok \<and> pg_pageSize p' dvd int (length (fh_content h)) \<longrightarrow> pager_ok p' \<and> cache_bounded p')"
proof (cases "((pg_pageSize p - 1) AND pg_pageSize p \<noteq> 0 \<or> pg_pageSize p < 512 \<or> pg_pageSize p > 65536) \<or>
    (pg_reservedBytes p < 0 \<or> pg_reservedBytes p > 255)")
  case True
  then show ?thesis unfolding pager_start_def by (intro exI [of _ False]) (auto split: if_split)
next
  case False
  then obtain k where k: "k \<in> {9 .. 16}" "pg_pageSize p = 2 ^ k" using page_size_exponent [of "pg_pageSize p"] by auto
  have ps: "to_size (pg_pageSize p) = 2 ^ k" using False k(2) by (simp add: to_size_nonneg size_max_def nat_power_eq)
  let ?n = "narrow32 (int (to_size (int (pg_fileSize p) + pg_pageSize p - 1) div 2 ^ k))"
  let ?p = "p\<lparr>pg_file := pf_setPageSize (2 ^ k) (pg_file p), pg_numberOfPages := ?n\<rparr>"
  have eq: "pager_start p =
      (if pg_skipWal p then Some (True, ?p)
       else do {
         (ok, p) \<leftarrow> pager_loadWal ?p;
         if ok then Some (True, p)
         else if pg_walImportance p \<or> \<not> isCorruption (wal_error (pg_wal p)) then Some (False, p)
         else Some (True, pager_disposeWal p)
       })"
    using False unfolding pager_start_def Let_def by (simp add: ps)
  have len: "length (fh_content h) < 1152921504606846976" using assms(2) by (simp add: fh_sound_def)
  have n: "?n \<le> int (length (fh_content h) div 2 ^ k)" if whole: "2 ^ k dvd length (fh_content h)"
  proof -
    obtain q where q: "length (fh_content h) = 2 ^ k * q" using whole unfolding dvd_def by blast
    have "to_size (int (pg_fileSize p) + pg_pageSize p - 1) = length (fh_content h) + (2 ^ k - 1)"
      using False len assms(3) k(2) by (simp add: to_size_nonneg size_max_def nat_diff_distrib nat_add_distrib nat_power_eq)
    moreover have "(2 ^ k * q + (2 ^ k - 1)) div 2 ^ k = q" by (subst div_mult_self4) simp_all
    ultimately have "to_size (int (pg_fileSize p) + pg_pageSize p - 1) div 2 ^ k = q" by (simp only: q)
    then show ?thesis using narrow32_le [of "int q"] by (simp add: q)
  qed
  have ready: "pager_ok (?p\<lparr>pg_wal := w\<rparr>) \<and> cache_bounded (?p\<lparr>pg_wal := w\<rparr>)"
    if "wal_pageSize w = pg_pageSize p" "log_fits (2 ^ k) w" "pg_pageSize p dvd int (length (fh_content h))" for w
  proof -
    have "2 ^ k dvd length (fh_content h)" using that(3) k(2) by (metis int_dvd_int_iff of_nat_numeral of_nat_power)
    then show ?thesis using files_ok_started [OF assms(1,2) _ _ k(2) _ n that(1,2)] k(1) by auto
  qed
  have ws: "wal_pageSize (pg_wal p) = pg_pageSize p" "log_fits (2 ^ k) (pg_wal p)" "pg_skipWal p \<or> wal_fresh (pg_wal p)"
    using assms(1) by (auto simp: pager_started_def log_fits_def)
  show ?thesis
  proof (cases "pg_skipWal p")
    case True
    then show ?thesis using ready [OF ws(1,2)] by (intro exI [of _ True] exI [of _ ?p]) (simp add: eq)
  next
    case notskip: False
    then have "wal_fresh (pg_wal p)" using ws(3) by simp
    moreover have "wal_pageSize (pg_wal p) = int (2 ^ k)" using ws(1) k(2) by simp
    moreover have "8 dvd (2 :: nat) ^ k" using k(1) le_imp_power_dvd [of 3 k "2 :: nat"] by simp
    moreover have "0 < (2 :: nat) ^ k" by simp
    moreover have "(2 :: nat) ^ k \<le> 65536" using k(1) power_increasing [of k 16 "2 :: nat"] by simp
    ultimately obtain ok w where w: "wal_initialize (pg_wal p) = Some (ok, w)" "wal_pageSize w = wal_pageSize (pg_wal p)"
      "ok \<longrightarrow> log_fits (2 ^ k) w"
      by (rule wal_initialize_fresh)
    have load: "pager_loadWal ?p = Some (ok, ?p\<lparr>pg_wal := w\<rparr>)" by (simp add: pager_loadWal_def w(1))
    show ?thesis
    proof (cases ok)
      case True
      then show ?thesis using ready [of w] w(2,3) ws(1) notskip load
        by (intro exI [of _ True] exI [of _ "?p\<lparr>pg_wal := w\<rparr>"]) (simp add: eq)
    next
      case bad: False
      show ?thesis
      proof (cases "pg_walImportance p \<or> \<not> isCorruption (wal_error w)")
        case True
        then show ?thesis using bad notskip load by (intro exI [of _ False]) (simp add: eq)
      next
        case False
        have "log_fits (2 ^ k) (wal_dispose w)" "wal_pageSize (wal_dispose w) = pg_pageSize p"
          using w(2) ws(1) by (simp_all add: log_fits_def wal_dispose_def)
        then show ?thesis using bad notskip load False ready [of "wal_dispose w"]
          by (intro exI [of _ True] exI [of _ "?p\<lparr>pg_wal := wal_dispose w\<rparr>"]) (simp add: eq pager_disposeWal_def)
      qed
    qed
  qed
qed


text \<open>The handle of the file is replaced by what a call on it left, and the error slot is shared.\<close>

lemma pager_started_step:
  assumes "pager_started h p" "fh_sys h' = fh_sys h"
  shows "pager_started h' (p\<lparr>pg_file := (pg_file p)\<lparr>pf_file := h'\<rparr>, pg_wal := (pg_wal p)\<lparr>wal_thread := e\<rparr>\<rparr>)"
  using assms by (auto simp: pager_started_def pf_init_def wal_fresh_def wal_bytes_def)

lemma pager_started_header:
  assumes "pager_started h p"
  shows "pager_started h (header_pager bs p)" "pg_fileSize (header_pager bs p) = pg_fileSize p"
    "pg_pageSize p = - 1 \<longrightarrow> pg_pageSize (header_pager bs p) = be_sint (take 2 (drop 16 bs))"
  using assms by (auto simp: pager_started_def header_pager_def Let_def pager_setPageSize_def wal_fresh_def wal_bytes_def)

lemma pager_acquireHeader_plain:
  assumes "pager_started h p" "fh_sound h" "100 \<le> length (fh_content h)"
  obtains d h' e where "pager_acquireHeader p = Some (d, p\<lparr>pg_file := (pg_file p)\<lparr>pf_file := h'\<rparr>, pg_wal := e\<rparr>)"
    "fh_sound h'" "fh_content h' = fh_content h" "fh_sys h' = fh_sys h"
    "d = ud_null \<or> view_ok d \<and> ud_size d = 100 \<and> ud_bytes d = take 100 (fh_content h) \<and> e = (pg_wal p)\<lparr>wal_thread := fh_error h'\<rparr>"
proof -
  let ?h = "h\<lparr>fh_error := wal_thread (pg_wal p)\<rparr>"
  have io: "fh_sound ?h" "0 \<le> (0 :: int)" "0 + int 100 \<le> int (length (fh_content ?h))" "0 < (100 :: nat)" using assms(2,3) by simp_all
  obtain d h' where m: "fh_map 0 100 ?h = Some (d, h')" "fh_sound h'" "fh_content h' = fh_content ?h" "fh_sys h' = fh_sys ?h"
    "d = ud_null \<or> view_ok d \<and> ud_bytes d = take 100 (drop (nat 0) (fh_content ?h))"
    using io by (rule fh_map_sound)
  let ?p = "p\<lparr>pg_file := (pg_file p)\<lparr>pf_file := h'\<rparr>, pg_wal := (pg_wal p)\<lparr>wal_thread := fh_error h'\<rparr>\<rparr>"
  have map: "pager_map 0 100 p = Some (d, ?p)" using assms(1) m(1) by (simp add: pager_map_def pager_started_def pf_init_def)
  have codec: "pg_codec p = None" using assms(1) by (simp add: pager_started_def)
  show ?thesis
  proof (cases "d = ud_null")
    case True
    then show ?thesis using m(2-4) map codec
      by (intro that [where d = ud_null and h' = h' and e = "wal_assign ((pg_wal p)\<lparr>wal_thread := fh_error h'\<rparr>)"])
        (simp_all add: pager_acquireHeader_def pager_assign_def)
  next
    case False
    with m(5) have v: "view_ok d" "ud_bytes d = take 100 (fh_content h)" by auto
    then have "ud_size d = 100" using length_ud_bytes [of d] assms(3) by simp
    then show ?thesis using m(2-4) v map codec
      by (intro that [where d = d and h' = h' and e = "(pg_wal p)\<lparr>wal_thread := fh_error h'\<rparr>"]) (simp_all add: pager_acquireHeader_def)
  qed
qed

definition pager_fresh :: "pager \<Rightarrow> bool" where
  "pager_fresh p \<longleftrightarrow> pager_started (pf_file (pg_file p)) p \<and> fh_fresh (pf_file (pg_file p)) \<and>
     100 \<le> length (fh_content (pf_file (pg_file p)))"

text \<open>The initialization up to the header: it gives up, or the sizes come from the header or from the caller.\<close>

lemma pager_doInitialize_cases:
  assumes "pager_fresh p"
  obtains (failed) p' where "pager_doInitialize p = Some (False, p')"
  | (started) h p' where "pager_doInitialize p = pager_start p'" "pager_started h p'" "fh_sound h"
      "fh_content h = fh_content (pf_file (pg_file p))" "pg_fileSize p' = length (fh_content h)"
      "pg_pageSize p = - 1 \<longrightarrow> pg_pageSize p' = be_sint (take 2 (drop 16 (fh_content h)))"
proof -
  let ?h = "pf_file (pg_file p)" and ?e = "wal_thread (pg_wal p)"
  let ?h1 = "?h\<lparr>fh_error := ?e, fh_tick := Suc (fh_tick ?h)\<rparr>" and ?C = "fh_content ?h"
  let ?p1 = "p\<lparr>pg_file := (pg_file p)\<lparr>pf_file := ?h1\<rparr>, pg_wal := (pg_wal p)\<lparr>wal_thread := ?e\<rparr>, pg_fileSize := length ?C\<rparr>"
  have fresh: "pager_started ?h p" "fh_fresh ?h" "100 \<le> length ?C" using assms by (simp_all add: pager_fresh_def)
  note size = fh_fresh_size [OF fresh(2), of ?e]
  obtain ok h2 where op: "fh_open Mode_ReadOnly ?h1 = (ok, h2)" by force
  have nonempty: "?C \<noteq> []" using fresh(3) by auto
  let ?p2 = "?p1\<lparr>pg_file := (pg_file ?p1)\<lparr>pf_file := h2\<rparr>, pg_wal := (pg_wal ?p1)\<lparr>wal_thread := fh_error h2\<rparr>\<rparr>"
  show ?thesis
  proof (cases ok)
    case False
    then show ?thesis using size op nonempty by (intro failed) (simp add: pager_doInitialize_def Let_def)
  next
    case True
    have h2: "fh_sound h2" "fh_content h2 = ?C" "fh_sys h2 = fh_sys ?h"
      using fh_fresh_open [OF fh_fresh_tick [OF fresh(2)], of "Suc (fh_tick ?h)" ?e h2] op True by (simp_all add: fh_content_def)
    have eq: "pager_doInitialize p = do {
        (ok, p) \<leftarrow> (if pg_pageSize ?p2 = - 1 \<or> pg_reservedBytes ?p2 = - 1 then do {
                      (data, p) \<leftarrow> pager_acquireHeader ?p2;
                      if ud_empty data then Some (False, p) else pager_parseHeader data p
                    } else Some (True, ?p2));
        if \<not> ok then Some (False, p) else pager_start p
      }"
      using size op True nonempty by (simp add: pager_doInitialize_def Let_def)
    have s2: "pager_started h2 ?p2" using pager_started_step [OF fresh(1) h2(3), of "fh_error h2"] by (simp add: pager_started_def)
    show ?thesis
    proof (cases "pg_pageSize p = - 1 \<or> pg_reservedBytes p = - 1")
      case False
      then show ?thesis using s2 h2 by (intro started [of ?p2 h2]) (simp_all add: eq)
    next
      case True
      have len: "100 \<le> length (fh_content h2)" using fresh(3) h2(2) by simp
      show ?thesis using s2 h2(1) len
      proof (rule pager_acquireHeader_plain)
        fix d h' e
        let ?p3 = "?p2\<lparr>pg_file := (pg_file ?p2)\<lparr>pf_file := h'\<rparr>, pg_wal := e\<rparr>"
        assume a: "pager_acquireHeader ?p2 = Some (d, ?p3)" "fh_sound h'" "fh_content h' = fh_content h2" "fh_sys h' = fh_sys h2"
          "d = ud_null \<or> view_ok d \<and> ud_size d = 100 \<and> ud_bytes d = take 100 (fh_content h2) \<and> e = (pg_wal ?p2)\<lparr>wal_thread := fh_error h'\<rparr>"
        show thesis
        proof (cases "d = ud_null \<or> take 16 (ud_bytes d) \<noteq> sqlite_magic")
          case bad: True
          then have "\<exists>p'. pager_doInitialize p = Some (False, p')"
            using True a(1,5) by (auto simp: eq pager_parseHeader_spec ud_empty_def)
          then show ?thesis using failed by blast
        next
          case False
          with a(5) have v: "view_ok d" "ud_size d = 100" "ud_bytes d = take 100 ?C" "e = (pg_wal ?p2)\<lparr>wal_thread := fh_error h'\<rparr>"
            by (auto simp: h2(2))
          have s3: "pager_started h' ?p3" using pager_started_step [OF s2 a(4), of "fh_error h'"] v(4) by simp
          note hp = pager_started_header [OF s3, of "ud_bytes d"]
          show ?thesis
            using hp a(1,2,3) v(1-3) False True
            by (intro started [of "header_pager (ud_bytes d) ?p3" h'])
              (simp_all add: eq pager_parseHeader_spec ud_empty_def h2(2) drop_take)
        qed
      qed
    qed
  qed
qed


section \<open>Properties\<close>

lemma pager_doInitialize_ok:
  assumes "pager_fresh p"
  shows "\<exists>ok p'. pager_doInitialize p = Some (ok, p') \<and>
    (ok \<and> pg_pageSize p' dvd int (length (fh_content (pf_file (pg_file p)))) \<longrightarrow> pager_ok p' \<and> cache_bounded p')"
  using assms
proof (cases rule: pager_doInitialize_cases)
  case (failed p')
  then show ?thesis by (intro exI [of _ False]) simp
next
  case (started h p')
  then show ?thesis using pager_start_ok [OF started(2,3,5)] by simp
qed

lemma pager_doInitialize_sizes:
  assumes "pager_doInitialize p = Some (True, p')"
  shows "(\<exists>k \<in> {9 .. 16}. pg_pageSize p' = 2 ^ k) \<and> pg_reservedBytes p' \<in> {0 .. 255} \<and>
    pager_getUsableSize p' \<in> {257 .. pg_pageSize p'} \<and> pf_pageSize (pg_file p') = nat (pg_pageSize p')"
proof -
  obtain q where q: "pager_start q = Some (True, p')"
    using assms by (auto simp: pager_doInitialize_def Let_def bind_Some_conv split: option.splits if_splits prod.splits)
  have "pg_pageSize p' = pg_pageSize q \<and> pg_reservedBytes p' = pg_reservedBytes q \<and> pf_pageSize (pg_file p') = to_size (pg_pageSize q) \<and>
    (pg_pageSize q - 1) AND pg_pageSize q = 0 \<and> 512 \<le> pg_pageSize q \<and> pg_pageSize q \<le> 65536 \<and> 0 \<le> pg_reservedBytes q \<and> pg_reservedBytes q \<le> 255"
    using q by (auto simp: pager_start_def Let_def pager_loadWal_def pager_disposeWal_def pf_setPageSize_def bind_Some_conv split: if_splits prod.splits)
  then show ?thesis using page_size_exponent [of "pg_pageSize q"]
    by (auto simp: pager_getUsableSize_def to_size_nonneg size_max_def)
qed


text \<open>
  C31: an initialized pager has a legal page size, a power of two from 512 to 65536, from 0 to
  255 reserved bytes, and a usable size between 257 and the page size; the file is read in
  pages of that size.
\<close>

theorem pager_initialized_sizes:
  assumes "pager_doInitialize p = Some (True, p')"
  shows "(\<exists>k \<in> {9 .. 16}. pg_pageSize p' = 2 ^ k) \<and> pg_reservedBytes p' \<in> {0 .. 255} \<and>
    pager_getUsableSize p' \<in> {257 .. pg_pageSize p'} \<and> pf_pageSize (pg_file p') = nat (pg_pageSize p')"
  by (rule pager_doInitialize_sizes [OF assms])

text \<open>
  C35: databases with pages of 32768 or 65536 bytes cannot be opened without telling the page
  size: the header is read as a signed number of two bytes, so 32768 is negative, and 65536,
  which the header stores as 1, is not recognised.  The initialization fails for every such
  file.
\<close>

theorem pager_rejects_large_pages:
  assumes "pager_fresh p" "pg_pageSize p = - 1"
    "be_uint (take 2 (drop 16 (fh_content (pf_file (pg_file p))))) = 1 \<or> 32768 \<le> be_uint (take 2 (drop 16 (fh_content (pf_file (pg_file p)))))"
  shows "\<exists>p'. pager_doInitialize p = Some (False, p')"
  using assms(1)
proof (cases rule: pager_doInitialize_cases)
  case (failed p')
  then show ?thesis by simp
next
  case (started h p')
  let ?n = "take 2 (drop 16 (fh_content h))"
  have n: "pg_pageSize p' = be_sint ?n" "length ?n = 2" using started(4,6) assms(1,2) by (auto simp: pager_fresh_def min_def)
  have "be_uint ?n < 65536" using be_uint_bounds [of ?n] n(2) by simp
  then have "be_sint ?n < 512" using assms(3) n(2) started(4) by (auto simp: be_sint_def)
  then show ?thesis using n(1) by (simp add: started(1) pager_start_def)
qed

text \<open>A database of two pages, or of one that says it has pages of 32768 bytes.\<close>

definition demo_new :: "byte list \<Rightarrow> pager" where
  "demo_new bs = pager_setWalSkipped (pager_init (fh_init demo_sys ''a.db'' (Some bs))
     (wal_init False ''a.db-wal'' (fh_init demo_sys ''a.db-wal'' None) 0 (fh_init demo_sys ''a.db-shm'' None) []) (\<lambda>_. 0))"

definition demo_two_pages :: pager where
  "demo_two_pages = pager_setReservedBytes 0 (pager_setPageSize 512 (demo_new (replicate 1024 7)))"

lemma demo_new_facts:
  "pg_file (demo_new bs) = pf_init (fh_init demo_sys ''a.db'' (Some bs))" "pg_pageSize (demo_new bs) = - 1"
  "wal_pages2Frames (pg_wal (demo_new bs)) = []" "wal_pageSize (pg_wal (demo_new bs)) = - 1" "pg_skipWal (demo_new bs)"
  "pg_cache (demo_new bs) = pgc_init 16777216" "pg_codec (demo_new bs) = None"
  by (simp_all add: demo_new_def pager_setWalSkipped_def pager_init_def wal_init_def)

lemma demo_fresh_file: "length bs < 1152921504606846976 \<Longrightarrow> fh_fresh (fh_init demo_sys path (Some bs))"
  using demo_progresses by (simp add: fh_fresh_def fh_sound_def fh_init_def fh_content_def malloc_ok_def) (simp add: demo_sys_def)

lemma demo_pagesize: "sys_pagesize demo_sys = 4096" "\<exists>j. 4096 = (2 :: nat) ^ j"
  by (simp add: demo_sys_def) (rule exI [of _ 12], simp)

lemma demo_new_fresh: "100 \<le> length bs \<Longrightarrow> length bs < 1152921504606846976 \<Longrightarrow> pager_fresh (demo_new bs)"
  using demo_fresh_file [of bs "''a.db''"] demo_pagesize
  by (simp add: pager_fresh_def pager_started_def demo_new_facts pf_init_def) (simp add: fh_init_def fh_content_def eq_commute)

lemma demo_two_pages_fresh: "pager_fresh demo_two_pages"
  using demo_new_fresh [of "replicate 1024 7"]
  by (simp add: demo_two_pages_def pager_fresh_def pager_started_def pager_setReservedBytes_def pager_setPageSize_def demo_new_facts pf_init_def)

lemma demo_two_pages_opened:
  "\<exists>p'. pager_doInitialize demo_two_pages = Some (True, p') \<and> pg_pageSize p' = 512 \<and> pg_reservedBytes p' = 0"
  by (simp add: demo_two_pages_def pager_setReservedBytes_def pager_setPageSize_def pager_doInitialize_def demo_new_facts
      pf_init_def fh_init_def getFileSize_def fh_open_def demo_sys_def fh_content_def pager_start_def Let_def)


theorem pager_initialized_sizes_witness:
  "\<exists>p'. pager_doInitialize demo_two_pages = Some (True, p') \<and> pager_getUsableSize p' = 512 \<and> pf_pageSize (pg_file p') = 512"
  using demo_two_pages_opened pager_initialized_sizes [of demo_two_pages] by (auto simp: pager_getUsableSize_def)

theorem pager_rejects_large_pages_witness:
  "\<exists>p'. pager_doInitialize (demo_new (sqlite_magic @ [0x80, 0] @ replicate 1000 0)) = Some (False, p')"
proof (rule pager_rejects_large_pages)
  have magic: "length sqlite_magic = 16" by (simp add: sqlite_magic_def)
  show "pager_fresh (demo_new (sqlite_magic @ [0x80, 0] @ replicate 1000 0))" by (rule demo_new_fresh) (simp_all add: magic)
  show "pg_pageSize (demo_new (sqlite_magic @ [0x80, 0] @ replicate 1000 0)) = - 1" by (rule demo_new_facts)
  show "be_uint (take 2 (drop 16 (fh_content (pf_file (pg_file (demo_new (sqlite_magic @ [0x80, 0] @ replicate 1000 0))))))) = 1 \<or>
      32768 \<le> be_uint (take 2 (drop 16 (fh_content (pf_file (pg_file (demo_new (sqlite_magic @ [0x80, 0] @ replicate 1000 0)))))))"
    by (simp add: magic demo_new_facts pf_init_def fh_init_def fh_content_def be_uint_def)
qed

section \<open>One-time initialization\<close>

interpretation pager_once: initializeable pg_state "\<lambda>x p. p\<lparr>pg_state := x\<rparr>"
  by unfold_locales simp

end
