(* ===== verification/WCDB_Backup.thy ===== *)
theory WCDB_Backup
  imports WCDB_Crawl WCDB_Incremental WCDB_PagerInit
begin

unbundle bit_operations_syntax

text \<open>
  \<open>src/src/common/repair/mechanic/Backup.cpp\<close>: the backup of a database.  A full backup walks
  over the schema table, and from its rows over every table; it notes the number and the hash
  of every leaf.

  The state of the object is the part \<open>cr_user\<close> of the state of the walk.  The delegates for the
  locks and for the cipher are interfaces: what their calls return is given by functions of the
  number of the call, and the calls for the lock are kept in a list.  \<open>m_verifyingPagenos\<close> only
  ever points to the pages of \<open>m_incrementalMaterial\<close>.  A list that was moved from is empty, and the names
  of tables are keys without a 0 in them.  \<open>crc32\<close>, the filter and the time are parameters.
\<close>

section \<open>Strings\<close>

definition bytes_of :: "string \<Rightarrow> byte list" where
  "bytes_of = map of_char"

text \<open>\<open>strncmp\<close> and \<open>strncasecmp\<close> as tests for equality: they stop at the first 0.\<close>

definition c_prefix :: "nat \<Rightarrow> byte list \<Rightarrow> byte list" where
  "c_prefix n bs = takeWhile (\<lambda>b. b \<noteq> 0) (take n bs)"

definition c_lower :: "byte \<Rightarrow> byte" where
  "c_lower b = (if 65 \<le> b \<and> b \<le> 90 then b + 32 else b)"

definition caseInsensitiveEqual :: "byte list \<Rightarrow> byte list \<Rightarrow> bool" where
  "caseInsensitiveEqual a b \<longleftrightarrow> length a = length b \<and> map c_lower (c_prefix (length a) a) = map c_lower (c_prefix (length a) b)"

definition hasPrefix :: "byte list \<Rightarrow> byte list \<Rightarrow> bool" where
  "hasPrefix bs target \<longleftrightarrow> length bs \<ge> length target \<and> c_prefix (length target) bs = c_prefix (length target) target"

definition sv_equal :: "byte list \<Rightarrow> byte list \<Rightarrow> bool" where
  "sv_equal a b \<longleftrightarrow> length a = length b \<and> c_prefix (length a) a = c_prefix (length a) b"

definition sequenceTable :: "byte list" where
  "sequenceTable = bytes_of ''sqlite_sequence''"

definition isReservedTableName :: "byte list \<Rightarrow> bool" where
  "isReservedTableName tableName = hasPrefix tableName (bytes_of ''sqlite_'')"

section \<open>State\<close>

record backup_delegate =
  bd_acquire :: "nat \<Rightarrow> bool"
  bd_release :: "nat \<Rightarrow> bool"
  bd_suspended :: "nat \<Rightarrow> bool"
  bd_error :: "nat \<Rightarrow> werror"

record cipher_delegate =
  cd_isCipherDB :: bool
  cd_pageSize :: nat
  cd_context :: "page_codec option"
  cd_error :: werror

record backup_env =
  be_exclusive :: backup_delegate
  be_cipher :: cipher_delegate
  be_filter :: "(byte list \<Rightarrow> bool) option"
  be_crc :: crc

datatype lock_call = Lock_Acquire bool | Lock_Release bool

record backup =
  bk_material :: material
  bk_incrementalMaterial :: "imaterial option"
  bk_verifying :: bool
  bk_verifiedPagenos :: "mpage list"
  bk_unchangedLeaves :: "bool list"
  bk_unchangedLeavesCount :: int
  bk_error :: werror
  bk_tick :: nat
  bk_locks :: "lock_call list"

definition backup_init :: backup where
  "backup_init = \<lparr>bk_material = material_init, bk_incrementalMaterial = None, bk_verifying = False, bk_verifiedPagenos = [],
     bk_unchangedLeaves = [], bk_unchangedLeavesCount = 0, bk_error = error_init, bk_tick = 0, bk_locks = []\<rparr>"

definition backup_new :: "(nat \<Rightarrow> bool) \<Rightarrow> pager \<Rightarrow> backup crawl" where
  "backup_new signal pager = \<lparr>cr_pager = pager, cr_objects = (\<lambda>_. crawlable_init), cr_signal = signal, cr_readings = 0, cr_user = backup_init\<rparr>"

definition bk_modify :: "(backup \<Rightarrow> backup) \<Rightarrow> backup crawl \<Rightarrow> backup crawl" where
  "bk_modify f s = s\<lparr>cr_user := f (cr_user s)\<rparr>"

definition bk_verifyingPagenos :: "backup \<Rightarrow> ipage list option" where
  "bk_verifyingPagenos b = (if bk_verifying b then map_option im_pages (bk_incrementalMaterial b) else None)"

definition bk_erase :: "u32 \<Rightarrow> backup \<Rightarrow> backup" where
  "bk_erase number b = b\<lparr>bk_incrementalMaterial :=
     map_option (\<lambda>m. m\<lparr>im_pages := filter (\<lambda>pg. ip_number pg \<noteq> number) (im_pages m)\<rparr>) (bk_incrementalMaterial b)\<rparr>"

definition bk_filter :: "backup_env \<Rightarrow> byte list \<Rightarrow> bool" where
  "bk_filter e tableName = (case be_filter e of None \<Rightarrow> True | Some f \<Rightarrow> f tableName)"

section \<open>The walk over a table\<close>

definition backup_onCrawlerError :: "backup crawl \<Rightarrow> backup crawl" where
  "backup_onCrawlerError s = crawl_suspend Crawl_This (crawl_suspend Crawl_Master s)"

definition backup_canCrawlPage :: "int \<Rightarrow> backup crawl \<Rightarrow> (bool \<times> backup crawl) option" where
  "backup_canCrawlPage n s =
     (let pageno = word_of_int n :: u32; b = cr_user s; i = unat pageno - 1
      in case bk_verifyingPagenos b of
           None \<Rightarrow> Some (True, s)
         | Some pages \<Rightarrow>
             if unat pageno > length (bk_unchangedLeaves b) \<or> pageno = 0
             then Some (False, crawl_markAsCorrupted backup_onCrawlerError (sint pageno) ''Page %u exceeds max pageno %u'' s)
             else if bk_unchangedLeaves b ! i
             then Some (False, bk_modify (\<lambda>b. b\<lparr>bk_unchangedLeaves := (bk_unchangedLeaves b)[i := False]\<rparr>) s)
             else case find (\<lambda>pg. ip_number pg = pageno) pages of
                    None \<Rightarrow> Some (True, s)
                  | Some pg \<Rightarrow>
                      let isLeaf = (ip_type pg = 13);
                          s = (if isLeaf
                               then bk_modify (\<lambda>b. b\<lparr>bk_verifiedPagenos := bk_verifiedPagenos b @ [\<lparr>mp_number = ip_number pg, mp_hash = ip_hash pg\<rparr>]\<rparr>) s
                               else s)
                      in Some (\<not> isLeaf, bk_modify (bk_erase pageno) s))"

definition backup_willCrawlPage :: "backup_env \<Rightarrow> page \<Rightarrow> int \<Rightarrow> backup crawl \<Rightarrow> (bool \<times> backup crawl) option" where
  "backup_willCrawlPage e page height s =
     (let suspended = bd_suspended (be_exclusive e) (bk_tick (cr_user s)); s = bk_modify (\<lambda>b. b\<lparr>bk_tick := Suc (bk_tick b)\<rparr>) s
      in if suspended then Some (False, crawl_markAsInterrupted backup_onCrawlerError s)
         else case pa_type page of
                InteriorTable \<Rightarrow> Some (True, s)
              | LeafTable \<Rightarrow> do {
                  hash \<leftarrow> ud_hash (be_crc e) (pa_data page);
                  Some (False, bk_modify (\<lambda>b. b\<lparr>bk_verifiedPagenos := bk_verifiedPagenos b @ [\<lparr>mp_number = word_of_int (pa_number page), mp_hash = hash\<rparr>]\<rparr>) s)
                }
              | InteriorIndex \<Rightarrow> Some (False, s)
              | LeafIndex \<Rightarrow> Some (False, s)
              | _ \<Rightarrow> Some (False, crawl_markAsCorrupted backup_onCrawlerError (pa_number page) ''Unexpected page type: %d'' s))"

definition backup_crawler :: "backup_env \<Rightarrow> backup crawler" where
  "backup_crawler e =
     \<lparr>v_this = Crawl_This, v_canCrawlPage = backup_canCrawlPage, v_willCrawlPage = backup_willCrawlPage e,
      v_onCellCrawled = (\<lambda>_ s. Some s), v_onCrawlerError = backup_onCrawlerError\<rparr>"

section \<open>The material\<close>

text \<open>The content of a table, by its place in the list; a new one comes last.\<close>

definition getOrCreateContent :: "byte list \<Rightarrow> material \<Rightarrow> nat \<times> material" where
  "getOrCreateContent tableName m =
     (case mt_contentsMap m tableName of
        Some i \<Rightarrow> (i, m)
      | None \<Rightarrow> (let i = length (mt_contentsList m)
                 in (i, m\<lparr>mt_contentsList := mt_contentsList m @ [content_init\<lparr>ct_tableName := tableName\<rparr>],
                         mt_contentsMap := (mt_contentsMap m)(tableName \<mapsto> i)\<rparr>)))"

definition bk_content :: "nat \<Rightarrow> (content \<Rightarrow> content) \<Rightarrow> backup \<Rightarrow> backup" where
  "bk_content i f b = b\<lparr>bk_material := (bk_material b)\<lparr>mt_contentsList :=
     (mt_contentsList (bk_material b))[i := f (mt_contentsList (bk_material b) ! i)]\<rparr>\<rparr>"

definition onSequenceCellCrawled :: "backup_env \<Rightarrow> sequence_item \<Rightarrow> backup \<Rightarrow> backup" where
  "onSequenceCellCrawled e sequence b =
     (if sq_seq sequence = 0 then b
      else if \<not> isReservedTableName (sq_name sequence) \<and> bk_filter e (sq_name sequence)
      then let (i, m) = getOrCreateContent (sq_name sequence) (bk_material b)
           in bk_content i (\<lambda>c. c\<lparr>ct_sequence := (if sint (ct_sequence c) < sq_seq sequence then word_of_int (sq_seq sequence) else ct_sequence c)\<rparr>)
                (b\<lparr>bk_material := m\<rparr>)
      else b)"

text \<open>\<open>onSequencePageCrawled\<close> and \<open>onMasterPageCrawled\<close>.\<close>

definition backup_onPageCrawled :: "page \<Rightarrow> backup crawl \<Rightarrow> backup crawl option" where
  "backup_onPageCrawled page s =
     Some (if bk_verifyingPagenos (cr_user s) \<noteq> None then bk_modify (bk_erase (word_of_int (pa_number page))) s else s)"

definition backup_sequence :: "backup_env \<Rightarrow> backup sequence_delegate" where
  "backup_sequence e =
     \<lparr>d_onSequencePageCrawled = backup_onPageCrawled,
      d_onSequenceCellCrawled = (\<lambda>_ sequence s. Some (bk_modify (onSequenceCellCrawled e sequence) s)),
      d_onSequenceCrawlerError = backup_onCrawlerError\<rparr>"

text \<open>A \<open>SequenceCrawler\<close> of its own for every walk over the sequence table.\<close>

definition backup_sequence_work :: "backup_env \<Rightarrow> int \<Rightarrow> backup crawl \<Rightarrow> (bool \<times> backup crawl) option" where
  "backup_sequence_work e rootpage s =
     sequence_work (backup_sequence e) rootpage (crawl_update Crawl_Sequence (\<lambda>_. crawlable_init) s)"

text \<open>The row of a table: its pages are walked over unless the backup is incremental.\<close>

definition backup_table :: "backup_env \<Rightarrow> master_item \<Rightarrow> nat \<Rightarrow> backup crawl \<Rightarrow> backup crawl option" where
  "backup_table e master i s =
     (let s = bk_modify (bk_content i (\<lambda>c. c\<lparr>ct_sql := ma_sql master, ct_associatedSQLs := [], ct_rootPage := word_of_int (ma_rootpage master), ct_checked := True\<rparr>)) s
      in if bk_incrementalMaterial (cr_user s) \<noteq> None then Some s
         else do {
           (ok, s) \<leftarrow> crawl (backup_crawler e) (ma_rootpage master) s;
           if \<not> ok then Some s
           else Some (bk_modify (\<lambda>b. (bk_content i (\<lambda>c. c\<lparr>ct_verifiedPagenos := bk_verifiedPagenos b\<rparr>) b)\<lparr>bk_verifiedPagenos := []\<rparr>) s)
         })"

definition backup_onMasterCellCrawled :: "backup_env \<Rightarrow> cell \<Rightarrow> master_item \<Rightarrow> backup crawl \<Rightarrow> backup crawl option" where
  "backup_onMasterCellCrawled e ce master s =
     (if sv_equal (ma_name master) sequenceTable
      then map_option snd (backup_sequence_work e (ma_rootpage master)
        (bk_modify (\<lambda>b. b\<lparr>bk_material := (bk_material b)\<lparr>mt_info := (mt_info (bk_material b))\<lparr>mi_seqTableRootPage := word_of_int (ma_rootpage master)\<rparr>\<rparr>\<rparr>) s))
      else if bk_filter e (ma_tableName master) \<and> \<not> isReservedTableName (ma_tableName master) \<and> \<not> isReservedTableName (ma_name master)
      then let (i, m) = getOrCreateContent (ma_tableName master) (bk_material (cr_user s));
               s = bk_modify (\<lambda>b. b\<lparr>bk_material := m\<rparr>) s
           in if caseInsensitiveEqual (ma_type master) (bytes_of ''table'') \<and> caseInsensitiveEqual (ma_name master) (ma_tableName master)
              then backup_table e master i s
              else Some (if ma_sql master \<noteq> [] then bk_modify (bk_content i (\<lambda>c. c\<lparr>ct_associatedSQLs := ct_associatedSQLs c @ [ma_sql master]\<rparr>)) s else s)
      else Some s)"

definition backup_master :: "backup_env \<Rightarrow> backup master_delegate" where
  "backup_master e =
     \<lparr>d_onMasterPageCrawled = backup_onPageCrawled, d_onMasterCellCrawled = backup_onMasterCellCrawled e,
      d_onMasterCrawlerError = backup_onCrawlerError\<rparr>"

section \<open>The full backup\<close>

definition backup_setError :: "werror \<Rightarrow> backup crawl \<Rightarrow> backup crawl" where
  "backup_setError er = bk_modify (\<lambda>b. b\<lparr>bk_error := er\<rparr>)"

definition backup_pagerError :: "backup crawl \<Rightarrow> backup crawl" where
  "backup_pagerError s = backup_setError (wal_error (pg_wal (cr_pager s))) s"

definition backup_acquire :: "backup_env \<Rightarrow> backup crawl \<Rightarrow> bool \<times> backup crawl" where
  "backup_acquire e s =
     (let ok = bd_acquire (be_exclusive e) (bk_tick (cr_user s))
      in (ok, bk_modify (\<lambda>b. b\<lparr>bk_tick := Suc (bk_tick b), bk_locks := bk_locks b @ [Lock_Acquire ok]\<rparr>) s))"

definition backup_release :: "backup_env \<Rightarrow> backup crawl \<Rightarrow> bool \<times> backup crawl" where
  "backup_release e s =
     (let ok = bd_release (be_exclusive e) (bk_tick (cr_user s))
      in (ok, bk_modify (\<lambda>b. b\<lparr>bk_tick := Suc (bk_tick b), bk_locks := bk_locks b @ [Lock_Release ok]\<rparr>) s))"

definition backup_lockError :: "backup_env \<Rightarrow> backup crawl \<Rightarrow> backup crawl" where
  "backup_lockError e s = backup_setError (bd_error (be_exclusive e) (bk_tick (cr_user s))) s"

text \<open>The page size and the codec of an encrypted database; false when there is no page size.\<close>

definition backup_cipher :: "backup_env \<Rightarrow> backup crawl \<Rightarrow> bool \<times> backup crawl" where
  "backup_cipher e s =
     (let c = be_cipher e
      in if \<not> cd_isCipherDB c then (True, s)
         else if cd_pageSize c = 0 then (False, backup_setError (cd_error c) s)
         else (True, s\<lparr>cr_pager := pager_setPageSize (narrow32 (int (cd_pageSize c))) (pager_setCipherContext (cd_context c) (cr_pager s))\<rparr>))"

definition backup_pager :: "backup crawl \<Rightarrow> (bool \<times> backup crawl) option" where
  "backup_pager s = do {
     (ok, p) \<leftarrow> pager_initialize (cr_pager s);
     let s = s\<lparr>cr_pager := p\<rparr>;
     Some (ok, if ok then s else backup_pagerError s)
   }"

definition backup_seqRoot :: "backup \<Rightarrow> backup" where
  "backup_seqRoot b =
     (if mi_seqTableRootPage (mt_info (bk_material b)) = UnknownPageNo
      then b\<lparr>bk_material := (bk_material b)\<lparr>mt_info := (mt_info (bk_material b))\<lparr>mi_seqTableRootPage := 0\<rparr>\<rparr>\<rparr> else b)"

definition backup_schema :: "backup_env \<Rightarrow> backup crawl \<Rightarrow> (bool \<times> backup crawl) option" where
  "backup_schema e s = do {
     (succeed, s) \<leftarrow> master_work (backup_master e) s;
     Some (succeed, bk_modify backup_seqRoot (if succeed then s else backup_pagerError s))
   }"

text \<open>The body of the loop that runs once: whether the lock is held at its end, and the result.\<close>

definition fullBackup_body :: "backup_env \<Rightarrow> backup crawl \<Rightarrow> (bool \<times> bool \<times> backup crawl) option" where
  "fullBackup_body e s =
     (let (ok, s) = backup_acquire e s
      in if \<not> ok then Some (False, False, backup_lockError e s)
         else let (ok, s) = backup_cipher e s
         in if \<not> ok then Some (True, False, s)
         else do {
           (ok, s) \<leftarrow> backup_pager s;
           if \<not> ok then Some (True, False, s)
           else let (ok, s) = backup_release e s
           in if \<not> ok then Some (True, False, backup_lockError e s)
           else do {
             (succeed, s) \<leftarrow> backup_schema e s;
             Some (False, succeed, s)
           }
         })"

definition fullBackup :: "backup_env \<Rightarrow> backup crawl \<Rightarrow> (bool \<times> backup crawl) option" where
  "fullBackup e s = do {
     (exclusive, succeed, s) \<leftarrow> fullBackup_body e s;
     if exclusive
     then let (ok, s) = backup_release e s
          in if \<not> ok \<and> succeed then Some (False, backup_lockError e s) else Some (succeed, s)
     else Some (succeed, s)
   }"

definition updateMaterial :: "u32 \<Rightarrow> u32 \<Rightarrow> bool \<Rightarrow> backup crawl \<Rightarrow> backup crawl" where
  "updateMaterial now garbage isIncremental s =
     (let b = cr_user s; p = cr_pager s; w = pg_wal p; m = bk_material b;
          (info, im) = (case bk_incrementalMaterial b of
             Some im \<Rightarrow> ((mt_info m)\<lparr>mi_walSalt := ii_currentWalSalt (im_info im), mi_nBackFill := ii_currentNBackFill (im_info im)\<rparr>, im)
           | None \<Rightarrow>
               let info = (mt_info m)\<lparr>mi_walSalt := wal_salt w, mi_nBackFill := word_of_int (wal_nbackfill w)\<rparr>
               in (info, (imaterial_init garbage)\<lparr>im_info := (iinfo_init garbage)\<lparr>ii_lastCheckPointFinish := (mi_nBackFill info = word_of_int (wal_maxFrame w))\<rparr>\<rparr>));
          info = info\<lparr>mi_pageSize := word_of_int (pg_pageSize p), mi_reservedBytes := word_of_int (pg_reservedBytes p)\<rparr>;
          ii = (im_info im)\<lparr>ii_lastWalSalt := mi_walSalt info, ii_lastNBackFill := mi_nBackFill info,
                 ii_currentWalSalt := mi_walSalt info, ii_currentNBackFill := mi_nBackFill info,
                 ii_lastSchemaCookie := word_of_int (pg_schemaCookie p), ii_lastBackupTime := now,
                 ii_incrementalBackupTimes := (if isIncremental then ii_incrementalBackupTimes (im_info im) + 1 else 0)\<rparr>
      in bk_modify (\<lambda>b. b\<lparr>bk_material := m\<lparr>mt_info := info\<rparr>, bk_incrementalMaterial := Some (im\<lparr>im_info := ii, im_pages := []\<rparr>)\<rparr>) s)"

section \<open>The walk returns\<close>

text \<open>The map of the material leads from every name to the content of that name.\<close>

definition material_indexed :: "material \<Rightarrow> bool" where
  "material_indexed m \<longleftrightarrow> (\<forall>k i. mt_contentsMap m k = Some i \<longrightarrow> i < length (mt_contentsList m) \<and> ct_tableName (mt_contentsList m ! i) = k) \<and>
     (\<forall>i < length (mt_contentsList m). mt_contentsMap m (ct_tableName (mt_contentsList m ! i)) = Some i)"

definition backup_sound :: "lock_call list \<Rightarrow> backup \<Rightarrow> bool" where
  "backup_sound L b \<longleftrightarrow> material_indexed (bk_material b) \<and> bk_locks b = L"

lemma bk_modify_simps [simp]: "cr_pager (bk_modify f s) = cr_pager s" "cr_user (bk_modify f s) = f (cr_user s)"
  "cr_objects (bk_modify f s) = cr_objects s" "cr_signal (bk_modify f s) = cr_signal s"
  by (simp_all add: bk_modify_def)

lemma modify_keeps: "crawl_at p J s \<Longrightarrow> J (f (cr_user s)) \<Longrightarrow> kept J s (bk_modify f s)"
  by (simp add: kept_def crawl_at_def)

lemma failure_keeps: "crawl_at p J s \<Longrightarrow> kept J s (backup_onCrawlerError s)"
  by (simp add: backup_onCrawlerError_def kept_def crawl_at_def)

lemma backup_marks_keep:
  assumes "crawl_at p J s"
  shows "kept J s (crawl_markAsCorrupted backup_onCrawlerError n m s)" "kept J s (crawl_markAsInterrupted backup_onCrawlerError s)"
  using mark_keeps [where f = backup_onCrawlerError, OF failure_keeps [where p = p] assms] by simp_all

lemma bk_erase_sound [simp]: "backup_sound L (bk_erase n b) = backup_sound L b"
  by (simp add: backup_sound_def bk_erase_def)

lemma getOrCreateContent_indexed:
  assumes "material_indexed m" "getOrCreateContent k m = (i, m')"
  shows "material_indexed m' \<and> i < length (mt_contentsList m') \<and> ct_tableName (mt_contentsList m' ! i) = k"
proof (cases "mt_contentsMap m k")
  case None
  then have "k \<noteq> ct_tableName (mt_contentsList m ! j)" if "j < length (mt_contentsList m)" for j using assms(1) that by (auto simp: material_indexed_def)
  then show ?thesis using assms None by (auto simp: getOrCreateContent_def material_indexed_def nth_append less_Suc_eq Let_def split: if_splits)
next
  case (Some j)
  then show ?thesis using assms by (auto simp: getOrCreateContent_def material_indexed_def)
qed

lemma bk_content_sound:
  assumes "backup_sound L b" "\<And>c. ct_tableName (f c) = ct_tableName c"
  shows "backup_sound L (bk_content i f b)"
proof -
  let ?xs = "mt_contentsList (bk_material b)"
  have "ct_tableName (?xs[i := f (?xs ! i)] ! j) = ct_tableName (?xs ! j)" for j
    using assms(2) by (cases "i < length ?xs") (auto simp: nth_list_update list_update_beyond)
  then show ?thesis using assms(1) by (simp add: backup_sound_def bk_content_def material_indexed_def)
qed

lemma page_hash:
  assumes "page_ready n bs page"
  shows "ud_hash crc (pa_data page) = Some (crc bs)"
proof -
  have v: "view_ok (pa_data page)" "ud_bytes (pa_data page) = bs" "length bs \<le> 65536" using assms by (simp_all add: page_ready_def)
  have "ud_size (pa_data page) = length bs" using length_ud_bytes [OF v(1)] v(2) by simp
  then show ?thesis using ud_read_in_view [OF v(1), of 0 "length bs"] v(2,3) by (simp add: ud_hash_def)
qed

interpretation backup_self: crawl_hooks "backup_crawler e" "\<lambda>n bs. type_in n bs = InteriorTable" "\<lambda>_. True" UNIV p "backup_sound L" for e p L
proof unfold_locales
  fix s :: "backup crawl" and n assume s: "crawl_at p (backup_sound L) s"
  have j: "backup_sound L (cr_user s)" using s by (simp add: crawl_at_def)
  show "kept (backup_sound L) s (v_onCrawlerError (backup_crawler e) s)" using failure_keeps [OF s] by (simp add: backup_crawler_def)
  show "\<exists>b s'. v_canCrawlPage (backup_crawler e) n s = Some (b, s') \<and> kept (backup_sound L) s s'"
  proof (cases "bk_verifyingPagenos (cr_user s)")
    case None
    then show ?thesis using kept_refl [OF s] by (auto simp: backup_crawler_def backup_canCrawlPage_def)
  next
    case (Some pages)
    let ?n = "word_of_int n :: u32"
    have keep: "kept (backup_sound L) s (bk_modify f s)" if "\<And>b. backup_sound L b \<Longrightarrow> backup_sound L (f b)" for f
      using modify_keeps [OF s, of f] that j by simp
    have 1: "kept (backup_sound L) s (bk_modify (\<lambda>b. b\<lparr>bk_unchangedLeaves := g b\<rparr>) s)" "kept (backup_sound L) s (bk_modify (bk_erase ?n) s)"
      "kept (backup_sound L) s (bk_modify (bk_erase ?n) (bk_modify (\<lambda>b. b\<lparr>bk_verifiedPagenos := v b\<rparr>) s))" for g v
      using keep [of "\<lambda>b. b\<lparr>bk_unchangedLeaves := g b\<rparr>"] keep [of "bk_erase ?n"] keep [of "bk_erase ?n \<circ> (\<lambda>b. b\<lparr>bk_verifiedPagenos := v b\<rparr>)"]
      by (simp_all add: backup_sound_def bk_modify_def bk_erase_def)
    show ?thesis
      using Some 1 kept_refl [OF s] backup_marks_keep(1) [OF s]
      by (cases "find (\<lambda>pg. ip_number pg = ?n) pages") (auto simp: backup_crawler_def backup_canCrawlPage_def Let_def)
  qed
next
  fix s :: "backup crawl" and n bs count page h assume s: "crawl_at p (backup_sound L) s" and page: "page_shows n bs count page"
  have j: "backup_sound L (cr_user s)" using s by (simp add: crawl_at_def)
  let ?t = "bk_modify (\<lambda>b. b\<lparr>bk_tick := Suc (bk_tick b)\<rparr>) s"
  have k: "kept (backup_sound L) s ?t" using modify_keeps [OF s] j by (simp add: backup_sound_def)
  note t = crawl_at_kept [OF s k]
  have h: "ud_hash (be_crc e) (pa_data page) = Some (be_crc e bs)" using page_hash page unfolding page_shows_def by blast
  have type: "pa_type page = type_in n bs" using page by (simp add: page_shows_def)
  note mark = kept_trans [OF k backup_marks_keep(1) [OF t]] kept_trans [OF k backup_marks_keep(2) [OF t]]
  have leaf: "kept (backup_sound L) s (bk_modify (\<lambda>b. b\<lparr>bk_verifiedPagenos := g b\<rparr>) ?t)" for g
    using kept_trans [OF k modify_keeps [OF t]] j by (simp add: backup_sound_def)
  show "\<exists>b s'. v_willCrawlPage (backup_crawler e) page h s = Some (b, s') \<and> kept (backup_sound L) s s' \<and> (b \<longrightarrow> type_in n bs = InteriorTable)"
    using k mark leaf h type
    by (cases "pa_type page") (auto simp: backup_crawler_def backup_willCrawlPage_def Let_def)
qed (auto simp: backup_crawler_def intro: kept_refl)

lemma onSequenceCellCrawled_sound: "backup_sound L b \<Longrightarrow> backup_sound L (onSequenceCellCrawled e q b)"
proof -
  assume b: "backup_sound L b"
  obtain i m where g: "getOrCreateContent (sq_name q) (bk_material b) = (i, m)" by fastforce
  have "backup_sound L (b\<lparr>bk_material := m\<rparr>)" using getOrCreateContent_indexed [OF _ g] b by (simp add: backup_sound_def)
  then show ?thesis using b g bk_content_sound by (simp add: onSequenceCellCrawled_def)
qed

lemma onPageCrawled_keeps:
  assumes "crawl_at p (backup_sound L) s"
  shows "\<exists>s'. backup_onPageCrawled page s = Some s' \<and> kept (backup_sound L) s s'"
  using modify_keeps [OF assms, of "bk_erase (word_of_int (pa_number page))"] kept_refl [OF assms] assms
  by (auto simp: backup_onPageCrawled_def crawl_at_def)

interpretation backup_seq: sequence_client "backup_sequence e" p "backup_sound L" for e p L
proof unfold_locales
  fix s :: "backup crawl" and page ce q assume s: "crawl_at p (backup_sound L) s"
  show "\<exists>s'. d_onSequencePageCrawled (backup_sequence e) page s = Some s' \<and> kept (backup_sound L) s s'"
    using onPageCrawled_keeps [OF s] by (simp add: backup_sequence_def)
  show "\<exists>s'. d_onSequenceCellCrawled (backup_sequence e) ce q s = Some s' \<and> kept (backup_sound L) s s'"
    using modify_keeps [OF s, of "onSequenceCellCrawled e q"] onSequenceCellCrawled_sound s by (simp add: backup_sequence_def crawl_at_def)
  show "kept (backup_sound L) s (d_onSequenceCrawlerError (backup_sequence e) s)" using failure_keeps [OF s] by (simp add: backup_sequence_def)
qed

text \<open>
  What the database must satisfy: the roots that the rows of the schema table name lie in trees
  with safe pointers, that of the sequence table in one with safe rows.
\<close>

definition backup_accepts :: "int set \<Rightarrow> int set \<Rightarrow> master_item \<Rightarrow> bool" where
  "backup_accepts Q T master \<longleftrightarrow>
     (if sv_equal (ma_name master) sequenceTable then ma_rootpage master \<in> Q
      else caseInsensitiveEqual (ma_type master) (bytes_of ''table'') \<longrightarrow> ma_rootpage master \<in> T)"

definition tables_safe :: "int set \<Rightarrow> pager \<Rightarrow> bool" where
  "tables_safe = tree_safe (\<lambda>n bs. type_in n bs = InteriorTable) (\<lambda>_. True)"

definition sequence_safe :: "int set \<Rightarrow> pager \<Rightarrow> bool" where
  "sequence_safe = tree_safe (\<lambda>_ _. True) (\<lambda>ce. 2 \<le> length (ce_columns ce))"

definition schema_safe :: "int set \<Rightarrow> int set \<Rightarrow> int set \<Rightarrow> pager \<Rightarrow> bool" where
  "schema_safe Q T = tree_safe (\<lambda>_ _. True) (master_row (backup_accepts Q T))"

lemma backup_table_returns:
  assumes "crawl_at p (backup_sound L) s" "sizes_ok p" "tables_safe T p" "ma_rootpage master \<in> T"
  shows "\<exists>s'. backup_table e master i s = Some s' \<and> kept (backup_sound L) s s'"
proof -
  let ?f = "bk_content i (\<lambda>c. c\<lparr>ct_sql := ma_sql master, ct_associatedSQLs := [], ct_rootPage := word_of_int (ma_rootpage master), ct_checked := True\<rparr>)"
  let ?t = "bk_modify ?f s"
  have k: "kept (backup_sound L) s ?t" using modify_keeps [OF assms(1), of ?f] bk_content_sound assms(1) by (simp add: crawl_at_def)
  note t = crawl_at_kept [OF assms(1) k]
  obtain ok u where u: "crawl (backup_crawler e) (ma_rootpage master) ?t = Some (ok, u)" "kept (backup_sound L) ?t u"
    using backup_self.crawl_returns [OF t assms(2) assms(3) [unfolded tables_safe_def] assms(4) subset_UNIV] by blast
  note cu = crawl_at_kept [OF t u(2)] and su = kept_trans [OF k u(2)]
  let ?g = "\<lambda>b. (bk_content i (\<lambda>c. c\<lparr>ct_verifiedPagenos := bk_verifiedPagenos b\<rparr>) b)\<lparr>bk_verifiedPagenos := []\<rparr>"
  have "backup_sound L (?g b)" if "backup_sound L b" for b
    using bk_content_sound [OF that, of "\<lambda>c. c\<lparr>ct_verifiedPagenos := bk_verifiedPagenos b\<rparr>" i] by (simp add: backup_sound_def)
  then have "kept (backup_sound L) u (bk_modify ?g u)" using modify_keeps [OF cu, of ?g] cu by (simp add: crawl_at_def)
  then have "kept (backup_sound L) s (bk_modify ?g u)" using kept_trans [OF su] by blast
  then show ?thesis using k su u(1) by (cases ok) (simp_all add: backup_table_def Let_def)
qed

lemma backup_master_client:
  assumes "sizes_ok p" "sequence_safe Q p" "tables_safe T p"
  shows "master_client (backup_master e) (backup_accepts Q T) p (backup_sound L)"
proof unfold_locales
  fix s :: "backup crawl" and page assume s: "crawl_at p (backup_sound L) s"
  show "\<exists>s'. d_onMasterPageCrawled (backup_master e) page s = Some s' \<and> kept (backup_sound L) s s'"
    using onPageCrawled_keeps [OF s] by (simp add: backup_master_def)
  show "kept (backup_sound L) s (d_onMasterCrawlerError (backup_master e) s)" using failure_keeps [OF s] by (simp add: backup_master_def)
next
  fix s :: "backup crawl" and master ce assume s: "crawl_at p (backup_sound L) s" and a: "backup_accepts Q T master"
  have j: "backup_sound L (cr_user s)" using s by (simp add: crawl_at_def)
  show "\<exists>s'. d_onMasterCellCrawled (backup_master e) ce master s = Some s' \<and> kept (backup_sound L) s s'"
  proof (cases "sv_equal (ma_name master) sequenceTable")
    case True
    let ?f = "\<lambda>b. b\<lparr>bk_material := (bk_material b)\<lparr>mt_info := (mt_info (bk_material b))\<lparr>mi_seqTableRootPage := word_of_int (ma_rootpage master)\<rparr>\<rparr>\<rparr>"
    let ?t = "crawl_update Crawl_Sequence (\<lambda>_. crawlable_init) (bk_modify ?f s)"
    have k: "kept (backup_sound L) s ?t" using s by (simp add: kept_def crawl_at_def backup_sound_def material_indexed_def)
    have "ma_rootpage master \<in> Q" using a True by (simp add: backup_accepts_def)
    then obtain ok u where "sequence_work (backup_sequence e) (ma_rootpage master) ?t = Some (ok, u)" "kept (backup_sound L) ?t u"
      using backup_seq.sequence_work_returns [OF crawl_at_kept [OF s k] assms(1) assms(2) [unfolded sequence_safe_def]] by blast
    then show ?thesis using True kept_trans [OF k]
      by (auto simp: backup_master_def backup_onMasterCellCrawled_def backup_sequence_work_def)
  next
    case False
    obtain i m where g: "getOrCreateContent (ma_tableName master) (bk_material (cr_user s)) = (i, m)" by fastforce
    let ?t = "bk_modify (\<lambda>b. b\<lparr>bk_material := m\<rparr>) s"
    have k: "kept (backup_sound L) s ?t"
      using modify_keeps [OF s, of "\<lambda>b. b\<lparr>bk_material := m\<rparr>"] getOrCreateContent_indexed [OF _ g] j by (simp add: backup_sound_def)
    note t = crawl_at_kept [OF s k]
    let ?h = "bk_content i (\<lambda>c. c\<lparr>ct_associatedSQLs := ct_associatedSQLs c @ [ma_sql master]\<rparr>)"
    have h: "kept (backup_sound L) s (bk_modify ?h ?t)"
      using kept_trans [OF k modify_keeps [OF t, of ?h]] bk_content_sound t by (simp add: crawl_at_def)
    have table: "\<exists>s'. backup_table e master i ?t = Some s' \<and> kept (backup_sound L) s s'" if "caseInsensitiveEqual (ma_type master) (bytes_of ''table'')"
    proof -
      have "ma_rootpage master \<in> T" using a False that by (simp add: backup_accepts_def)
      from backup_table_returns [OF t assms(1,3) this] show ?thesis using kept_trans [OF k] by blast
    qed
    show ?thesis using False g k h table kept_refl [OF s] by (auto simp: backup_master_def backup_onMasterCellCrawled_def Let_def)
  qed
qed

lemma backup_schema_returns:
  assumes "crawl_at p (backup_sound L) s" "sizes_ok p" "schema_safe Q T R p" "sequence_safe Q p" "tables_safe T p" "1 \<in> R"
  shows "\<exists>ok s'. backup_schema e s = Some (ok, s') \<and> kept (backup_sound L) s s'"
proof -
  note client = backup_master_client [OF assms(2,4,5), of e L]
  obtain ok u where u: "master_work (backup_master e) s = Some (ok, u)" "kept (backup_sound L) s u"
    using master_client.master_work_returns [OF client assms(1,2) assms(3) [unfolded schema_safe_def] assms(6)] by blast
  let ?v = "if ok then u else backup_pagerError u"
  have "kept (backup_sound L) s (bk_modify backup_seqRoot ?v)"
    using u(2) by (auto simp: kept_def backup_pagerError_def backup_setError_def backup_seqRoot_def backup_sound_def material_indexed_def)
  then show ?thesis using u(1) by (simp add: backup_schema_def)
qed

section \<open>The full backup\<close>

lemma pager_state_ok: "pager_ok (p\<lparr>pg_state := x\<rparr>) = pager_ok p"
proof -
  have same: "pager_same p (p\<lparr>pg_state := x\<rparr>)" by (simp add: pager_same_def)
  have "pager_files_ok (p\<lparr>pg_state := x\<rparr>) = pager_files_ok p" by (simp add: pager_files_ok_def Let_def)
  then show ?thesis by (simp add: pager_ok_def pager_same_db(3) [OF same])
qed

lemma pager_start_cache: "pager_start p = Some (ok, p') \<Longrightarrow> pg_cache p' = pg_cache p"
  unfolding pager_start_def Let_def pager_loadWal_def pager_disposeWal_def pager_markAsCorrupted_def pager_setError_def
  by (auto simp: bind_Some_conv split: if_splits)

lemma pager_opened_cache:
  assumes "pager_fresh p" "pager_doInitialize p = Some (True, p')"
  shows "pg_cache p' = pgc_init 16777216"
  using assms(1)
proof (cases rule: pager_doInitialize_cases)
  case (failed q)
  then show ?thesis using assms(2) by simp
next
  case (started h q)
  then show ?thesis using assms(2) pager_start_cache [of q True p'] by (simp add: pager_started_def)
qed

lemma pager_initialize_fresh:
  assumes "pager_fresh p" "pg_state p = State_None"
  obtains ok p' where "pager_initialize p = Some (ok, p')" "ok \<longrightarrow> sizes_ok p'"
    "ok \<and> pg_pageSize p' dvd int (length (fh_content (pf_file (pg_file p)))) \<longrightarrow> pager_ok p'" "ok \<longrightarrow> pg_cache p' = pgc_init 16777216"
proof -
  let ?p = "p\<lparr>pg_state := State_Initializing\<rparr>"
  have fresh: "pager_fresh ?p" using assms(1) by (simp add: pager_fresh_def pager_started_def)
  obtain ok q where q: "pager_doInitialize ?p = Some (ok, q)"
    "ok \<and> pg_pageSize q dvd int (length (fh_content (pf_file (pg_file ?p)))) \<longrightarrow> pager_ok q"
    using pager_doInitialize_ok [OF fresh] by blast
  have sizes: "ok \<longrightarrow> sizes_ok (q\<lparr>pg_state := x\<rparr>)" for x
    using pager_doInitialize_sizes [of ?p q] q(1) by (auto simp: sizes_ok_def pager_getUsableSize_def)
  show ?thesis
  proof (rule that)
    show "pager_initialize p = Some (ok, q\<lparr>pg_state := if ok then State_Initialized else State_Failed\<rparr>)"
      using pager_once.initialize_first [of p pager_doInitialize, OF assms(2) q(1)] by (simp add: pager_initialize_def)
  qed (use q sizes pager_state_ok pager_opened_cache [OF fresh, of q] in auto)
qed

text \<open>What the pages of the database must satisfy once it is opened.\<close>

definition backup_ready :: "int set \<Rightarrow> int set \<Rightarrow> int set \<Rightarrow> pager \<Rightarrow> bool" where
  "backup_ready Q T R p \<longleftrightarrow> pager_fresh p \<and> pg_state p = State_None \<and> 1 \<in> R \<and>
     (\<forall>p'. pager_initialize p = Some (True, p') \<longrightarrow>
        pg_pageSize p' dvd int (length (fh_content (pf_file (pg_file p)))) \<and> schema_safe Q T R p' \<and> sequence_safe Q p' \<and> tables_safe T p')"

text \<open>The calls for the lock: it is taken once, and released until a release succeeds, at most twice.\<close>

definition lock_calls :: "bool \<Rightarrow> lock_call list \<Rightarrow> bool" where
  "lock_calls succeed calls \<longleftrightarrow> calls = [Lock_Acquire True, Lock_Release True] \<or>
     \<not> succeed \<and> (calls = [Lock_Acquire False] \<or> (\<exists>r. calls = [Lock_Acquire True, Lock_Release r] \<or> calls = [Lock_Acquire True, Lock_Release False, Lock_Release r]))"

text \<open>The end of the backup after a failure that leaves the lock.\<close>

lemma release_failure:
  assumes "material_indexed (bk_material (cr_user s))" "fullBackup_body e s' = Some (True, False, s)"
    "bk_locks (cr_user s) = L @ Lock_Acquire True # calls" "calls = [] \<or> calls = [Lock_Release False]"
  shows "\<exists>ok s''. fullBackup e s' = Some (ok, s'') \<and> material_indexed (bk_material (cr_user s'')) \<and>
    (\<exists>calls. bk_locks (cr_user s'') = L @ calls \<and> lock_calls ok calls)"
proof -
  obtain r t where t: "backup_release e s = (r, t)" by fastforce
  have t': "bk_material (cr_user t) = bk_material (cr_user s)" "bk_locks (cr_user t) = L @ Lock_Acquire True # calls @ [Lock_Release r]"
    using t assms(3) by (auto simp: backup_release_def Let_def)
  have "fullBackup e s' = Some (False, t)" using assms(2) t by (simp add: fullBackup_def)
  moreover have "lock_calls False (Lock_Acquire True # calls @ [Lock_Release r])" using assms(4) by (auto simp: lock_calls_def)
  ultimately show ?thesis using t' assms(1) by (intro exI [of _ False] exI [of _ t]) auto
qed

lemma fullBackup_cases:
  assumes "\<not> cd_isCipherDB (be_cipher e)" "backup_ready Q T R (cr_pager s)" "material_indexed (bk_material (cr_user s))"
  shows "\<exists>ok s'. fullBackup e s = Some (ok, s') \<and> material_indexed (bk_material (cr_user s')) \<and>
    (\<exists>calls. bk_locks (cr_user s') = bk_locks (cr_user s) @ calls \<and> lock_calls ok calls)"
proof -
  let ?L = "bk_locks (cr_user s)" and ?x = "be_exclusive e"
  obtain a t where t: "backup_acquire e s = (a, t)" by fastforce
  have t': "cr_pager t = cr_pager s" "bk_material (cr_user t) = bk_material (cr_user s)" "bk_locks (cr_user t) = ?L @ [Lock_Acquire a]"
    using t by (auto simp: backup_acquire_def Let_def)
  have c: "backup_cipher e t = (True, t)" using assms(1) by (simp add: backup_cipher_def)
  have ready: "pager_fresh (cr_pager s)" "pg_state (cr_pager s) = State_None" using assms(2) by (simp_all add: backup_ready_def)
  obtain ok p where p: "pager_initialize (cr_pager s) = Some (ok, p)" "ok \<longrightarrow> sizes_ok p"
    "ok \<and> pg_pageSize p dvd int (length (fh_content (pf_file (pg_file (cr_pager s))))) \<longrightarrow> pager_ok p" "ok \<longrightarrow> pg_cache p = pgc_init 16777216"
    using pager_initialize_fresh [OF ready] .
  let ?u = "t\<lparr>cr_pager := p\<rparr>"
  have pg: "backup_pager t = Some (ok, if ok then ?u else backup_pagerError ?u)" using p(1) t'(1) by (simp add: backup_pager_def Let_def)
  show ?thesis
  proof (cases "a \<and> ok")
    case False
    show ?thesis
    proof (cases a)
      case True
      let ?v = "backup_pagerError ?u"
      have "fullBackup_body e s = Some (True, False, ?v)" using t c pg True False by (simp add: fullBackup_body_def)
      moreover have "bk_material (cr_user ?v) = bk_material (cr_user s)" "bk_locks (cr_user ?v) = ?L @ [Lock_Acquire True]"
        using t' True by (simp_all add: backup_pagerError_def backup_setError_def)
      ultimately show ?thesis using release_failure [of ?v e s ?L "[]"] assms(3) by simp
    next
      case False
      have "fullBackup e s = Some (False, backup_lockError e t)" using t False by (simp add: fullBackup_def fullBackup_body_def)
      moreover have "bk_material (cr_user (backup_lockError e t)) = bk_material (cr_user s)" "bk_locks (cr_user (backup_lockError e t)) = ?L @ [Lock_Acquire False]"
        using t' False by (simp_all add: backup_lockError_def backup_setError_def)
      ultimately show ?thesis using assms(3) by (intro exI [of _ False] exI [of _ "backup_lockError e t"]) (simp add: lock_calls_def)
    qed
  next
    case True
    obtain r w where w: "backup_release e ?u = (r, w)" by fastforce
    have w': "cr_pager w = p" "bk_material (cr_user w) = bk_material (cr_user s)" "bk_locks (cr_user w) = ?L @ [Lock_Acquire True, Lock_Release r]"
      using w t' True by (auto simp: backup_release_def Let_def)
    show ?thesis
    proof (cases r)
      case r: False
      let ?v = "backup_lockError e w"
      have "fullBackup_body e s = Some (True, False, ?v)" using t c pg w True r by (simp add: fullBackup_body_def)
      moreover have "bk_material (cr_user ?v) = bk_material (cr_user s)" "bk_locks (cr_user ?v) = ?L @ Lock_Acquire True # [Lock_Release False]"
        using w' r by (simp_all add: backup_lockError_def backup_setError_def)
      ultimately show ?thesis using release_failure [of ?v e s ?L "[Lock_Release False]"] assms(3) by simp
    next
      case r: True
      have safe: "pager_ok p" "schema_safe Q T R p" "sequence_safe Q p" "tables_safe T p" "1 \<in> R" "sizes_ok p"
        using assms(2) p True by (auto simp: backup_ready_def)
      have "crawl_at p (backup_sound (bk_locks (cr_user w))) w" using safe(1) w' assms(3) by (simp add: crawl_at_def backup_sound_def)
      from backup_schema_returns [OF this safe(6,2,3,4,5), of e]
      obtain ok' z where z: "backup_schema e w = Some (ok', z)" "kept (backup_sound (bk_locks (cr_user w))) w z" by blast
      have "fullBackup e s = Some (ok', z)" using t c pg w z(1) True r by (simp add: fullBackup_def fullBackup_body_def)
      moreover have "material_indexed (bk_material (cr_user z))" "bk_locks (cr_user z) = ?L @ [Lock_Acquire True, Lock_Release True]"
        using z(2) w'(3) r by (simp_all add: kept_def backup_sound_def)
      ultimately show ?thesis by (intro exI [of _ ok'] exI [of _ z]) (simp add: lock_calls_def)
    qed
  qed
qed

section \<open>The leaves of a table\<close>

text \<open>The leaves below a page with their hashes, from left to right; an index has none.\<close>

inductive table_leaves :: "crc \<Rightarrow> pager \<Rightarrow> int \<Rightarrow> mpage list \<Rightarrow> bool" for crc p where
  leaf: "db_page p n = Some bs \<Longrightarrow> type_in n bs = LeafTable \<Longrightarrow> table_leaves crc p n [\<lparr>mp_number = word_of_int n, mp_hash = crc bs\<rparr>]"
| interior: "db_page p n = Some bs \<Longrightarrow> type_in n bs = InteriorTable \<Longrightarrow> list_all2 (table_leaves crc p) (children_in n bs) lss \<Longrightarrow>
    table_leaves crc p n (concat lss)"
| index: "db_page p n = Some bs \<Longrightarrow> type_in n bs = InteriorIndex \<or> type_in n bs = LeafIndex \<Longrightarrow> table_leaves crc p n []"

definition suspended :: "backup crawl \<Rightarrow> bool" where
  "suspended s \<longleftrightarrow> co_suspend (cr_objects s Crawl_This)"

definition full_at :: "pager \<Rightarrow> lock_call list \<Rightarrow> material \<Rightarrow> backup crawl \<Rightarrow> bool" where
  "full_at p L m s \<longleftrightarrow> crawl_at p (backup_sound L) s \<and> bk_verifyingPagenos (cr_user s) = None \<and> bk_material (cr_user s) = m"

lemma suspended_simps [simp]:
  "suspended (backup_onCrawlerError s)" "suspended (crawl_markAsCorrupted backup_onCrawlerError n m s)"
  "suspended (crawl_markAsInterrupted backup_onCrawlerError s)" "suspended (bk_modify f s) = suspended s"
  by (simp_all add: suspended_def crawl_markAsCorrupted_def crawl_markAsInterrupted_def backup_onCrawlerError_def crawl_suspend_def crawl_update_def)

lemma error_user [simp]:
  "cr_user (backup_onCrawlerError s) = cr_user s" "cr_user (crawl_markAsCorrupted backup_onCrawlerError n m s) = cr_user s"
  "cr_user (crawl_markAsInterrupted backup_onCrawlerError s) = cr_user s"
  by (simp_all add: crawl_markAsCorrupted_def crawl_markAsInterrupted_def backup_onCrawlerError_def)

lemma full_at_kept: "full_at p L m s \<Longrightarrow> kept (backup_sound L) s t \<Longrightarrow> bk_verifyingPagenos (cr_user t) = None \<Longrightarrow> bk_material (cr_user t) = m \<Longrightarrow> full_at p L m t"
  unfolding full_at_def using crawl_at_kept by blast

lemma full_suspended:
  assumes "full_at p L m s" "crawl_suspended Crawl_This s = (b, t)"
  shows "full_at p L m t" "cr_user t = cr_user s" "suspended t = b"
  using assms by (auto simp: full_at_def crawl_at_def crawl_suspended_def Let_def crawl_update_def suspended_def)

lemma backup_load_exact:
  assumes "full_at p L m s" "tables_safe T p" "n \<in> T" "crawl_load (backup_crawler e) n h s = Some (r, s')"
  shows "full_at p L m s' \<and> cr_user s' = cr_user s \<and>
    (case r of None \<Rightarrow> suspended s' | Some page \<Rightarrow> \<exists>bs. db_page p n = Some bs \<and> page_shows n bs (pager_getNumberOfPages p) page)"
proof -
  have obj: "v_this (backup_crawler e) = Crawl_This" "v_onCrawlerError (backup_crawler e) = backup_onCrawlerError" by (simp_all add: backup_crawler_def)
  obtain b t where t: "crawl_suspended Crawl_This s = (b, t)" by fastforce
  note ft = full_suspended [OF assms(1) t]
  have can: "v_canCrawlPage (backup_crawler e) n t = Some (True, t)" using ft(1) by (simp add: backup_crawler_def backup_canCrawlPage_def full_at_def)
  note s = assms(1) [unfolded full_at_def, THEN conjunct1]
  show ?thesis
  proof (cases b)
    case True
    then show ?thesis using assms(4) t ft by (auto simp: crawl_load_def obj)
  next
    case False
    obtain ok page q where q: "page_initialize (page_init n, cr_pager t) = Some (ok, page, q)"
      using assms(4) t can False by (auto simp: crawl_load_def obj bind_Some_conv)
    let ?w = "t\<lparr>cr_pager := q\<rparr>"
    have r: "(r, s') = (if \<not> ok then (None, backup_onCrawlerError ?w)
        else if h = 1 then (Some page, crawl_update Crawl_This (\<lambda>c. c\<lparr>co_isCrawlingIndexTable := isIndexPage page\<rparr>) ?w)
        else if co_isCrawlingIndexTable (cr_objects ?w Crawl_This) \<noteq> isIndexPage page
        then (None, crawl_markAsCorrupted backup_onCrawlerError n ''Unmatched page type.'' ?w) else (Some page, ?w))"
      using assms(4) t can False q by (auto simp: crawl_load_def obj Let_def split: if_splits)
    have user: "cr_user s' = cr_user s" using r ft(2) by (auto split: if_splits)
    have none: "suspended s'" if "r = None" using r that by (auto split: if_splits)
    have safe: "tree_safe (\<lambda>n bs. type_in n bs = InteriorTable) (\<lambda>_. True) T p" using assms(2) by (simp add: tables_safe_def)
    show ?thesis
    proof (rule backup_self.crawl_load_cases [OF s safe assms(3), of e h])
      fix u assume "crawl_load (backup_crawler e) n h s = Some (None, u)" "kept (backup_sound L) s u"
      then show ?thesis using assms(1,4) user none full_at_kept [OF assms(1)] by (auto simp: full_at_def)
    next
      fix pa u bs assume "crawl_load (backup_crawler e) n h s = Some (Some pa, u)" "kept (backup_sound L) s u" "db_page p n = Some bs"
        "page_shows n bs (pager_getNumberOfPages p) pa"
      then show ?thesis using assms(1,4) user full_at_kept [OF assms(1)] by (auto simp: full_at_def)
    qed
  qed
qed

lemma backup_enter_exact:
  assumes "full_at p L m s" "db_page p n = Some bs" "page_shows n bs count page" "crawl_enter (backup_crawler e) page h P s = Some (go, P', s')"
  shows "full_at p L m s' \<and> (go \<longrightarrow> type_in n bs = InteriorTable \<and> bk_verifiedPagenos (cr_user s') = bk_verifiedPagenos (cr_user s)) \<and>
    (\<not> go \<longrightarrow> suspended s' \<or> (\<exists>ls. table_leaves (be_crc e) p n ls \<and> bk_verifiedPagenos (cr_user s') = bk_verifiedPagenos (cr_user s) @ ls))"
proof -
  have page: "pa_number page = n" "pa_type page = type_in n bs" "ud_hash (be_crc e) (pa_data page) = Some (be_crc e bs)"
    using assms(3) page_hash unfolding page_shows_def by (auto simp: page_ready_def)
  note s = assms(1) [unfolded full_at_def, THEN conjunct1]
  have at: "full_at p L m s'"
  proof (rule backup_self.crawl_enter_cases [OF s UNIV_I assms(3), of e h P])
    fix u assume "crawl_enter (backup_crawler e) page h P s = Some (False, P, u)" "kept (backup_sound L) s u"
    moreover have "bk_verifyingPagenos (cr_user s') = None \<and> bk_material (cr_user s') = m"
      using assms(1,4) page by (cases "pa_type page")
        (auto simp: crawl_enter_def backup_crawler_def backup_willCrawlPage_def Let_def full_at_def bk_verifyingPagenos_def split: if_splits)
    ultimately show ?thesis using assms(4) full_at_kept [OF assms(1)] by simp
  next
    fix u assume "crawl_enter (backup_crawler e) page h P s = Some (True, insert n P, u)" "kept (backup_sound L) s u"
    moreover have "bk_verifyingPagenos (cr_user s') = None \<and> bk_material (cr_user s') = m"
      using assms(1,4) page by (cases "pa_type page")
        (auto simp: crawl_enter_def backup_crawler_def backup_willCrawlPage_def Let_def full_at_def bk_verifyingPagenos_def split: if_splits)
    ultimately show ?thesis using assms(4) full_at_kept [OF assms(1)] by simp
  qed
  show ?thesis
  proof (cases "type_in n bs")
    case LeafTable
    then show ?thesis using at assms(4) page table_leaves.leaf [OF assms(2), of "be_crc e"]
      by (auto simp: crawl_enter_def backup_crawler_def backup_willCrawlPage_def Let_def split: if_splits)
  next
    case LeafIndex
    then show ?thesis using at assms(4) page table_leaves.index [OF assms(2), of "be_crc e"]
      by (auto simp: crawl_enter_def backup_crawler_def backup_willCrawlPage_def Let_def split: if_splits)
  next
    case InteriorIndex
    then show ?thesis using at assms(4) page table_leaves.index [OF assms(2), of "be_crc e"]
      by (auto simp: crawl_enter_def backup_crawler_def backup_willCrawlPage_def Let_def split: if_splits)
  qed (use at assms(4) page in \<open>auto simp: crawl_enter_def backup_crawler_def backup_willCrawlPage_def Let_def split: if_splits\<close>)
qed

lemma suspended_each:
  assumes "suspended s" "crawl_each Crawl_This f xs P s = Some (b, P', s')"
  shows "suspended s'"
  using assms by (cases xs) (auto simp: crawl_suspended_def Let_def suspended_def crawl_update_def)

lemma crawl_each_exact:
  assumes "\<And>x P s P' s'. x \<in> set xs \<Longrightarrow> f x P s = Some (P', s') \<Longrightarrow> full_at p L m s \<Longrightarrow>
      full_at p L m s' \<and> (suspended s' \<or> (\<exists>ls. leaves x ls \<and> bk_verifiedPagenos (cr_user s') = bk_verifiedPagenos (cr_user s) @ ls))"
    "crawl_each Crawl_This f xs P s = Some (b, P', s')" "full_at p L m s"
  shows "full_at p L m s' \<and> (suspended s' \<or> (\<exists>lss. list_all2 leaves xs lss \<and> bk_verifiedPagenos (cr_user s') = bk_verifiedPagenos (cr_user s) @ concat lss))"
  using assms
proof (induction xs arbitrary: P s)
  case Nil
  then show ?case by auto
next
  case (Cons x xs)
  obtain stop t where t: "crawl_suspended Crawl_This s = (stop, t)" by fastforce
  note ft = full_suspended [OF Cons.prems(3) t]
  show ?case
  proof (cases stop)
    case True
    then show ?thesis using Cons.prems(2) t ft by auto
  next
    case False
    obtain Q u where u: "f x P t = Some (Q, u)" "crawl_each Crawl_This f xs Q u = Some (b, P', s')"
      using Cons.prems(2) t False by (auto simp: bind_Some_conv)
    have x: "full_at p L m u" "suspended u \<or> (\<exists>ls. leaves x ls \<and> bk_verifiedPagenos (cr_user u) = bk_verifiedPagenos (cr_user s) @ ls)"
      using Cons.prems(1) [OF list.set_intros(1) u(1) ft(1)] ft(2) by auto
    have rest: "full_at p L m s'" "suspended s' \<or> (\<exists>lss. list_all2 leaves xs lss \<and> bk_verifiedPagenos (cr_user s') = bk_verifiedPagenos (cr_user u) @ concat lss)"
      using Cons.IH [OF Cons.prems(1) [OF list.set_intros(2)] u(2) x(1)] by auto
    have "suspended s' \<or> (\<exists>lss. list_all2 leaves (x # xs) lss \<and> bk_verifiedPagenos (cr_user s') = bk_verifiedPagenos (cr_user s) @ concat lss)"
    proof (cases "suspended u \<or> suspended s'")
      case True
      then show ?thesis using suspended_each [OF _ u(2)] by blast
    next
      case False
      then obtain ls lss where l: "leaves x ls" "bk_verifiedPagenos (cr_user u) = bk_verifiedPagenos (cr_user s) @ ls" "list_all2 leaves xs lss"
        "bk_verifiedPagenos (cr_user s') = bk_verifiedPagenos (cr_user u) @ concat lss" using x(2) rest(2) by blast
      then show ?thesis by (intro disjI2 exI [of _ "ls # lss"]) simp
    qed
    then show ?thesis using rest(1) by blast
  qed
qed

definition leaves_noted :: "crc \<Rightarrow> pager \<Rightarrow> int \<Rightarrow> backup crawl \<Rightarrow> backup crawl \<Rightarrow> bool" where
  "leaves_noted crc p n s s' \<longleftrightarrow> suspended s' \<or> (\<exists>ls. table_leaves crc p n ls \<and> bk_verifiedPagenos (cr_user s') = bk_verifiedPagenos (cr_user s) @ ls)"

lemma safeCrawl_exact:
  assumes "tables_safe T p" "safeCrawl v n h P s = Some y"
  shows "v = backup_crawler e \<longrightarrow> full_at p L m s \<longrightarrow> n \<in> T \<longrightarrow> full_at p L m (snd y) \<and> leaves_noted (be_crc e) p n s (snd y)"
proof (rule safeCrawl.raw_induct [OF _ assms(2)], intro impI)
  fix walk and v :: "backup crawler" and n h P s y
  assume ih: "\<And>v n h P s y. walk v n h P s = Some y \<Longrightarrow>
      v = backup_crawler e \<longrightarrow> full_at p L m s \<longrightarrow> n \<in> T \<longrightarrow> full_at p L m (snd y) \<and> leaves_noted (be_crc e) p n s (snd y)"
    and body: "crawl_load v n h s \<bind> (\<lambda>(loaded, s). case loaded of None \<Rightarrow> Some (P, s)
      | Some page \<Rightarrow> crawl_enter v page h P s \<bind> (\<lambda>(go, P, s).
          if \<not> go then Some (P, s)
          else if pa_type page = InteriorTable
          then crawl_each (v_this v) (\<lambda>pageno. walk v pageno (h + 1)) (pa_subpagenos page) P s \<bind> (\<lambda>(_, P, s). Some (P, s))
          else if pa_type page = InteriorIndex
          then crawl_each (v_this v) (crawl_cell v page (\<lambda>ce P s. walk v (sint (ce_leftChild ce)) (h + 1) P s \<bind>
                 (\<lambda>(P, s). v_onCellCrawled v ce s \<bind> (\<lambda>s. Some (P, s))))) (pa_cellPointers page) P s \<bind>
               (\<lambda>(all, P, s). if \<not> all then Some (P, s) else getRightMostPage page \<bind> (\<lambda>pageno. walk v pageno (h + 1) P s))
          else if pa_type page = LeafTable \<or> pa_type page = LeafIndex
          then crawl_each (v_this v) (crawl_cell v page (\<lambda>ce P s. map_option (Pair P) (v_onCellCrawled v ce s))) (pa_cellPointers page) P s \<bind>
               (\<lambda>(_, P, s). Some (P, s))
          else Some (P, crawl_markAsCorrupted (v_onCrawlerError v) (pa_number page) ''Unexpected page type: %d'' s))) = Some y"
    and v: "v = backup_crawler e" and s: "full_at p L m s" and n: "n \<in> T"
  obtain r t where t: "crawl_load v n h s = Some (r, t)" using body by (auto simp: bind_Some_conv)
  note load = backup_load_exact [OF s assms(1) n t [unfolded v]]
  show "full_at p L m (snd y) \<and> leaves_noted (be_crc e) p n s (snd y)"
  proof (cases r)
    case None
    then show ?thesis using body t load by (auto simp: leaves_noted_def)
  next
    case (Some page)
    obtain bs where bs: "db_page p n = Some bs" "page_shows n bs (pager_getNumberOfPages p) page" using load Some by auto
    obtain go Q u where u: "crawl_enter v page h P t = Some (go, Q, u)" using body t Some by (auto simp: bind_Some_conv)
    have ft: "full_at p L m t" "bk_verifiedPagenos (cr_user t) = bk_verifiedPagenos (cr_user s)" using load by simp_all
    note enter = backup_enter_exact [OF ft(1) bs u [unfolded v]]
    show ?thesis
    proof (cases go)
      case False
      then show ?thesis using body t Some u enter ft(2) by (auto simp: leaves_noted_def)
    next
      case True
      then have type: "type_in n bs = InteriorTable" and fu: "full_at p L m u" "bk_verifiedPagenos (cr_user u) = bk_verifiedPagenos (cr_user s)"
        using enter ft(2) by simp_all
      have pt: "pa_type page = InteriorTable" using bs(2) type by (simp add: page_shows_def)
      have i: "interior_type (type_in n bs)" by (simp add: type interior_type_def)
      have sub: "pa_subpagenos page = children_in n bs" using page_shows_interior(1) [OF bs(2) i] .
      obtain b P' w where w: "crawl_each Crawl_This (\<lambda>pageno. walk v pageno (h + 1)) (children_in n bs) Q u = Some (b, P', w)" "y = (P', w)"
        using body t Some u True pt sub v by (auto simp: bind_Some_conv backup_crawler_def)
      have "c \<in> T" if "c \<in> set (children_in n bs)" for c
        using tree_safe_child [OF assms(1) [unfolded tables_safe_def] n bs i type that] by simp
      then have "full_at p L m w \<and> (suspended w \<or> (\<exists>lss. list_all2 (table_leaves (be_crc e) p) (children_in n bs) lss \<and>
          bk_verifiedPagenos (cr_user w) = bk_verifiedPagenos (cr_user u) @ concat lss))"
        by (intro crawl_each_exact [OF _ w(1) fu(1)]) (use ih v in \<open>fastforce simp: leaves_noted_def\<close>)
      then show ?thesis using w(2) fu(2) table_leaves.interior [OF bs(1) type] by (auto simp: leaves_noted_def)
    qed
  qed
qed

lemma crawl_exact:
  assumes "tables_safe T p" "full_at p L m s" "root \<in> T" "crawl (backup_crawler e) root s = Some (ok, s')"
  shows "full_at p L m s' \<and> leaves_noted (be_crc e) p root s s'"
proof -
  let ?s = "crawl_update Crawl_This (\<lambda>c. c\<lparr>co_isCrawling := True\<rparr>) s"
  obtain P t where t: "safeCrawl (backup_crawler e) root 1 {} ?s = Some (P, t)" "s' = crawl_update Crawl_This (\<lambda>c. c\<lparr>co_isCrawling := False\<rparr>) t"
    using assms(4) by (auto simp: crawl_def bind_Some_conv backup_crawler_def)
  have "full_at p L m ?s" using assms(2) by (simp add: full_at_def crawl_at_def)
  with safeCrawl_exact [OF assms(1) t(1), of e L m] assms(3) have "full_at p L m t" "leaves_noted (be_crc e) p root ?s t" by simp_all
  then show ?thesis using t(2) by (auto simp: full_at_def crawl_at_def leaves_noted_def suspended_def crawl_update_def)
qed

section \<open>Properties\<close>



text \<open>
  C5: The backup of a table returns; unless an error has suspended the walk, the content of the
  table has its root, its statement and exactly the leaves of its tree, from left to right, with the
  checksums of their pages.
\<close>

theorem backup_table_exact:
  assumes "pager_ok (cr_pager s)" "sizes_ok (cr_pager s)" "tables_safe T (cr_pager s)" "ma_rootpage master \<in> T"
    "material_indexed (bk_material (cr_user s))" "i < length (mt_contentsList (bk_material (cr_user s)))"
    "bk_incrementalMaterial (cr_user s) = None" "bk_verifiedPagenos (cr_user s) = []"
  shows "\<exists>s'. backup_table e master i s = Some s' \<and>
    (co_suspend (cr_objects s' Crawl_This) \<or> \<not> error_isOK (wal_error (pg_wal (cr_pager s'))) \<or>
     (let c = mt_contentsList (bk_material (cr_user s')) ! i
      in ct_sql c = ma_sql master \<and> ct_rootPage c = word_of_int (ma_rootpage master) \<and>
         table_leaves (be_crc e) (cr_pager s) (ma_rootpage master) (ct_verifiedPagenos c) \<and> bk_verifiedPagenos (cr_user s') = []))"
proof -
  let ?p = "cr_pager s" and ?L = "bk_locks (cr_user s)"
  let ?f = "bk_content i (\<lambda>c. c\<lparr>ct_sql := ma_sql master, ct_associatedSQLs := [], ct_rootPage := word_of_int (ma_rootpage master), ct_checked := True\<rparr>)"
  let ?t = "bk_modify ?f s"
  have s: "crawl_at ?p (backup_sound ?L) s" using assms(1,5) by (simp add: crawl_at_def backup_sound_def)
  have k: "kept (backup_sound ?L) s ?t" using modify_keeps [OF s, of ?f] bk_content_sound s by (simp add: crawl_at_def)
  note t = crawl_at_kept [OF s k]
  have inc: "bk_incrementalMaterial (cr_user ?t) = None" "bk_verifiedPagenos (cr_user ?t) = []" using assms(7,8) by (simp_all add: bk_content_def)
  have full: "full_at ?p ?L (bk_material (cr_user ?t)) ?t" using t inc(1) by (simp add: full_at_def bk_verifyingPagenos_def)
  obtain ok u where u: "crawl (backup_crawler e) (ma_rootpage master) ?t = Some (ok, u)"
    "ok = error_isOK (wal_error (pg_wal (cr_pager u)))"
    using backup_self.crawl_returns [OF t assms(2) assms(3) [unfolded tables_safe_def] assms(4) subset_UNIV, of e] by blast
  from crawl_exact [OF assms(3) full assms(4) u(1)]
  have x: "bk_material (cr_user u) = bk_material (cr_user ?t)" "leaves_noted (be_crc e) ?p (ma_rootpage master) ?t u" by (simp_all add: full_at_def)
  show ?thesis
  proof (cases "ok \<and> \<not> suspended u")
    case False
    then show ?thesis using u inc(1) by (cases ok) (auto simp: backup_table_def Let_def suspended_def)
  next
    case True
    let ?w = "bk_modify (\<lambda>b. (bk_content i (\<lambda>c. c\<lparr>ct_verifiedPagenos := bk_verifiedPagenos b\<rparr>) b)\<lparr>bk_verifiedPagenos := []\<rparr>) u"
    have "table_leaves (be_crc e) ?p (ma_rootpage master) (bk_verifiedPagenos (cr_user u))" using x(2) True inc(2) by (auto simp: leaves_noted_def)
    then have "let c = mt_contentsList (bk_material (cr_user ?w)) ! i
      in ct_sql c = ma_sql master \<and> ct_rootPage c = word_of_int (ma_rootpage master) \<and>
         table_leaves (be_crc e) ?p (ma_rootpage master) (ct_verifiedPagenos c) \<and> bk_verifiedPagenos (cr_user ?w) = []"
      using x(1) assms(6) by (simp add: bk_content_def)
    moreover have "backup_table e master i s = Some ?w" using u(1) inc(1) True by (simp add: backup_table_def Let_def)
    ultimately show ?thesis by blast
  qed
qed

text \<open>A database with an empty schema table, and one with the leaf of a table.\<close>

definition demo_env :: backup_env where
  "demo_env = \<lparr>be_exclusive = \<lparr>bd_acquire = (\<lambda>_. True), bd_release = (\<lambda>_. True), bd_suspended = (\<lambda>_. False), bd_error = (\<lambda>_. error_init)\<rparr>,
     be_cipher = \<lparr>cd_isCipherDB = False, cd_pageSize = 0, cd_context = None, cd_error = error_init\<rparr>,
     be_filter = None, be_crc = (\<lambda>bs. of_nat (length bs))\<rparr>"

definition demo_schema :: "byte list" where
  "demo_schema = replicate 100 0 @ [13] @ replicate 411 0"

definition demo_database :: pager where
  "demo_database = pager_setReservedBytes 0 (pager_setPageSize 512 (demo_new (demo_schema @ demo_leaf)))"

lemma demo_database_fresh: "pager_fresh demo_database" "pg_state demo_database = State_None" "length (demo_schema @ demo_leaf) = 1024"
proof -
  show l: "length (demo_schema @ demo_leaf) = 1024" by (simp add: demo_schema_def demo_leaf_def)
  show "pager_fresh demo_database" using demo_new_fresh [of "demo_schema @ demo_leaf"] l
    by (simp add: demo_database_def pager_fresh_def pager_started_def pager_setReservedBytes_def pager_setPageSize_def demo_new_facts pf_init_def)
  show "pg_state demo_database = State_None"
    by (simp add: demo_database_def pager_setReservedBytes_def pager_setPageSize_def demo_new_def pager_setWalSkipped_def pager_init_def)
qed

lemma setPageSize_file: "fh_file (pf_file (pf_setPageSize n f)) = fh_file (pf_file f)"
  by (auto simp: pf_setPageSize_def fh_size_def getFileSize_def Let_def split: prod.splits if_splits)

lemma demo_database_opened:
  assumes "pager_initialize demo_database = Some (True, p)"
  shows "pg_pageSize p = 512" "db_page p 1 = Some demo_schema"
proof -
  have "pg_pageSize p = 512 \<and> pg_codec p = None \<and> wal_pages2Frames (pg_wal p) = [] \<and> fh_content (pf_file (pg_file p)) = demo_schema @ demo_leaf"
    using assms demo_database_fresh(2,3)
    by (auto simp: pager_initialize_def initialize_def demo_database_def pager_setReservedBytes_def pager_setPageSize_def pager_doInitialize_def demo_new_facts
        pf_init_def fh_init_def getFileSize_def fh_open_def demo_sys_def fh_content_def pager_start_def Let_def setPageSize_file)
  moreover have "take 512 (demo_schema @ demo_leaf) = demo_schema" by (simp add: demo_schema_def)
  ultimately show "pg_pageSize p = 512" "db_page p 1 = Some demo_schema" by (simp_all add: db_page_def db_raw_def)
qed

lemma demo_database_ready: "backup_ready {} {} {1} demo_database"
proof -
  have "pointers_in 1 demo_schema = []" "type_in 1 demo_schema = LeafTable" by code_simp+
  then have "schema_safe {} {} {1} p'" if "pager_initialize demo_database = Some (True, p')" for p'
    using demo_database_opened(2) [OF that] by (simp add: schema_safe_def tree_safe_def pointers_safe_def interior_type_def)
  moreover have "length (fh_content (pf_file (pg_file demo_database))) = 1024"
    using demo_database_fresh(3) by (simp add: demo_database_def pager_setReservedBytes_def pager_setPageSize_def demo_new_facts pf_init_def fh_init_def fh_content_def)
  ultimately show ?thesis using demo_database_fresh demo_database_opened(1)
    by (simp add: backup_ready_def sequence_safe_def tables_safe_def tree_safe_def)
qed

lemma demo_new_backup:
  "\<not> cd_isCipherDB (be_cipher demo_env)" "cr_pager (backup_new x p) = p" "material_indexed (bk_material (cr_user (backup_new x p)))"
  "bk_locks (cr_user (backup_new x p)) = []"
  by (simp_all add: demo_env_def backup_new_def backup_init_def material_indexed_def material_init_def)



definition demo_table :: master_item where
  "demo_table = \<lparr>ma_type = bytes_of ''table'', ma_name = [116], ma_tableName = [116], ma_sql = [115], ma_rootpage = 2\<rparr>"

definition demo_content_state :: "backup crawl" where
  "demo_content_state = bk_modify (\<lambda>b. b\<lparr>bk_material := snd (getOrCreateContent [116] material_init)\<rparr>) (backup_new (\<lambda>_. False) (demo_tree (replicate 512 0 @ demo_leaf)))"

theorem backup_table_exact_witness:
  "\<exists>s'. backup_table demo_env demo_table 0 demo_content_state = Some s' \<and>
    (co_suspend (cr_objects s' Crawl_This) \<or> error_isOK (wal_error (pg_wal (cr_pager s'))) = False \<or>
     ct_verifiedPagenos (mt_contentsList (bk_material (cr_user s')) ! 0) = [\<lparr>mp_number = 2, mp_hash = 512\<rparr>])"
proof -
  let ?p = "demo_tree (replicate 512 0 @ demo_leaf)"
  have p: "cr_pager demo_content_state = ?p" by (simp add: demo_content_state_def backup_new_def)
  have sizes: "sizes_ok ?p" using demo_tree_ok(4) [OF demo_leaf_facts(1)] by (simp add: sizes_ok_def demo_tree_def demo_pager_simps)
  have safe: "tables_safe {2} ?p"
    using demo_leaf_facts(2) demo_leaf_parsed by (simp add: tables_safe_def tree_safe_def pointers_safe_def interior_type_def)
  have m: "material_indexed (bk_material (cr_user demo_content_state))" "0 < length (mt_contentsList (bk_material (cr_user demo_content_state)))"
    "bk_incrementalMaterial (cr_user demo_content_state) = None" "bk_verifiedPagenos (cr_user demo_content_state) = []"
    by (simp_all add: demo_content_state_def backup_new_def backup_init_def material_init_def getOrCreateContent_def material_indexed_def)
  have root: "ma_rootpage demo_table \<in> {2}" "ma_rootpage demo_table = 2" by (simp_all add: demo_table_def)
  have leaf: "ls = [\<lparr>mp_number = 2, mp_hash = 512\<rparr>]" if "table_leaves (be_crc demo_env) ?p 2 ls" for ls
    using that demo_leaf_facts(2) demo_leaf_parsed(1) by (cases rule: table_leaves.cases) (auto simp: demo_env_def demo_leaf_def)
  show ?thesis
    using backup_table_exact [where e = demo_env and s = demo_content_state, unfolded p, OF demo_tree_ok(1) [OF demo_leaf_facts(1)] sizes safe root(1) m] leaf root(2)
    by (auto simp: Let_def)
qed

end
