(* ===== verification/WCDB_Fraction.thy ===== *)
theory WCDB_Fraction
  imports Complex_Main WCDB_Prelude "HOL-Library.Signed_Division"
begin

text \<open>
  \<open>src/src/common/repair/utility/Fraction.cpp\<close>: the fractions in which a repair counts its score, and
  the doubles they are read as.

  The products and sums of \<open>int64_t\<close> are written with their wrap-around (\<open>narrow64\<close>); a division
  by 0 and the quotient of the smallest number by \<open>-1\<close>, which trap, are \<open>None\<close>.  A double is the rational number
  it stands for, and every operation on doubles rounds its exact result to 53 bits, to
  the even neighbour in a tie; the magnitudes here stay far inside of the normal range.
\<close>

section \<open>64-bit arithmetic\<close>

definition narrow64 :: "int \<Rightarrow> int" where
  "narrow64 i = sint (word_of_int i :: u64)"

definition i64_max :: int where
  "i64_max = 9223372036854775807"

definition i64_min :: int where
  "i64_min = - 9223372036854775808"

definition i64_div :: "int \<Rightarrow> int \<Rightarrow> int option" where
  "i64_div a b = (if b = 0 \<or> a = i64_min \<and> b = - 1 then None else Some (a sdiv b))"

definition i64_mod :: "int \<Rightarrow> int \<Rightarrow> int option" where
  "i64_mod a b = (if b = 0 \<or> a = i64_min \<and> b = - 1 then None else Some (a smod b))"

definition i64_abs :: "int \<Rightarrow> int option" where
  "i64_abs a = (if a = i64_min then None else Some \<bar>a\<bar>)"

section \<open>Doubles\<close>

fun bit_count :: "nat \<Rightarrow> int" where
  "bit_count n = (if n = 0 then 0 else 1 + bit_count (n div 2))"

text \<open>The exponent of a positive number: the largest power of 2 that is not above it.\<close>

definition exponent_of :: "rat \<Rightarrow> int" where
  "exponent_of x = (let (a, b) = quotient_of x; e = bit_count (nat a) - bit_count (nat b) in if 2 powi e \<le> x then e else e - 1)"

definition round_even :: "rat \<Rightarrow> int" where
  "round_even x = (let n = \<lfloor>x\<rfloor>; d = x - of_int n in if d < 1 / 2 \<or> d = 1 / 2 \<and> even n then n else n + 1)"

definition double :: "rat \<Rightarrow> rat" where
  "double x = (if x = 0 then 0 else let unit = 2 powi (exponent_of \<bar>x\<bar> - 52) in of_int (round_even (x / unit)) * unit)"

section \<open>Fractions\<close>

record fraction =
  fr_numerator :: int
  fr_denominator :: int

definition fraction_of :: "int \<Rightarrow> fraction" where
  "fraction_of value = \<lparr>fr_numerator = value, fr_denominator = 1\<rparr>"

definition fraction_make :: "int \<Rightarrow> int \<Rightarrow> fraction" where
  "fraction_make numerator denominator =
     (if denominator \<noteq> 0 then \<lparr>fr_numerator = numerator, fr_denominator = denominator\<rparr> else \<lparr>fr_numerator = 0, fr_denominator = 1\<rparr>)"

lemma smod_smaller:
  fixes a b :: int
  assumes "b \<noteq> 0"
  shows "\<bar>a smod b\<bar> < \<bar>b\<bar>"
  using assms abs_mod_less [of "\<bar>b\<bar>" "\<bar>a\<bar>"] by (simp add: signed_modulo_int_def abs_mult sgn_if)

function euclidean :: "int \<Rightarrow> int \<Rightarrow> int option" where
  "euclidean a b =
     (if b = 0 then Some (if a = 0 then 1 else a)
      else if a = i64_min \<and> b = - 1 then None
      else euclidean b (a smod b))"
  by auto
termination
  by (relation "measure (\<lambda>(a, b). nat \<bar>b\<bar>)") (use smod_smaller in auto)

declare euclidean.simps [simp del] bit_count.simps [simp del]

definition fraction_reduce :: "fraction \<Rightarrow> fraction option" where
  "fraction_reduce f = do {
     gcd \<leftarrow> euclidean (fr_numerator f) (fr_denominator f);
     if gcd > 1
     then do {
       n \<leftarrow> i64_div (fr_numerator f) gcd;
       d \<leftarrow> i64_div (fr_denominator f) gcd;
       Some \<lparr>fr_numerator = n, fr_denominator = d\<rparr>
     }
     else Some f
   }"

definition limitNumber :: "int \<Rightarrow> int \<Rightarrow> int option" where
  "limitNumber a b = do {
     a \<leftarrow> i64_abs a;
     b \<leftarrow> i64_abs b;
     max_b \<leftarrow> i64_div i64_max a;
     if max_b < b
     then do {
       q \<leftarrow> i64_div b max_b;
       r \<leftarrow> i64_mod b max_b;
       Some (q + (if r > 0 then 1 else 0))
     }
     else Some 1
   }"

definition fraction_plus :: "fraction \<Rightarrow> fraction \<Rightarrow> fraction option" where
  "fraction_plus f operand = do {
     (numerator, denominator) \<leftarrow>
       (if fr_denominator f = fr_denominator operand
        then Some (narrow64 (fr_numerator f + fr_numerator operand), fr_denominator f)
        else do {
          gcd \<leftarrow> euclidean (fr_denominator f) (fr_denominator operand);
          denominator \<leftarrow> i64_div (fr_denominator f) gcd;
          limit \<leftarrow> limitNumber denominator (fr_denominator operand);
          let gcd = narrow64 (gcd * limit);
          denominator \<leftarrow> i64_div denominator limit;
          q \<leftarrow> i64_div (fr_denominator operand) gcd;
          r \<leftarrow> i64_div (fr_denominator f) gcd;
          Some (narrow64 (narrow64 (q * fr_numerator f) + narrow64 (r * fr_numerator operand)),
                narrow64 (denominator * fr_denominator operand))
        });
     fraction_reduce (fraction_make numerator denominator)
   }"

definition fraction_times :: "fraction \<Rightarrow> fraction \<Rightarrow> fraction option" where
  "fraction_times f operand = do {
     gcd1 \<leftarrow> euclidean (fr_numerator f) (fr_denominator operand);
     gcd2 \<leftarrow> euclidean (fr_numerator operand) (fr_denominator f);
     denominator1 \<leftarrow> i64_div (fr_denominator f) gcd2;
     denominator2 \<leftarrow> i64_div (fr_denominator operand) gcd1;
     limit \<leftarrow> limitNumber denominator1 denominator2;
     let gcd2 = narrow64 (gcd2 * limit);
     denominator1 \<leftarrow> i64_div denominator1 limit;
     n \<leftarrow> i64_div (fr_numerator f) gcd1;
     m \<leftarrow> i64_div (fr_numerator operand) gcd2;
     Some (fraction_make (narrow64 (n * m)) (narrow64 (denominator1 * denominator2)))
   }"

definition fraction_increase :: "fraction \<Rightarrow> fraction \<Rightarrow> fraction option" where
  "fraction_increase f operand = do {
     f \<leftarrow> (if fr_denominator f = fr_denominator operand
           then Some (f\<lparr>fr_numerator := narrow64 (fr_numerator f + fr_numerator operand)\<rparr>)
           else do {
             gcd \<leftarrow> euclidean (fr_denominator f) (fr_denominator operand);
             denominator \<leftarrow> i64_div (fr_denominator operand) gcd;
             limit \<leftarrow> limitNumber (fr_denominator f) denominator;
             let gcd = narrow64 (gcd * limit);
             denominator \<leftarrow> i64_div denominator limit;
             q \<leftarrow> i64_div (fr_denominator operand) gcd;
             r \<leftarrow> i64_div (fr_denominator f) gcd;
             Some \<lparr>fr_numerator = narrow64 (narrow64 (q * fr_numerator f) + narrow64 (r * fr_numerator operand)),
                   fr_denominator = narrow64 (fr_denominator f * denominator)\<rparr>
           });
     fraction_reduce f
   }"

text \<open>The parts that \<open>operator/\<close> and \<open>operator<\<close> share: the two products crosswise.\<close>

definition fraction_cross :: "fraction \<Rightarrow> fraction \<Rightarrow> (int \<times> int) option" where
  "fraction_cross f operand = do {
     gcd1 \<leftarrow> euclidean (fr_numerator f) (fr_numerator operand);
     gcd2 \<leftarrow> euclidean (fr_denominator f) (fr_denominator operand);
     a \<leftarrow> i64_div (fr_numerator f) gcd1;
     b \<leftarrow> i64_div (fr_denominator operand) gcd2;
     c \<leftarrow> i64_div (fr_denominator f) gcd2;
     d \<leftarrow> i64_div (fr_numerator operand) gcd1;
     Some (narrow64 (a * b), narrow64 (c * d))
   }"

definition fraction_divide :: "fraction \<Rightarrow> fraction \<Rightarrow> fraction option" where
  "fraction_divide f operand = map_option (\<lambda>(a, b). fraction_make a b) (fraction_cross f operand)"

definition fraction_less :: "fraction \<Rightarrow> fraction \<Rightarrow> bool option" where
  "fraction_less f operand = map_option (\<lambda>(a, b). a < b) (fraction_cross f operand)"

text \<open>The double: both numbers are converted before they are divided.\<close>

definition fraction_value :: "fraction \<Rightarrow> rat" where
  "fraction_value f = double (double (of_int (fr_numerator f)) / double (of_int (fr_denominator f)))"

section \<open>What they compute\<close>

text \<open>A fraction as the operations leave it, and the number it stands for.\<close>

definition fraction_ok :: "fraction \<Rightarrow> bool" where
  "fraction_ok f \<longleftrightarrow> 0 < fr_denominator f \<and> fr_denominator f \<le> i64_max \<and> i64_min \<le> fr_numerator f \<and> fr_numerator f \<le> i64_max"

definition fraction_rat :: "fraction \<Rightarrow> rat" where
  "fraction_rat f = of_int (fr_numerator f) / of_int (fr_denominator f)"

lemmas i64_defs = i64_max_def i64_min_def

lemma narrow64_id: "i64_min \<le> i \<Longrightarrow> i \<le> i64_max \<Longrightarrow> narrow64 i = i"
  by (simp add: narrow64_def i64_defs signed_of_int signed_take_bit_int_eq_self)

lemma narrow64_nonneg: "0 \<le> i \<Longrightarrow> i \<le> i64_max \<Longrightarrow> narrow64 i = i"
  by (rule narrow64_id) (simp_all add: i64_min_def)

lemma narrow64_bounds: "i64_min \<le> narrow64 i" "narrow64 i \<le> i64_max"
proof -
  have "- (2 ^ 63) \<le> sint (word_of_int i :: u64)" "sint (word_of_int i :: u64) < 2 ^ 63"
    using sint_greater_eq [of "word_of_int i :: u64"] sint_less [of "word_of_int i :: u64"] by simp_all
  then show "i64_min \<le> narrow64 i" "narrow64 i \<le> i64_max" by (simp_all add: narrow64_def i64_defs)
qed

lemma div_pos: "0 \<le> a \<Longrightarrow> 0 < b \<Longrightarrow> i64_div a b = Some (a div b)" "0 \<le> a \<Longrightarrow> 0 < b \<Longrightarrow> i64_mod a b = Some (a mod b)"
  by (auto simp: i64_div_def i64_mod_def signed_divide_int_def signed_modulo_int_def sgn_if)

lemma smod_gcd: "gcd b (a smod b) = gcd a (b :: int)"
proof -
  have "gcd b (a smod b) = gcd \<bar>b\<bar> (\<bar>a\<bar> mod \<bar>b\<bar>)" by (auto simp: signed_modulo_int_def sgn_if)
  then show ?thesis by (simp add: gcd_red_int [symmetric] gcd.commute)
qed

lemma smod_keeps_sign: "0 \<le> a \<Longrightarrow> 0 \<le> (a :: int) smod b"
  by (cases "b = 0") (simp_all add: signed_modulo_int_def sgn_if)

lemma smod_lower: "(i :: int) < 0 \<Longrightarrow> i < a \<Longrightarrow> i < a smod b"
proof -
  assume i: "i < 0" "i < a"
  have "0 \<le> \<bar>a\<bar> mod \<bar>b\<bar>" by (cases "b = 0") auto
  then have "\<bar>a smod b\<bar> \<le> \<bar>a\<bar>" using zmod_le_nonneg_dividend [of "\<bar>a\<bar>" "\<bar>b\<bar>"]
    by (cases "0 \<le> a") (simp_all add: signed_modulo_int_def abs_mult sgn_if)
  then show ?thesis using i smod_keeps_sign [of a b] by (cases "0 \<le> a") auto
qed

lemma euclidean_gcd:
  assumes "i64_min < a" "i64_min < b"
  shows "\<exists>g. euclidean a b = Some g \<and> (if a = 0 \<and> b = 0 then g = 1 else \<bar>g\<bar> = gcd a b) \<and> (0 \<le> a \<and> 0 \<le> b \<longrightarrow> 0 < g)"
  using assms
proof (induction a b rule: euclidean.induct)
  case (1 a b)
  show ?case
  proof (cases "b = 0")
    case True
    then show ?thesis by (subst euclidean.simps) simp
  next
    case False
    have small: "i64_min < a smod b" using smod_lower "1.prems"(1) by (simp add: i64_min_def)
    from "1.IH" [OF False _ "1.prems"(2) this] "1.prems"(1)
    obtain g where g: "euclidean b (a smod b) = Some g" "\<bar>g\<bar> = gcd b (a smod b)" "0 \<le> b \<and> 0 \<le> a smod b \<longrightarrow> 0 < g" using False by auto
    then show ?thesis using smod_keeps_sign [of a b] smod_gcd [of b a] False "1.prems"(1) by (subst euclidean.simps) auto
  qed
qed

lemma euclidean_pos:
  assumes "0 \<le> a" "0 < b"
  shows "euclidean a b = Some (gcd a b)"
  using euclidean_gcd [of a b] assms by (auto simp: i64_min_def)

lemma reduce_ok:
  assumes "fraction_ok f"
  shows "\<exists>h. fraction_reduce f = Some h \<and> fraction_ok h \<and> fraction_rat h = fraction_rat f"
proof -
  let ?n = "fr_numerator f" and ?d = "fr_denominator f"
  have d: "0 < ?d" "?d \<le> i64_max" "i64_min \<le> ?n" "?n \<le> i64_max" using assms by (simp_all add: fraction_ok_def)
  have "\<exists>g. euclidean ?d (?n smod ?d) = Some g \<and> \<bar>g\<bar> = gcd ?d (?n smod ?d)"
  proof -
    have "\<bar>?n smod ?d\<bar> < ?d" using smod_smaller [of ?d ?n] d(1) by simp
    then have "i64_min < ?n smod ?d" using d(2) by (simp add: i64_defs)
    then show ?thesis using euclidean_gcd [of ?d "?n smod ?d"] d(1) by (auto simp: i64_min_def)
  qed
  then obtain g where g: "euclidean ?n ?d = Some g" "\<bar>g\<bar> = gcd ?n ?d"
    using d(1) smod_gcd [of ?d ?n] euclidean.simps [of ?n ?d] by auto
  show ?thesis
  proof (cases "g > 1")
    case False
    then show ?thesis using g(1) assms by (simp add: fraction_reduce_def)
  next
    case True
    then have "g dvd ?n" "g dvd ?d" using g(2) by (metis abs_of_pos gcd_dvd1 gcd_dvd2 less_trans zero_less_one)+
    then obtain a b where ab: "?n = a * g" "?d = b * g" by (metis dvdE mult.commute)
    have b: "0 < b" "b \<le> ?d" using d(1) ab(2) True by (auto simp: zero_less_mult_iff)
    have div: "i64_div ?n g = Some a" "i64_div ?d g = Some b" using True ab by (simp_all add: i64_div_def signed_divide_int_def abs_mult sgn_mult mult_sgn_abs)
    have "0 < a \<longrightarrow> a \<le> a * g" "a \<le> 0 \<longrightarrow> a * g \<le> a" using True by (auto simp: mult_le_cancel_left1 mult_le_cancel_left2)
    then have "i64_min \<le> a \<and> a \<le> i64_max" using d(3,4) unfolding ab(1) i64_defs by linarith
    then have "fraction_ok \<lparr>fr_numerator = a, fr_denominator = b\<rparr>" using b d(2) by (simp add: fraction_ok_def)
    then show ?thesis using g(1) True div ab by (simp add: fraction_reduce_def fraction_rat_def)
  qed
qed

lemma ceil_mult:
  fixes b m :: int
  assumes "0 < m"
  shows "b \<le> m * (b div m + (if b mod m > 0 then 1 else 0))"
proof -
  have "m * (b div m) + b mod m = b" "b mod m < m" "0 \<le> b mod m" using assms by simp_all
  moreover have "m * (b div m + (if b mod m > 0 then 1 else 0)) = m * (b div m) + (if b mod m > 0 then m else 0)" by (simp add: distrib_left)
  moreover have "b mod m \<le> (if b mod m > 0 then m else 0)" using assms by (simp add: less_imp_le)
  ultimately show ?thesis by (metis add_left_mono)
qed

lemma limitNumber_bounds:
  assumes "0 < a" "a \<le> i64_max" "0 < b" "b \<le> i64_max"
  obtains l where "limitNumber a b = Some l" "1 \<le> l" "l \<le> b" "a * (b div l) \<le> i64_max" "a * b \<le> i64_max \<longrightarrow> l = 1"
proof -
  let ?m = "i64_max div a"
  have m: "1 \<le> ?m" using assms(1,2) by (simp add: pos_imp_zdiv_pos_iff int_one_le_iff_zero_less)
  have am: "a * ?m \<le> i64_max" using mult_div_mod_eq [of a i64_max] pos_mod_sign [OF assms(1), of i64_max] by linarith
  have abs: "i64_abs a = Some a" "i64_abs b = Some b" "i64_div i64_max a = Some ?m"
    using assms div_pos(1) [of i64_max a] by (simp_all add: i64_abs_def i64_defs)
  show ?thesis
  proof (cases "?m < b")
    case False
    have "a * b \<le> i64_max" using am False assms(1) by (meson linorder_not_less mult_left_mono order_trans less_imp_le)
    then show ?thesis using that [of 1] abs False assms(3) by (simp add: limitNumber_def)
  next
    case True
    let ?l = "b div ?m + (if b mod ?m > 0 then 1 else 0)"
    have l: "limitNumber a b = Some ?l" using abs True m assms(3) div_pos [of b ?m] by (simp add: limitNumber_def)
    have b: "b = ?m * (b div ?m) + b mod ?m" "0 \<le> b mod ?m" "b mod ?m < ?m" using m by simp_all
    have "b \<le> ?m * ?l" using ceil_mult m by simp
    have "0 < b div ?m" using True m by (simp add: pos_imp_zdiv_pos_iff)
    then have one: "1 \<le> ?l" by (cases "b mod ?m > 0") simp_all
    have "b div ?l \<le> (?m * ?l) div ?l" by (rule zdiv_mono1) (use \<open>b \<le> ?m * ?l\<close> one in auto)
    then have "b div ?l \<le> ?m" using one by simp
    moreover have "?l \<le> b"
    proof -
      have "b div ?m \<le> ?m * (b div ?m)" using mult_right_mono [OF m, of "b div ?m"] \<open>0 < b div ?m\<close> by linarith
      then have "b div ?m \<le> b" "b mod ?m > 0 \<longrightarrow> b div ?m + 1 \<le> b" using b(1,2) by linarith+
      then show ?thesis by simp
    qed
    moreover have "\<not> a * b \<le> i64_max"
    proof
      assume "a * b \<le> i64_max"
      then have "(a * b) div a \<le> ?m" using zdiv_mono1 assms(1) by blast
      then show False using True assms(1) by simp
    qed
    moreover have "a * (b div ?l) \<le> i64_max" using mult_left_mono [OF \<open>b div ?l \<le> ?m\<close> less_imp_le [OF assms(1)]] am by (rule order_trans)
    ultimately show ?thesis using that [OF l one] by blast
  qed
qed

text \<open>The sum of fractions with different denominators, before it is reduced.\<close>

lemma increase_sum:
  assumes "fraction_ok f" "fraction_ok x" "fr_denominator f \<noteq> fr_denominator x"
  obtains l h where "fraction_increase f x = fraction_reduce h" "fraction_ok h"
    "fr_denominator f * (fr_denominator x div gcd (fr_denominator f) (fr_denominator x)) \<le> i64_max \<longrightarrow> l = 1"
    "fr_denominator h = fr_denominator f * (fr_denominator x div gcd (fr_denominator f) (fr_denominator x) div l)"
    "fr_numerator h = narrow64 (narrow64 (fr_denominator x div (gcd (fr_denominator f) (fr_denominator x) * l) * fr_numerator f) +
       narrow64 (fr_denominator f div (gcd (fr_denominator f) (fr_denominator x) * l) * fr_numerator x))"
proof -
  let ?d = "fr_denominator f" and ?e = "fr_denominator x"
  let ?g = "gcd ?d ?e"
  let ?c = "?e div ?g"
  have d: "0 < ?d" "?d \<le> i64_max" "0 < ?e" "?e \<le> i64_max" using assms(1,2) by (simp_all add: fraction_ok_def)
  have g: "0 < ?g" "euclidean ?d ?e = Some ?g" using d euclidean_pos by simp_all
  have e: "?e = ?g * ?c" by simp
  have c: "0 < ?c" "?c \<le> ?e" using g(1) d(3) e by (simp_all add: pos_imp_zdiv_pos_iff zdvd_imp_le int_div_le_self)
  obtain l where l: "limitNumber ?d ?c = Some l" "1 \<le> l" "l \<le> ?c" "?d * (?c div l) \<le> i64_max" "?d * ?c \<le> i64_max \<longrightarrow> l = 1"
    using limitNumber_bounds [OF d(1,2) c(1) order_trans [OF c(2) d(4)]] .
  have gl: "0 < ?g * l" "?g * l \<le> ?e" using g(1) l(2,3) e mult_left_mono [of l ?c ?g] by simp_all
  have n: "narrow64 (?g * l) = ?g * l" using narrow64_nonneg [OF less_imp_le [OF gl(1)] order_trans [OF gl(2) d(4)]] .
  have cl: "0 < ?c div l" using l(2,3) by (simp add: pos_imp_zdiv_pos_iff)
  have nd: "narrow64 (?d * (?c div l)) = ?d * (?c div l)" using narrow64_nonneg [OF less_imp_le [OF mult_pos_pos [OF d(1) cl]] l(4)] .
  let ?h = "\<lparr>fr_numerator = narrow64 (narrow64 (?e div (?g * l) * fr_numerator f) + narrow64 (?d div (?g * l) * fr_numerator x)),
    fr_denominator = ?d * (?c div l)\<rparr>"
  have dv: "i64_div ?e ?g = Some ?c" "i64_div ?c l = Some (?c div l)" "i64_div ?e (?g * l) = Some (?e div (?g * l))"
    "i64_div ?d (?g * l) = Some (?d div (?g * l))"
    using div_pos(1) d g(1) c(1) l(2) gl(1) by simp_all
  have "fraction_increase f x = fraction_reduce ?h"
    unfolding fraction_increase_def using assms(3) dv by (simp add: g(2) l(1) n nd Let_def)
  moreover have "fraction_ok ?h" using cl d(1) l(4) mult_pos_pos [OF d(1) cl] narrow64_bounds by (simp add: fraction_ok_def)
  ultimately show ?thesis using that [of ?h l] l(5) by simp
qed

lemma increase_ok:
  assumes "fraction_ok f" "fraction_ok x"
  shows "\<exists>h. fraction_increase f x = Some h \<and> fraction_ok h"
proof (cases "fr_denominator f = fr_denominator x")
  case True
  let ?h = "f\<lparr>fr_numerator := narrow64 (fr_numerator f + fr_numerator x)\<rparr>"
  have "fraction_ok ?h" using assms(1) narrow64_bounds by (simp add: fraction_ok_def)
  from reduce_ok [OF this] show ?thesis using True by (auto simp: fraction_increase_def)
next
  case False
  obtain h where "fraction_increase f x = fraction_reduce h" "fraction_ok h" using increase_sum [OF assms False] by blast
  then show ?thesis using reduce_ok by auto
qed

text \<open>
  C32: Adding to a score is exact as long as the common denominator fits into 64 bits and the sum stays at most 1:
  none of the 64-bit products wraps, and the result is again reduced and in range.
\<close>

theorem increase_exact:
  assumes "fraction_ok f" "fraction_ok x" "0 \<le> fr_numerator f" "0 \<le> fr_numerator x" "lcm (fr_denominator f) (fr_denominator x) \<le> i64_max"
    "fraction_rat f + fraction_rat x \<le> 1"
  shows "\<exists>h. fraction_increase f x = Some h \<and> fraction_ok h \<and> fraction_rat h = fraction_rat f + fraction_rat x"
proof -
  let ?n = "fr_numerator f" and ?m = "fr_numerator x" and ?d = "fr_denominator f" and ?e = "fr_denominator x"
  have d: "0 < ?d" "?d \<le> i64_max" "0 < ?e" "?e \<le> i64_max" using assms(1,2) by (simp_all add: fraction_ok_def)
  show ?thesis
  proof (cases "?d = ?e")
    case True
    have "(of_int (?n + ?m) :: rat) \<le> of_int ?d" using assms(6) d(1) True by (simp add: fraction_rat_def add_divide_distrib [symmetric] divide_le_eq)
    then have "?n + ?m \<le> ?d" by linarith
    then have n: "narrow64 (?n + ?m) = ?n + ?m" using assms(3,4) d(2) by (intro narrow64_nonneg) auto
    let ?h = "f\<lparr>fr_numerator := ?n + ?m\<rparr>"
    have h: "fraction_ok ?h" using assms(1,3,4) d(2) \<open>?n + ?m \<le> ?d\<close> by (simp add: fraction_ok_def i64_min_def)
    have "fraction_increase f x = fraction_reduce ?h" using True n by (simp add: fraction_increase_def)
    moreover have "fraction_rat ?h = fraction_rat f + fraction_rat x" using True by (simp add: fraction_rat_def add_divide_distrib)
    ultimately show ?thesis using reduce_ok [OF h] by simp
  next
    case False
    let ?g = "gcd ?d ?e"
    let ?c = "?e div ?g" and ?b = "?d div ?g"
    have g: "0 < ?g" "?e = ?c * ?g" "?d = ?b * ?g" using d by simp_all
    have cb: "0 < ?c" "0 < ?b" using d g by (metis zero_less_mult_pos2)+
    have l: "?d * ?c = lcm ?d ?e" using d by (simp add: lcm_altdef_int div_mult_swap)
    obtain h k where h: "fraction_increase f x = fraction_reduce h" "fraction_ok h" "?d * ?c \<le> i64_max \<longrightarrow> k = 1"
      "fr_denominator h = ?d * (?c div k)" "fr_numerator h = narrow64 (narrow64 (?e div (?g * k) * ?n) + narrow64 (?d div (?g * k) * ?m))"
      using increase_sum [OF assms(1,2) False] .
    have k: "k = 1" using h(3) l assms(5) by simp
    have rat: "of_int (?c * ?n + ?b * ?m) / of_int (?d * ?c) = fraction_rat f + fraction_rat x"
    proof -
      obtain c b where cb': "?c = c" "?b = b" by blast
      have "of_int (c * ?n + b * ?m) / (of_int ((b * ?g) * c) :: rat) = of_int ?n / of_int (b * ?g) + of_int ?m / of_int (c * ?g)"
        using cb g(1) unfolding cb' by (simp add: field_simps)
      then show ?thesis using g(2,3) unfolding fraction_rat_def cb' by metis
    qed
    then have "(of_int (?c * ?n + ?b * ?m) :: rat) \<le> of_int (?d * ?c)"
      using assms(6) divide_le_eq_1_pos [of "of_int (?d * ?c) :: rat"] mult_pos_pos [OF d(1) cb(1)] by (metis of_int_0_less_iff)
    then have le: "?c * ?n + ?b * ?m \<le> i64_max" using l assms(5) by linarith
    have pos: "0 \<le> ?c * ?n" "0 \<le> ?b * ?m" using cb assms(3,4) by (simp_all add: less_imp_le)
    have "fr_numerator h = ?c * ?n + ?b * ?m" using h(5) k pos le by (simp add: narrow64_nonneg)
    then have "fraction_rat h = fraction_rat f + fraction_rat x" using h(4) k rat by (simp add: fraction_rat_def)
    then show ?thesis using h(1) reduce_ok [OF h(2)] by simp
  qed
qed

lemma times_exact:
  assumes "fraction_ok f" "fraction_ok x" "0 \<le> fr_numerator f" "0 \<le> fr_numerator x"
    "fr_denominator f * fr_denominator x \<le> i64_max" "fr_numerator f * fr_numerator x \<le> i64_max"
  shows "\<exists>h. fraction_times f x = Some h \<and> fraction_ok h \<and> fraction_rat h = fraction_rat f * fraction_rat x"
proof -
  let ?n = "fr_numerator f" and ?m = "fr_numerator x" and ?d = "fr_denominator f" and ?e = "fr_denominator x"
  let ?g = "gcd ?n ?e" and ?k = "gcd ?m ?d"
  have d: "0 < ?d" "0 < ?e" using assms(1,2) by (simp_all add: fraction_ok_def)
  have g: "0 < ?g" "0 < ?k" using d by simp_all
  obtain a e where ae: "?n = a * ?g" "?e = e * ?g" by (metis dvd_div_mult_self gcd_dvd1 gcd_dvd2)
  obtain b c where bc: "?m = b * ?k" "?d = c * ?k" by (metis dvd_div_mult_self gcd_dvd1 gcd_dvd2)
  have pos: "0 < e" "0 < c" "0 \<le> a" "0 \<le> b" using ae bc g d assms(3,4) by (metis zero_less_mult_pos2 zero_le_mult_iff not_less)+
  have grow: "i \<le> i * j" if "0 \<le> i" "0 < j" for i j :: int using that mult_left_mono [of 1 j i] by simp
  have le: "e \<le> ?e" "c \<le> ?d" "a \<le> ?n" "b \<le> ?m" "?k \<le> ?d"
    using grow [of e ?g] grow [of c ?k] grow [of a ?g] grow [of b ?k] pos g ae bc d gcd_le2_int [of ?d ?m] by (simp_all only: less_imp_le)
  have ce: "c * e \<le> i64_max" "a * b \<le> i64_max"
    using mult_mono [OF le(2,1)] mult_mono [OF le(3,4)] pos d assms(3-6) by (meson less_imp_le order_trans)+
  have max: "c \<le> i64_max" "e \<le> i64_max" "?k \<le> i64_max" using le assms(1,2) unfolding fraction_ok_def by linarith+
  obtain l where "limitNumber c e = Some l" "c * e \<le> i64_max \<longrightarrow> l = 1" using limitNumber_bounds [OF pos(2) max(1) pos(1) max(2)] .
  then have l: "limitNumber c e = Some 1" using ce(1) by simp
  have dv: "i64_div ?d ?k = Some c" "i64_div ?e ?g = Some e" "i64_div ?n ?g = Some a" "i64_div ?m ?k = Some b" "i64_div c 1 = Some c"
    using div_pos(1) [of ?d ?k] div_pos(1) [of ?e ?g] div_pos(1) [of ?n ?g] div_pos(1) [of ?m ?k] div_pos(1) [of c 1] d g pos assms(3,4)
    by (metis ae bc less_imp_le nonzero_mult_div_cancel_right less_irrefl div_by_1 zero_less_one)+
  have n: "narrow64 ?k = ?k" "narrow64 (a * b) = a * b" "narrow64 (c * e) = c * e"
    using narrow64_nonneg max(3) g(2) ce pos by (simp_all add: less_imp_le)
  let ?h = "\<lparr>fr_numerator = a * b, fr_denominator = c * e\<rparr>"
  have "fraction_times f x = Some ?h"
    unfolding fraction_times_def using euclidean_pos [OF assms(3) d(2)] euclidean_pos [OF assms(4) d(1)] pos
    by (simp add: dv l n Let_def fraction_make_def)
  moreover have "fraction_ok ?h" using ce pos narrow64_bounds(1) [of "a * b"] n(2) by (simp add: fraction_ok_def)
  moreover have "fraction_rat ?h = fraction_rat f * fraction_rat x"
  proof -
    obtain i j where ij: "?g = i" "?k = j" by blast
    have "(of_int (a * b) / of_int (c * e) :: rat) = of_int (a * i) / of_int (c * j) * (of_int (b * j) / of_int (e * i))"
      using g unfolding ij by (simp add: field_simps)
    then show ?thesis using ae bc unfolding fraction_rat_def ij by simp
  qed
  ultimately show ?thesis by blast
qed

lemma round_even_nonpos:
  assumes "y \<le> 0"
  shows "round_even y \<le> 0"
proof (cases "y = 0")
  case False
  then have "\<lfloor>y\<rfloor> < 0" using assms by simp
  then show ?thesis unfolding round_even_def Let_def by (auto simp del: floor_less_zero)
qed (simp add: round_even_def)

lemma double_pos:
  assumes "0 < double x"
  shows "0 < x"
proof (rule ccontr)
  assume "\<not> 0 < x"
  let ?u = "2 powi (exponent_of \<bar>x\<bar> - 52) :: rat"
  have u: "0 < ?u" by (simp add: zero_less_power_int)
  have "x / ?u \<le> 0" using \<open>\<not> 0 < x\<close> u by (simp add: divide_le_0_iff)
  then have "round_even (x / ?u) \<le> 0" by (rule round_even_nonpos)
  then have "double x \<le> 0" using u by (auto simp: double_def Let_def mult_nonpos_nonneg)
  then show False using assms by simp
qed

lemma double_0 [simp]: "double 0 = 0"
  by (simp add: double_def)

section \<open>Where the sum breaks down\<close>

text \<open>
  \<open>operator+\<close> divides the smaller factor of the denominator by the limit, which may leave nothing of
  it: the sum of two positive fractions is 0.  \<open>operator+=\<close> divides the other factor, and has no such case.
\<close>

theorem fraction_plus_collapses:
  "fraction_plus (fraction_make 1 4611686018427387904) (fraction_make 1 9223372036854775807) = Some (fraction_of 0)"
  by code_simp

theorem increase_exact_witness:
  "\<exists>h. fraction_increase (fraction_make 1 2) (fraction_make 1 3) = Some h \<and> fraction_rat h = 5 / 6"
proof -
  have "lcm 2 (3 :: int) = 6" by code_simp
  then show ?thesis using increase_exact [of "fraction_make 1 2" "fraction_make 1 3"]
    by (auto simp: fraction_ok_def fraction_make_def fraction_rat_def i64_max_def i64_min_def)
qed

end
