(* ===== verification/WCDB_Repairman.thy ===== *)
theory WCDB_Repairman
  imports WCDB_Backup WCDB_Fraction
begin

text \<open>
  \<open>src/src/common/repair/basic/Repairman.cpp\<close>: what the two kinds of repair share, with the classes it
  inherits from: \<open>UpgradeableErrorProne.cpp\<close>, \<open>Scoreable.cpp\<close> and \<open>base/Progress.cpp\<close>.

  A repair hands the tables, rows and statements that it finds to an \<open>AssembleDelegate\<close>.  This is
  an interface: what its calls return is given by functions of the number of the call, and the
  calls are kept in a list with their results.  The callback of the progress is treated in the same
  way.  \<open>rp_own\<close> holds the members of the class that inherits from \<open>Repairman\<close>; \<open>re_critical\<close> is its virtual method
  \<open>onErrorCritical\<close>.  The results of \<open>tryUpgradeError\<close>, which no caller reads, are left out.
\<close>

section \<open>State\<close>

record assemble_delegate =
  ad_ok :: "nat \<Rightarrow> bool"
  ad_error :: "nat \<Rightarrow> werror"
  ad_withoutRowid :: "nat \<Rightarrow> bool"

datatype assemble_call =
    Mark_Assembling | Mark_Assembled | Mark_Milestone
  | Assemble_Table "byte list" "byte list" | Assemble_Sequence "byte list" int | Assemble_Cell cell | Assemble_SQL "byte list"
  | Mark_Replaceable bool

type_synonym assemble_log = "(assemble_call \<times> bool) list"

record 'x repairman =
  rp_error :: werror
  rp_severity :: int
  rp_progress :: rat
  rp_reports :: "(rat \<times> rat) list"
  rp_score :: fraction
  rp_segmentedScore :: fraction
  rp_pageWeight :: fraction
  rp_milestone :: int
  rp_mile :: int
  rp_calls :: assemble_log
  rp_own :: 'x

type_synonym 'x repair = "'x repairman crawl"

record 'x repair_env =
  re_assemble :: assemble_delegate
  re_callback :: "(nat \<Rightarrow> bool) option"
  re_cipher :: cipher_delegate
  re_critical :: "'x repair \<Rightarrow> 'x repair"

definition severity_none :: int where
  "severity_none = - 2147483648"

definition severity_most :: int where
  "severity_most = 2147483647"

definition repairman_init :: "'x \<Rightarrow> 'x repairman" where
  "repairman_init x = \<lparr>rp_error = error_init, rp_severity = severity_none, rp_progress = 0, rp_reports = [], rp_score = fraction_of 0,
     rp_segmentedScore = fraction_of 0, rp_pageWeight = fraction_of 0, rp_milestone = 1000, rp_mile = 0, rp_calls = [], rp_own = x\<rparr>"

definition repair_new :: "(nat \<Rightarrow> bool) \<Rightarrow> pager \<Rightarrow> 'x \<Rightarrow> 'x repair" where
  "repair_new signal pager x =
     \<lparr>cr_pager = pager, cr_objects = (\<lambda>_. crawlable_init), cr_signal = signal, cr_readings = 0, cr_user = repairman_init x\<rparr>"

definition rp_modify :: "('x repairman \<Rightarrow> 'x repairman) \<Rightarrow> 'x repair \<Rightarrow> 'x repair" where
  "rp_modify f s = s\<lparr>cr_user := f (cr_user s)\<rparr>"

section \<open>Errors by severity\<close>

definition errorSeverity :: "werror \<Rightarrow> int" where
  "errorSeverity e =
     (if er_level e = Level_Ignore \<and> er_code e \<noteq> Code_Interrupt then - 1
      else if er_level e \<noteq> Level_Ignore \<and> level_number (er_level e) < level_number Level_Error then - 1
      else case er_code e of
             Code_Full \<Rightarrow> 4
           | Code_Corrupt \<Rightarrow> 3
           | Code_NotADatabase \<Rightarrow> 3
           | Code_IOError \<Rightarrow> 2
           | Code_NoMemory \<Rightarrow> 1
           | Code_Interrupt \<Rightarrow> 1
           | Code_OK \<Rightarrow> severity_none
           | _ \<Rightarrow> 0)"

definition isErrorCritial :: "'x repair \<Rightarrow> bool" where
  "isErrorCritial s \<longleftrightarrow> rp_severity (cr_user s) \<ge> 1"

definition setSeverity :: "'x repair_env \<Rightarrow> int \<Rightarrow> 'x repair \<Rightarrow> 'x repair" where
  "setSeverity e severity s =
     (if severity > rp_severity (cr_user s)
      then let s = rp_modify (\<lambda>r. r\<lparr>rp_severity := severity\<rparr>) s in if severity \<ge> 1 then re_critical e s else s
      else s)"

definition tryUpgradeError :: "'x repair_env \<Rightarrow> werror \<Rightarrow> 'x repair \<Rightarrow> 'x repair" where
  "tryUpgradeError e error s =
     (let severity = errorSeverity error
      in if severity > rp_severity (cr_user s) then setSeverity e severity (rp_modify (\<lambda>r. r\<lparr>rp_error := error\<rparr>) s) else s)"

definition setCriticalError :: "'x repair_env \<Rightarrow> werror \<Rightarrow> 'x repair \<Rightarrow> 'x repair" where
  "setCriticalError e error s = re_critical e (setSeverity e severity_most (rp_modify (\<lambda>r. r\<lparr>rp_error := error\<rparr>) s))"

definition setCriticalErrorWithSharedThreadedError :: "'x repair_env \<Rightarrow> 'x repair \<Rightarrow> 'x repair" where
  "setCriticalErrorWithSharedThreadedError e s =
     (let w = pg_wal (cr_pager s)
      in setCriticalError e (wal_thread w) (s\<lparr>cr_pager := (cr_pager s)\<lparr>pg_wal := w\<lparr>wal_thread := error_init\<rparr>\<rparr>\<rparr>))"

section \<open>Progress\<close>

definition updateProgress :: "'x repair_env \<Rightarrow> rat \<Rightarrow> bool \<Rightarrow> 'x repair \<Rightarrow> bool \<times> 'x repair" where
  "updateProgress e progress force s =
     (let progress = (if force then progress else min progress (double (999 / 1000)));
          increment = double (progress - rp_progress (cr_user s))
      in if increment > double (1 / 1000)
         then let n = length (rp_reports (cr_user s));
                  s = rp_modify (\<lambda>r. r\<lparr>rp_progress := progress\<rparr>) s
              in case re_callback e of
                   None \<Rightarrow> (True, s)
                 | Some callback \<Rightarrow> (callback n, rp_modify (\<lambda>r. r\<lparr>rp_reports := rp_reports r @ [(progress, increment)]\<rparr>) s)
         else (True, s))"

definition increaseProgress :: "'x repair_env \<Rightarrow> rat \<Rightarrow> 'x repair \<Rightarrow> bool \<times> 'x repair" where
  "increaseProgress e increment s = updateProgress e (double (rp_progress (cr_user s) + increment)) False s"

definition finishProgress :: "'x repair_env \<Rightarrow> 'x repair \<Rightarrow> bool \<times> 'x repair" where
  "finishProgress e s = updateProgress e 1 True s"

section \<open>Score\<close>

text \<open>\<open>Scoreable::increaseScore\<close>, then \<open>SegmentedScoreable\<close>.\<close>

definition score_add :: "fraction \<Rightarrow> fraction \<Rightarrow> fraction option" where
  "score_add increment score = do {
     score \<leftarrow> fraction_increase score increment;
     Some (if fraction_value score > 1 then fraction_of 1 else score)
   }"

definition markSegmentedScoreCounted :: "'x repair \<Rightarrow> 'x repair option" where
  "markSegmentedScoreCounted s = do {
     score \<leftarrow> score_add (rp_segmentedScore (cr_user s)) (rp_score (cr_user s));
     Some (rp_modify (\<lambda>r. r\<lparr>rp_score := score, rp_segmentedScore := fraction_of 0\<rparr>) s)
   }"

definition markSegmentedScoreDropped :: "'x repair \<Rightarrow> 'x repair" where
  "markSegmentedScoreDropped = rp_modify (\<lambda>r. r\<lparr>rp_segmentedScore := fraction_of 0\<rparr>)"

definition increaseScore :: "fraction \<Rightarrow> 'x repair \<Rightarrow> 'x repair option" where
  "increaseScore increment s = do {
     score \<leftarrow> fraction_increase (rp_segmentedScore (cr_user s)) increment;
     Some (rp_modify (\<lambda>r. r\<lparr>rp_segmentedScore := score\<rparr>) s)
   }"

section \<open>Repairman\<close>

text \<open>A call of the delegate.\<close>

definition delegate_call :: "'x repair_env \<Rightarrow> assemble_call \<Rightarrow> 'x repair \<Rightarrow> bool \<times> 'x repair" where
  "delegate_call e c s =
     (let ok = ad_ok (re_assemble e) (length (rp_calls (cr_user s)))
      in (ok, rp_modify (\<lambda>r. r\<lparr>rp_calls := rp_calls r @ [(c, ok)]\<rparr>) s))"

definition getAssembleError :: "'x repair_env \<Rightarrow> 'x repair \<Rightarrow> werror" where
  "getAssembleError e s = ad_error (re_assemble e) (length (rp_calls (cr_user s)))"

definition getTotalPageCount :: "'x repair \<Rightarrow> int" where
  "getTotalPageCount s =
     (if fraction_value (rp_pageWeight (cr_user s)) > 0 then \<lfloor>double (1 / fraction_value (rp_pageWeight (cr_user s)))\<rfloor> else 0)"

definition repair_exit :: "'x repair_env \<Rightarrow> 'x repair \<Rightarrow> bool \<times> 'x repair" where
  "repair_exit e s = (if \<not> isErrorCritial s then finishProgress e s else (False, s))"

definition repair_exit_with :: "'x repair_env \<Rightarrow> bool \<Rightarrow> 'x repair \<Rightarrow> bool \<times> 'x repair" where
  "repair_exit_with e result s = (if result then finishProgress e s else (result, s))"

text \<open>The size of the file: \<open>None\<close> when it cannot be read.\<close>

definition isEmptyDatabase :: "'x repair_env \<Rightarrow> 'x repair \<Rightarrow> bool option \<times> 'x repair" where
  "isEmptyDatabase e s =
     (let p = cr_pager s; f = pg_file p;
          (fileSize, h) = getFileSize ((pf_file f)\<lparr>fh_error := wal_thread (pg_wal p)\<rparr>);
          s = s\<lparr>cr_pager := p\<lparr>pg_file := f\<lparr>pf_file := h\<rparr>, pg_wal := (pg_wal p)\<lparr>wal_thread := fh_error h\<rparr>\<rparr>\<rparr>
      in case fileSize of
           Some n \<Rightarrow> (Some (n = 0), s)
         | None \<Rightarrow> (None, setCriticalErrorWithSharedThreadedError e s))"

definition tryUpgradeCrawlerError :: "'x repair_env \<Rightarrow> 'x repair \<Rightarrow> 'x repair" where
  "tryUpgradeCrawlerError e s =
     (let error = wal_error (pg_wal (cr_pager s))
      in tryUpgradeError e (if isCorruption error then error\<lparr>er_level := Level_Notice\<rparr> else error) s)"

definition tryUpgrateAssembleError :: "'x repair_env \<Rightarrow> 'x repair \<Rightarrow> 'x repair" where
  "tryUpgrateAssembleError e s =
     (let error = getAssembleError e s
      in tryUpgradeError e (if er_code error = Code_Constraint \<and> \<not> isErrorCritial s then error\<lparr>er_level := Level_Notice\<rparr> else error) s)"

definition markAsAssembling :: "'x repair_env \<Rightarrow> 'x repair \<Rightarrow> bool \<times> 'x repair" where
  "markAsAssembling e s =
     (let (ok, s) = delegate_call e Mark_Assembling s
      in if ok then (True, s) else (False, setCriticalError e (getAssembleError e s) s))"

definition markAsMilestone :: "'x repair_env \<Rightarrow> 'x repair \<Rightarrow> (bool \<times> 'x repair) option" where
  "markAsMilestone e s =
     (let s = rp_modify (\<lambda>r. r\<lparr>rp_mile := 0\<rparr>) s; (ok, s) = delegate_call e Mark_Milestone s
      in if ok then map_option (Pair True) (markSegmentedScoreCounted s)
         else Some (False, tryUpgrateAssembleError e (markSegmentedScoreDropped s)))"

definition markAsAssembled :: "'x repair_env \<Rightarrow> 'x repair \<Rightarrow> 'x repair option" where
  "markAsAssembled e s = do {
     (_, s) \<leftarrow> markAsMilestone e s;
     if isErrorCritial s then Some s
     else let (ok, s) = delegate_call e Mark_Assembled s
          in Some (if ok then s else setCriticalError e (getAssembleError e s) s)
   }"

definition towardMilestone :: "'x repair_env \<Rightarrow> int \<Rightarrow> 'x repair \<Rightarrow> (bool \<times> 'x repair) option" where
  "towardMilestone e mile s =
     (let s = rp_modify (\<lambda>r. r\<lparr>rp_mile := narrow32 (rp_mile r + mile)\<rparr>) s
      in if rp_mile (cr_user s) > rp_milestone (cr_user s) then markAsMilestone e s else Some (True, s))"

definition assembleTable :: "'x repair_env \<Rightarrow> byte list \<Rightarrow> byte list \<Rightarrow> 'x repair \<Rightarrow> (bool \<times> 'x repair) option" where
  "assembleTable e tableName sql s =
     (let (ok, s) = delegate_call e (Assemble_Table tableName sql) s
      in if ok then markAsMilestone e s else Some (False, tryUpgrateAssembleError e s))"

definition markCellAsCounted :: "cell \<Rightarrow> 'x repair \<Rightarrow> 'x repair option" where
  "markCellAsCounted ce s =
     (let n = getNumberOfCells (ce_page ce)
      in if isIndexPage (ce_page ce) \<or> n \<le> 0 then Some s
         else do {
           weight \<leftarrow> fraction_times (rp_pageWeight (cr_user s)) (fraction_make 1 n);
           increaseScore weight s
         })"

definition markPageAsCounted :: "page \<Rightarrow> 'x repair \<Rightarrow> 'x repair option" where
  "markPageAsCounted page s =
     (if pa_type page = LeafTable \<and> getNumberOfCells page = 0 then increaseScore (rp_pageWeight (cr_user s)) s else Some s)"

definition assembleCell :: "'x repair_env \<Rightarrow> cell \<Rightarrow> 'x repair \<Rightarrow> (bool \<times> 'x repair) option" where
  "assembleCell e ce s =
     (let (ok, s) = delegate_call e (Assemble_Cell ce) s
      in if ok then do {
           s \<leftarrow> markCellAsCounted ce s;
           (_, s) \<leftarrow> towardMilestone e 1 s;
           Some (True, s)
         }
         else Some (False, tryUpgrateAssembleError e s))"

definition assembleSequence :: "'x repair_env \<Rightarrow> byte list \<Rightarrow> int \<Rightarrow> 'x repair \<Rightarrow> (bool \<times> 'x repair) option" where
  "assembleSequence e tableName sequence s =
     (let (ok, s) = delegate_call e (Assemble_Sequence tableName sequence) s
      in if ok then map_option (\<lambda>(_, s). (True, s)) (towardMilestone e 1 s) else Some (False, tryUpgrateAssembleError e s))"

definition assembleAssociatedSQLs :: "'x repair_env \<Rightarrow> byte list list \<Rightarrow> 'x repair \<Rightarrow> 'x repair" where
  "assembleAssociatedSQLs e sqls s = fold (\<lambda>sql s. snd (delegate_call e (Assemble_SQL sql) s)) sqls s"

definition setPageWeight :: "fraction \<Rightarrow> 'x repair \<Rightarrow> 'x repair" where
  "setPageWeight weight = rp_modify (\<lambda>r. r\<lparr>rp_pageWeight := weight\<rparr>)"

text \<open>\<open>Repairman::onCrawlerError\<close>.\<close>

definition repair_onCrawlerError :: "'x repair_env \<Rightarrow> 'x repair \<Rightarrow> 'x repair" where
  "repair_onCrawlerError e s = tryUpgradeCrawlerError e s"

section \<open>What the operations keep\<close>

text \<open>
  The fractions stay well formed, the list of the calls keeps a property \<open>L\<close>, and the members of the
  inheriting class keep \<open>K\<close>.
\<close>

definition weight_ok :: "fraction \<Rightarrow> bool" where
  "weight_ok w \<longleftrightarrow> fr_numerator w \<in> {0, 1} \<and> 0 < fr_denominator w \<and> fr_denominator w \<le> 2147483648"

definition repair_sound :: "(assemble_log \<Rightarrow> bool) \<Rightarrow> ('x \<Rightarrow> bool) \<Rightarrow> 'x repairman \<Rightarrow> bool" where
  "repair_sound L K r \<longleftrightarrow> fraction_ok (rp_score r) \<and> fraction_ok (rp_segmentedScore r) \<and> weight_ok (rp_pageWeight r) \<and> L (rp_calls r) \<and> K (rp_own r)"

lemma rp_modify_simps [simp]: "cr_pager (rp_modify f s) = cr_pager s" "cr_user (rp_modify f s) = f (cr_user s)"
  "cr_objects (rp_modify f s) = cr_objects s" "cr_signal (rp_modify f s) = cr_signal s"
  by (simp_all add: rp_modify_def)

lemma fraction_of_ok [simp]: "fraction_ok (fraction_of 0)" "fraction_ok (fraction_of 1)"
  by (simp_all add: fraction_ok_def fraction_of_def i64_defs)

lemma weight_fraction: "weight_ok w \<Longrightarrow> fraction_ok w"
  by (auto simp: weight_ok_def fraction_ok_def i64_defs)

lemma cell_weight:
  assumes "weight_ok w" "0 < n" "n \<le> 65535"
  shows "\<exists>x. fraction_times w (fraction_make 1 n) = Some x \<and> fraction_ok x"
proof -
  have w: "fr_numerator w \<in> {0, 1}" "0 < fr_denominator w" "fr_denominator w \<le> 2147483648" using assms(1) by (simp_all add: weight_ok_def)
  have x: "fraction_make 1 n = \<lparr>fr_numerator = 1, fr_denominator = n\<rparr>" using assms(2) by (simp add: fraction_make_def)
  have "fr_denominator w * n \<le> 2147483648 * 65535" using w assms(2,3) by (intro mult_mono) auto
  then show ?thesis using times_exact [OF weight_fraction [OF assms(1)], of "fraction_make 1 n"] w assms(2,3)
    by (auto simp: x fraction_ok_def i64_defs)
qed

lemma score_add_ok: "fraction_ok x \<Longrightarrow> fraction_ok y \<Longrightarrow> \<exists>z. score_add x y = Some z \<and> fraction_ok z"
  using increase_ok [of y x] by (auto simp: score_add_def)

text \<open>
  What the calls of the delegate tell: the table that is being filled, and that every row belongs to
  it, \<open>V\<close> being the rows of a table.
\<close>

definition current_table :: "assemble_log \<Rightarrow> byte list option" where
  "current_table calls = fold (\<lambda>(c, ok) table. case c of Assemble_Table name sql \<Rightarrow> (if ok then Some name else None) | _ \<Rightarrow> table) calls None"

definition log_ok :: "(byte list \<Rightarrow> cell \<Rightarrow> bool) \<Rightarrow> assemble_log \<Rightarrow> bool" where
  "log_ok V calls \<longleftrightarrow> (\<forall>i < length calls. case fst (calls ! i) of
     Assemble_Cell ce \<Rightarrow> (\<exists>name. current_table (take i calls) = Some name \<and> V name ce) | _ \<Rightarrow> True)"

definition table_log :: "(byte list \<Rightarrow> cell \<Rightarrow> bool) \<Rightarrow> byte list \<Rightarrow> assemble_log \<Rightarrow> bool" where
  "table_log V name calls \<longleftrightarrow> log_ok V calls \<and> current_table calls = Some name"

lemma current_table_simps [simp]:
  "current_table [] = None"
  "current_table (xs @ [(c, b)]) = (case c of Assemble_Table name sql \<Rightarrow> (if b then Some name else None) | _ \<Rightarrow> current_table xs)"
  unfolding current_table_def by (simp_all split: assemble_call.split)

lemma log_ok_simps [simp]:
  "log_ok V []"
  "log_ok V (xs @ [(c, b)]) \<longleftrightarrow> log_ok V xs \<and> (case c of Assemble_Cell ce \<Rightarrow> (\<exists>name. current_table xs = Some name \<and> V name ce) | _ \<Rightarrow> True)"
proof -
  show "log_ok V []" by (simp add: log_ok_def)
  show "log_ok V (xs @ [(c, b)]) \<longleftrightarrow> log_ok V xs \<and> (case c of Assemble_Cell ce \<Rightarrow> (\<exists>name. current_table xs = Some name \<and> V name ce) | _ \<Rightarrow> True)"
    unfolding log_ok_def by (simp add: less_Suc_eq nth_append all_conj_distrib cong: conj_cong) (auto simp: nth_append split: assemble_call.splits)
qed

locale repairing =
  fixes e :: "'x repair_env" and L :: "assemble_log \<Rightarrow> bool" and K :: "'x \<Rightarrow> bool"
  assumes critical_keeps [simp]: "cr_pager (re_critical e s) = cr_pager s" "cr_user (re_critical e s) = cr_user s"
    and marks: "L xs \<Longrightarrow> c \<in> {Mark_Assembling, Mark_Assembled, Mark_Milestone} \<Longrightarrow> L (xs @ [(c, b)])"
begin

abbreviation sound :: "'x repairman \<Rightarrow> bool" where
  "sound \<equiv> repair_sound L K"

lemma modified: "crawl_at p sound s \<Longrightarrow> sound (f (cr_user s)) \<Longrightarrow> kept sound s (rp_modify f s)"
  by (simp add: kept_def crawl_at_def)

lemma setSeverity_keeps: "crawl_at p sound s \<Longrightarrow> kept sound s (setSeverity e n s)"
  by (simp add: kept_def crawl_at_def setSeverity_def Let_def repair_sound_def)

lemma tryUpgradeError_keeps: "crawl_at p sound s \<Longrightarrow> kept sound s (tryUpgradeError e x s)"
  by (simp add: kept_def crawl_at_def setSeverity_def tryUpgradeError_def Let_def repair_sound_def)

lemma setCriticalError_keeps: "crawl_at p sound s \<Longrightarrow> kept sound s (setCriticalError e x s)"
  by (simp add: kept_def crawl_at_def setSeverity_def setCriticalError_def Let_def repair_sound_def)

lemma upgrade_keeps: "crawl_at p sound s \<Longrightarrow> kept sound s (tryUpgradeCrawlerError e s)"
  "crawl_at p sound s \<Longrightarrow> kept sound s (tryUpgrateAssembleError e s)" "crawl_at p sound s \<Longrightarrow> kept sound s (repair_onCrawlerError e s)"
  using tryUpgradeError_keeps by (simp_all add: tryUpgradeCrawlerError_def tryUpgrateAssembleError_def repair_onCrawlerError_def Let_def)

lemma progress_keeps: "crawl_at p sound s \<Longrightarrow> kept sound s (snd (updateProgress e x force s))"
  by (auto simp: kept_def crawl_at_def updateProgress_def Let_def repair_sound_def split: option.split)

lemma increaseProgress_keeps: "crawl_at p sound s \<Longrightarrow> kept sound s (snd (increaseProgress e x s))"
  unfolding increaseProgress_def by (rule progress_keeps)

lemma finishProgress_keeps: "crawl_at p sound s \<Longrightarrow> kept sound s (snd (finishProgress e s))"
  unfolding finishProgress_def by (rule progress_keeps)

lemma call_keeps:
  assumes "crawl_at p sound s" "\<And>xs b. L xs \<Longrightarrow> L (xs @ [(c, b)])"
  shows "kept sound s (snd (delegate_call e c s))"
  using assms by (simp add: kept_def crawl_at_def delegate_call_def Let_def repair_sound_def)

lemma increaseScore_keeps:
  assumes "crawl_at p sound s" "fraction_ok x"
  shows "\<exists>s'. increaseScore x s = Some s' \<and> kept sound s s'"
proof -
  have "fraction_ok (rp_segmentedScore (cr_user s))" using assms(1) by (simp add: crawl_at_def repair_sound_def)
  then obtain y where "fraction_increase (rp_segmentedScore (cr_user s)) x = Some y" "fraction_ok y" using increase_ok assms(2) by blast
  then show ?thesis using assms(1) by (simp add: increaseScore_def kept_def crawl_at_def repair_sound_def)
qed

lemma score_keeps:
  assumes "crawl_at p sound s"
  shows "\<exists>s'. markSegmentedScoreCounted s = Some s' \<and> kept sound s s'"
proof -
  have "fraction_ok (rp_segmentedScore (cr_user s))" "fraction_ok (rp_score (cr_user s))" using assms by (simp_all add: crawl_at_def repair_sound_def)
  then obtain y where "score_add (rp_segmentedScore (cr_user s)) (rp_score (cr_user s)) = Some y" "fraction_ok y" using score_add_ok by blast
  then show ?thesis using assms by (simp add: markSegmentedScoreCounted_def kept_def crawl_at_def repair_sound_def)
qed

lemma exit_keeps: "crawl_at p sound s \<Longrightarrow> kept sound s (snd (repair_exit e s))" "crawl_at p sound s \<Longrightarrow> kept sound s (snd (repair_exit_with e b s))"
  using finishProgress_keeps kept_refl by (auto simp: repair_exit_def repair_exit_with_def)

lemma assembling_keeps:
  assumes "crawl_at p sound s"
  shows "kept sound s (snd (markAsAssembling e s))"
proof -
  obtain ok t where t: "delegate_call e Mark_Assembling s = (ok, t)" by fastforce
  have k: "kept sound s t" using call_keeps [OF assms, of Mark_Assembling] marks t by simp
  show ?thesis using t k kept_trans [OF k setCriticalError_keeps [OF crawl_at_kept [OF assms k]]] by (simp add: markAsAssembling_def)
qed

lemma milestone_keeps:
  assumes "crawl_at p sound s"
  shows "\<exists>b s'. markAsMilestone e s = Some (b, s') \<and> kept sound s s'"
proof -
  let ?s = "rp_modify (\<lambda>r. r\<lparr>rp_mile := 0\<rparr>) s"
  obtain ok t where t: "delegate_call e Mark_Milestone ?s = (ok, t)" by fastforce
  have k: "kept sound s ?s" using assms by (simp add: kept_def crawl_at_def repair_sound_def)
  have "kept sound ?s t" using call_keeps [OF crawl_at_kept [OF assms k], of Mark_Milestone] marks t by simp
  then have st: "kept sound s t" using k kept_trans by blast
  note at = crawl_at_kept [OF assms st]
  show ?thesis
  proof (cases ok)
    case True
    then show ?thesis using score_keeps [OF at] t kept_trans [OF st] by (auto simp: markAsMilestone_def Let_def)
  next
    case False
    have k2: "kept sound t (markSegmentedScoreDropped t)" using at by (simp add: markSegmentedScoreDropped_def kept_def crawl_at_def repair_sound_def)
    have "kept sound s (tryUpgrateAssembleError e (markSegmentedScoreDropped t))"
      using kept_trans [OF st kept_trans [OF k2 upgrade_keeps(2) [OF crawl_at_kept [OF at k2]]]] .
    then show ?thesis using False t by (auto simp: markAsMilestone_def Let_def)
  qed
qed

lemma toward_keeps:
  assumes "crawl_at p sound s"
  shows "\<exists>b s'. towardMilestone e mile s = Some (b, s') \<and> kept sound s s'"
proof -
  let ?s = "rp_modify (\<lambda>r. r\<lparr>rp_mile := narrow32 (rp_mile r + mile)\<rparr>) s"
  have k: "kept sound s ?s" using assms by (simp add: kept_def crawl_at_def repair_sound_def)
  show ?thesis
  proof (cases "rp_mile (cr_user ?s) > rp_milestone (cr_user ?s)")
    case True
    then show ?thesis using milestone_keeps [OF crawl_at_kept [OF assms k]] kept_trans [OF k] by (fastforce simp: towardMilestone_def Let_def)
  next
    case False
    then show ?thesis using k by (intro exI [of _ True]) (simp add: towardMilestone_def Let_def)
  qed
qed

lemma assembled_keeps:
  assumes "crawl_at p sound s"
  shows "\<exists>s'. markAsAssembled e s = Some s' \<and> kept sound s s'"
proof -
  obtain b t where t: "markAsMilestone e s = Some (b, t)" "kept sound s t" using milestone_keeps [OF assms] by blast
  note at = crawl_at_kept [OF assms t(2)]
  obtain ok u where u: "delegate_call e Mark_Assembled t = (ok, u)" by fastforce
  have "kept sound t u" using call_keeps [OF at, of Mark_Assembled] marks u by simp
  then have su: "kept sound s u" using t(2) kept_trans by blast
  show ?thesis using t u su kept_trans [OF su setCriticalError_keeps [OF crawl_at_kept [OF assms su]]]
    by (simp add: markAsAssembled_def)
qed

lemma table_keeps:
  assumes "crawl_at p sound s" "\<And>xs b. L xs \<Longrightarrow> L (xs @ [(Assemble_Table name sql, b)])"
  shows "\<exists>b s'. assembleTable e name sql s = Some (b, s') \<and> kept sound s s'"
proof -
  obtain ok t where t: "delegate_call e (Assemble_Table name sql) s = (ok, t)" by fastforce
  have k: "kept sound s t" using call_keeps [OF assms] t by simp
  note at = crawl_at_kept [OF assms(1) k]
  show ?thesis using t milestone_keeps [OF at] kept_trans [OF k] upgrade_keeps(2) [OF at]
    by (cases ok) (fastforce simp: assembleTable_def)+
qed

lemma sequence_keeps:
  assumes "crawl_at p sound s" "\<And>xs b. L xs \<Longrightarrow> L (xs @ [(Assemble_Sequence name n, b)])"
  shows "\<exists>b s'. assembleSequence e name n s = Some (b, s') \<and> kept sound s s'"
proof -
  obtain ok t where t: "delegate_call e (Assemble_Sequence name n) s = (ok, t)" by fastforce
  have k: "kept sound s t" using call_keeps [OF assms] t by simp
  note at = crawl_at_kept [OF assms(1) k]
  show ?thesis using t toward_keeps [OF at, of 1] kept_trans [OF k] upgrade_keeps(2) [OF at]
    by (cases ok) (fastforce simp: assembleSequence_def)+
qed

lemma counted_keeps:
  assumes "crawl_at p sound s" "getNumberOfCells (ce_page ce) \<le> 65535"
  shows "\<exists>s'. markCellAsCounted ce s = Some s' \<and> kept sound s s'"
proof (cases "isIndexPage (ce_page ce) \<or> getNumberOfCells (ce_page ce) \<le> 0")
  case True
  then show ?thesis using kept_refl [OF assms(1)] by (simp add: markCellAsCounted_def Let_def)
next
  case False
  have "weight_ok (rp_pageWeight (cr_user s))" using assms(1) by (simp add: crawl_at_def repair_sound_def)
  then obtain x where x: "fraction_times (rp_pageWeight (cr_user s)) (fraction_make 1 (getNumberOfCells (ce_page ce))) = Some x" "fraction_ok x"
    using cell_weight [of "rp_pageWeight (cr_user s)" "getNumberOfCells (ce_page ce)"] assms(2) False by auto
  then show ?thesis using increaseScore_keeps [OF assms(1) x(2)] False by (simp add: markCellAsCounted_def Let_def)
qed

lemma page_counted_keeps:
  assumes "crawl_at p sound s"
  shows "\<exists>s'. markPageAsCounted page s = Some s' \<and> kept sound s s'"
proof -
  have "fraction_ok (rp_pageWeight (cr_user s))" using assms weight_fraction by (simp add: crawl_at_def repair_sound_def)
  then show ?thesis using increaseScore_keeps [OF assms] kept_refl [OF assms] by (simp add: markPageAsCounted_def)
qed

lemma cell_keeps:
  assumes "crawl_at p sound s" "\<And>xs b. L xs \<Longrightarrow> L (xs @ [(Assemble_Cell ce, b)])" "getNumberOfCells (ce_page ce) \<le> 65535"
  shows "\<exists>b s'. assembleCell e ce s = Some (b, s') \<and> kept sound s s'"
proof -
  obtain ok t where t: "delegate_call e (Assemble_Cell ce) s = (ok, t)" by fastforce
  have k: "kept sound s t" using call_keeps [OF assms(1,2)] t by simp
  note at = crawl_at_kept [OF assms(1) k]
  show ?thesis
  proof (cases ok)
    case True
    obtain u where u: "markCellAsCounted ce t = Some u" "kept sound t u" using counted_keeps [OF at assms(3)] by blast
    obtain b w where w: "towardMilestone e 1 u = Some (b, w)" "kept sound u w" using toward_keeps [OF crawl_at_kept [OF at u(2)]] by blast
    show ?thesis using t True u(1) w(1) kept_trans [OF k kept_trans [OF u(2) w(2)]] by (intro exI [of _ True]) (simp add: assembleCell_def)
  next
    case False
    then show ?thesis using t kept_trans [OF k upgrade_keeps(2) [OF at]] by (intro exI [of _ False]) (simp add: assembleCell_def)
  qed
qed

lemma sqls_keep:
  assumes "crawl_at p sound s" "\<And>xs sql b. L xs \<Longrightarrow> L (xs @ [(Assemble_SQL sql, b)])"
  shows "kept sound s (assembleAssociatedSQLs e sqls s)"
  using assms(1)
proof (induction sqls arbitrary: s)
  case Nil
  then show ?case using kept_refl by (simp add: assembleAssociatedSQLs_def)
next
  case (Cons sql sqls)
  have k: "kept sound s (snd (delegate_call e (Assemble_SQL sql) s))" using call_keeps [OF Cons.prems assms(2)] .
  show ?case using kept_trans [OF k Cons.IH [OF crawl_at_kept [OF Cons.prems k]]] by (simp add: assembleAssociatedSQLs_def)
qed

end

lemma repair_sound_mono: "repair_sound L K r \<Longrightarrow> (K (rp_own r) \<Longrightarrow> K' (rp_own r)) \<Longrightarrow> repair_sound L K' r"
  by (simp add: repair_sound_def)

lemma weight_none: "weight_ok (fraction_of 0)"
  by (simp add: weight_ok_def fraction_of_def)

lemma repair_new_sound: "repair_sound L K (cr_user (repair_new signal p x)) = (L [] \<and> K x)"
  by (simp add: repair_new_def repairman_init_def repair_sound_def weight_none)

text \<open>The call for a new table: after its success the rows belong to that table.\<close>

lemma table_started:
  assumes "repairing e (log_ok V)" "repairing e (table_log V name)" "crawl_at p (repair_sound (log_ok V) K) s"
  shows "\<exists>b s'. assembleTable e name sql s = Some (b, s') \<and> kept (repair_sound (log_ok V) K) s s' \<and> (b \<longrightarrow> crawl_at p (repair_sound (table_log V name) K) s')"
proof -
  let ?J = "repair_sound (log_ok V) K" and ?T = "repair_sound (table_log V name) K"
  obtain ok t where t: "delegate_call e (Assemble_Table name sql) s = (ok, t)" by fastforce
  have k: "kept ?J s t" using repairing.call_keeps [OF assms(1,3), of "Assemble_Table name sql"] t by simp
  note at = crawl_at_kept [OF assms(3) k]
  show ?thesis
  proof (cases ok)
    case False
    then show ?thesis using t kept_trans [OF k repairing.upgrade_keeps(2) [OF assms(1) at]] by (intro exI [of _ False]) (simp add: assembleTable_def)
  next
    case True
    then have "table_log V name (rp_calls (cr_user t))" using at t
      by (auto simp: crawl_at_def repair_sound_def table_log_def delegate_call_def Let_def)
    then have T: "crawl_at p ?T t" using at by (simp add: crawl_at_def repair_sound_def)
    obtain b u where u: "markAsMilestone e t = Some (b, u)" "kept ?T t u" using repairing.milestone_keeps [OF assms(2) T] by blast
    have "kept ?J t u" by (rule kept_mono [OF u(2)]) (simp add: repair_sound_def table_log_def)
    then show ?thesis using t u True kept_trans [OF k] crawl_at_kept [OF T u(2)] by (intro exI [of _ b] exI [of _ u]) (simp add: assembleTable_def)
  qed
qed

text \<open>The size of the file is read before the pager is opened, which stays as good as new.\<close>

definition pager_sized :: "pager \<Rightarrow> pager" where
  "pager_sized p = p\<lparr>pg_file := (pg_file p)\<lparr>pf_file := (pf_file (pg_file p))
     \<lparr>fh_error := wal_thread (pg_wal p), fh_tick := Suc (fh_tick (pf_file (pg_file p)))\<rparr>\<rparr>,
     pg_wal := (pg_wal p)\<lparr>wal_thread := wal_thread (pg_wal p)\<rparr>\<rparr>"

lemma pager_sized_fresh:
  assumes "pager_fresh p"
  shows "pager_fresh (pager_sized p)" "pg_state (pager_sized p) = pg_state p"
    "fh_content (pf_file (pg_file (pager_sized p))) = fh_content (pf_file (pg_file p))"
proof -
  let ?h = "pf_file (pg_file p)"
  let ?h' = "?h\<lparr>fh_error := wal_thread (pg_wal p), fh_tick := Suc (fh_tick ?h)\<rparr>"
  have f: "pager_started ?h p" "fh_fresh ?h" "100 \<le> length (fh_content ?h)" using assms by (simp_all add: pager_fresh_def)
  have "pager_started ?h' (pager_sized p)" unfolding pager_sized_def using pager_started_step [OF f(1), of ?h' "wal_thread (pg_wal p)"] by simp
  moreover have c: "fh_content ?h' = fh_content ?h" by (simp add: fh_content_def)
  ultimately show "pager_fresh (pager_sized p)" using fh_fresh_tick [OF f(2)] f(3) by (simp add: pager_fresh_def pager_sized_def)
  show "pg_state (pager_sized p) = pg_state p" "fh_content (pf_file (pg_file (pager_sized p))) = fh_content ?h"
    using c by (simp_all add: pager_sized_def)
qed

lemma isEmptyDatabase_sized:
  assumes "fh_fresh (pf_file (pg_file (cr_pager s)))" "0 < length (fh_content (pf_file (pg_file (cr_pager s))))"
  shows "isEmptyDatabase e s = (Some False, s\<lparr>cr_pager := pager_sized (cr_pager s)\<rparr>)"
  using assms(2) by (auto simp: isEmptyDatabase_def Let_def fh_fresh_size [OF assms(1)] pager_sized_def)

end
