(* ===== verification/WCDB_Mechanic.thy ===== *)
theory WCDB_Mechanic
  imports WCDB_Repairman "HOL-Library.List_Lexorder"
begin

text \<open>
  \<open>src/src/common/repair/mechanic/Mechanic.cpp\<close>: the repair from the material of a backup.  For every table of
  the material the leaves it names are read again, and the rows of those with the noted
  checksum are handed to the delegate; the tree of a table without rowid is walked over from its root.

  The tables come in the order of the names, which is that of \<open>StringViewMap\<close>; a name is a string without 0.
\<close>

section \<open>Mechanic\<close>

record mechanic =
  me_checksum :: u32
  me_withoutRowId :: bool

definition mechanic_init :: mechanic where
  "mechanic_init = \<lparr>me_checksum = 0, me_withoutRowId = False\<rparr>"

definition mechanic_modify :: "(mechanic \<Rightarrow> mechanic) \<Rightarrow> mechanic repair \<Rightarrow> mechanic repair" where
  "mechanic_modify f = rp_modify (\<lambda>r. r\<lparr>rp_own := f (rp_own r)\<rparr>)"

definition material_contents :: "material \<Rightarrow> content list" where
  "material_contents m =
     sort_key ct_tableName (map snd (filter (\<lambda>(i, c). mt_contentsMap m (ct_tableName c) = Some i) (enumerate 0 (mt_contentsList m))))"

text \<open>\<open>Repairman::onErrorCritical\<close>, which the class inherits.\<close>

definition mechanic_critical :: "mechanic repair \<Rightarrow> mechanic repair" where
  "mechanic_critical = crawl_suspend Crawl_This"

definition mechanic_env :: "assemble_delegate \<Rightarrow> (nat \<Rightarrow> bool) option \<Rightarrow> cipher_delegate \<Rightarrow> mechanic repair_env" where
  "mechanic_env assembler callback cipher =
     \<lparr>re_assemble = assembler, re_callback = callback, re_cipher = cipher, re_critical = mechanic_critical\<rparr>"

definition mechanic_onCellCrawled :: "mechanic repair_env \<Rightarrow> cell \<Rightarrow> mechanic repair \<Rightarrow> mechanic repair option" where
  "mechanic_onCellCrawled e ce s = (if isErrorCritial s then Some s else map_option snd (assembleCell e ce s))"

definition mechanic_willCrawlPage :: "mechanic repair_env \<Rightarrow> crc \<Rightarrow> page \<Rightarrow> int \<Rightarrow> mechanic repair \<Rightarrow> (bool \<times> mechanic repair) option" where
  "mechanic_willCrawlPage e crc page height s =
     (let s = (if pa_type page = LeafTable then snd (increaseProgress e (fraction_value (rp_pageWeight (cr_user s))) s) else s);
          me = rp_own (cr_user s)
      in if isErrorCritial s then Some (False, s)
         else if pa_type page = LeafTable \<and> \<not> me_withoutRowId me
         then do {
           hash \<leftarrow> ud_hash crc (pa_data page);
           if hash \<noteq> me_checksum me
           then Some (False, crawl_markAsCorrupted (repair_onCrawlerError e) (pa_number page) ''Mismatched hash: %u for %u.'' s)
           else map_option (Pair True) (markPageAsCounted page s)
         }
         else if isIndexPage page \<and> me_withoutRowId me then map_option (Pair True) (markPageAsCounted page s)
         else Some (False, crawl_markAsCorrupted (repair_onCrawlerError e) (pa_number page) ''Unexpected page type: %d.'' s))"

definition mechanic_crawler :: "mechanic repair_env \<Rightarrow> crc \<Rightarrow> mechanic repairman crawler" where
  "mechanic_crawler e crc =
     \<lparr>v_this = Crawl_This, v_canCrawlPage = (\<lambda>_ s. Some (True, s)), v_willCrawlPage = mechanic_willCrawlPage e crc,
      v_onCellCrawled = mechanic_onCellCrawled e, v_onCrawlerError = repair_onCrawlerError e\<rparr>"

text \<open>The loop over the leaves of a table: a critical error ends it.\<close>

primrec mechanic_pages :: "mechanic repair_env \<Rightarrow> crc \<Rightarrow> mpage list \<Rightarrow> mechanic repair \<Rightarrow> mechanic repair option" where
  "mechanic_pages e crc [] s = Some s"
| "mechanic_pages e crc (v # vs) s = do {
     let s = mechanic_modify (\<lambda>me. me\<lparr>me_checksum := mp_hash v\<rparr>) s;
     (ok, s) \<leftarrow> crawl (mechanic_crawler e crc) (sint (mp_number v)) s;
     if ok then mechanic_pages e crc vs s
     else let s = tryUpgradeCrawlerError e s in if isErrorCritial s then Some s else mechanic_pages e crc vs s
   }"

definition mechanic_tree :: "mechanic repair_env \<Rightarrow> crc \<Rightarrow> u32 \<Rightarrow> mechanic repair \<Rightarrow> mechanic repair option" where
  "mechanic_tree e crc rootPage s = do {
     (ok, s) \<leftarrow> crawl (mechanic_crawler e crc) (sint rootPage) (mechanic_modify (\<lambda>me. me\<lparr>me_withoutRowId := True\<rparr>) s);
     Some (if ok then s else tryUpgradeCrawlerError e s)
   }"

definition mechanic_content :: "mechanic repair_env \<Rightarrow> crc \<Rightarrow> content \<Rightarrow> mechanic repair \<Rightarrow> mechanic repair option" where
  "mechanic_content e crc c s = do {
     (ok, s) \<leftarrow> assembleTable e (ct_tableName c) (ct_sql c) s;
     if \<not> ok then Some s
     else do {
       (ok, s) \<leftarrow> assembleSequence e (ct_tableName c) (sint (ct_sequence c)) s;
       if \<not> ok then Some s
       else do {
         s \<leftarrow> (if \<not> ad_withoutRowid (re_assemble e) (length (rp_calls (cr_user s)))
               then mechanic_pages e crc (ct_verifiedPagenos c) (mechanic_modify (\<lambda>me. me\<lparr>me_withoutRowId := False\<rparr>) s)
               else if ct_rootPage c > 1 then mechanic_tree e crc (ct_rootPage c) s
               else Some s);
         Some (assembleAssociatedSQLs e (ct_associatedSQLs c) s)
       }
     }
   }"

primrec mechanic_loop :: "mechanic repair_env \<Rightarrow> crc \<Rightarrow> content list \<Rightarrow> mechanic repair \<Rightarrow> mechanic repair option" where
  "mechanic_loop e crc [] s = Some s"
| "mechanic_loop e crc (c # cs) s = (if isErrorCritial s then Some s else mechanic_content e crc c s \<bind> mechanic_loop e crc cs)"

definition mechanic_configure :: "material \<Rightarrow> cipher_delegate \<Rightarrow> pager \<Rightarrow> pager" where
  "mechanic_configure m cipher p =
     (let info = mt_info m;
          p = pager_setReservedBytes (sint (mi_reservedBytes info)) (pager_setPageSize (sint (mi_pageSize info))
                (pager_setWalSalt (mi_walSalt info) (pager_setNBackFill (sint (mi_nBackFill info)) (pager_setWalImportance False p))))
      in if cd_isCipherDB cipher then pager_setCipherContext (cd_context cipher) p else p)"

definition verified_count :: "material \<Rightarrow> int" where
  "verified_count m = fold (\<lambda>c n. narrow32 (n + int (length (ct_verifiedPagenos c)))) (material_contents m) 0"

text \<open>The work on the opened database.\<close>

definition mechanic_assemble :: "mechanic repair_env \<Rightarrow> crc \<Rightarrow> material \<Rightarrow> mechanic repair \<Rightarrow> (bool \<times> mechanic repair) option" where
  "mechanic_assemble e crc m s =
     (let s = s\<lparr>cr_pager := pager_disposeWal (cr_pager s)\<rparr>;
          numberOfPages = verified_count m;
          s = setPageWeight (fraction_make 1 (narrow32 ((if numberOfPages = 0 then 1 else numberOfPages) + pager_getDisposedWalPages (cr_pager s)))) s;
          (ok, s) = markAsAssembling e s
      in do {
        s \<leftarrow> (if ok then mechanic_loop e crc (material_contents m) s \<bind> markAsAssembled e else Some s);
        s \<leftarrow> (if numberOfPages = 0 \<and> \<not> isErrorCritial s \<and> fraction_value (rp_score (cr_user s)) = 0
              then increaseScore (fraction_of 1) s \<bind> markSegmentedScoreCounted else Some s);
        Some (repair_exit e s)
      })"

definition mechanic_work :: "mechanic repair_env \<Rightarrow> crc \<Rightarrow> material \<Rightarrow> mechanic repair \<Rightarrow> (bool \<times> mechanic repair) option" where
  "mechanic_work e crc m s =
     (let (empty, s) = isEmptyDatabase e s
      in case empty of
           None \<Rightarrow> Some (repair_exit_with e False s)
         | Some True \<Rightarrow> Some (repair_exit_with e True s)
         | Some False \<Rightarrow> do {
             (ok, p) \<leftarrow> pager_initialize (mechanic_configure m (re_cipher e) (cr_pager s));
             let s = s\<lparr>cr_pager := p\<rparr>;
             let error = wal_error (pg_wal p);
             if ok then mechanic_assemble e crc m s
             else if isCorruption error then Some (repair_exit_with e True (tryUpgradeCrawlerError e s))
             else Some (repair_exit_with e False (setCriticalError e error s))
           })"

section \<open>The repair returns\<close>

text \<open>The rows of a table: those of the leaves that the material names and whose checksum matches, or those of an index.\<close>

definition mechanic_row :: "crc \<Rightarrow> pager \<Rightarrow> material \<Rightarrow> byte list \<Rightarrow> cell \<Rightarrow> bool" where
  "mechanic_row crc p m name ce \<longleftrightarrow> (\<exists>c \<in> set (material_contents m). ct_tableName c = name \<and>
     (if isIndexPage (ce_page ce) then ct_rootPage c > 1 \<and> (\<exists>n bs ptr. db_page p n = Some bs \<and> cell_shows p (ce_page ce) bs ptr ce)
      else \<exists>v \<in> set (ct_verifiedPagenos c). \<exists>bs ptr. pa_number (ce_page ce) = sint (mp_number v) \<and> db_page p (sint (mp_number v)) = Some bs \<and>
             type_in (sint (mp_number v)) bs = LeafTable \<and> crc bs = mp_hash v \<and> cell_shows p (ce_page ce) bs ptr ce))"

definition leaf_noted :: "crc \<Rightarrow> mpage \<Rightarrow> int \<Rightarrow> byte list \<Rightarrow> bool" where
  "leaf_noted crc v n bs \<longleftrightarrow> type_in n bs = LeafTable \<and> crc bs = mp_hash v"

definition index_entered :: "int \<Rightarrow> byte list \<Rightarrow> bool" where
  "index_entered n bs \<longleftrightarrow> type_in n bs = InteriorIndex \<or> type_in n bs = LeafIndex"

definition mechanic_safe :: "crc \<Rightarrow> material \<Rightarrow> pager \<Rightarrow> bool" where
  "mechanic_safe crc m p \<longleftrightarrow> (\<forall>c \<in> set (material_contents m).
     (\<forall>v \<in> set (ct_verifiedPagenos c). tree_safe (leaf_noted crc v) (\<lambda>_. True) {sint (mp_number v)} p) \<and>
     (ct_rootPage c > 1 \<longrightarrow> (\<exists>T. sint (ct_rootPage c) \<in> T \<and> tree_safe index_entered (\<lambda>_. True) T p)))"

abbreviation leaf_sound :: "crc \<Rightarrow> pager \<Rightarrow> material \<Rightarrow> content \<Rightarrow> (mechanic \<Rightarrow> bool) \<Rightarrow> mechanic repairman \<Rightarrow> bool" where
  "leaf_sound crc p m c \<equiv> repair_sound (table_log (mechanic_row crc p m) (ct_tableName c))"

interpretation mech: repairing "mechanic_env a cb ci" "table_log V name" K for a cb ci V name K
  by unfold_locales (auto simp: mechanic_env_def mechanic_critical_def table_log_def)

interpretation mech_any: repairing "mechanic_env a cb ci" "log_ok V" K for a cb ci V K
  by unfold_locales (auto simp: mechanic_env_def mechanic_critical_def)

text \<open>A row of a page that the crawler has entered is handed on.\<close>

lemma mechanic_cell_returns:
  assumes "crawl_at q (repair_sound (table_log V name) K) s" "V name ce" "page_shows n bs count (ce_page ce)" "type_in n bs \<noteq> Page_Unknown"
  shows "\<exists>s'. mechanic_onCellCrawled (mechanic_env a cb ci) ce s = Some s' \<and> kept (repair_sound (table_log V name) K) s s'"
proof (cases "isErrorCritial s")
  case True
  then show ?thesis using kept_refl [OF assms(1)] by (simp add: mechanic_onCellCrawled_def)
next
  case False
  have "table_log V name xs \<Longrightarrow> table_log V name (xs @ [(Assemble_Cell ce, b)])" for xs b using assms(2) by (simp add: table_log_def)
  from mech.cell_keeps [OF assms(1) this page_shows_cells [OF assms(3,4)], of a cb ci] False show ?thesis by (auto simp: mechanic_onCellCrawled_def)
qed

lemma mechanic_will_returns:
  fixes a cb ci
  defines "e \<equiv> mechanic_env a cb ci"
  assumes "crawl_at p (repair_sound (table_log V name) K) s" "page_shows n bs count page" "K (rp_own (cr_user s)) \<Longrightarrow> rp_own (cr_user s) = me"
  shows "\<exists>b s'. mechanic_willCrawlPage e crc page h s = Some (b, s') \<and> kept (repair_sound (table_log V name) K) s s' \<and>
    (b \<longrightarrow> (if me_withoutRowId me then index_entered n bs else type_in n bs = LeafTable \<and> crc bs = me_checksum me))"
proof -
  let ?J = "repair_sound (table_log V name) K"
  let ?w = "fraction_value (rp_pageWeight (cr_user s))"
  let ?t = "if pa_type page = LeafTable then snd (increaseProgress e ?w s) else s"
  have k: "kept ?J s ?t" using mech.increaseProgress_keeps [OF assms(2), of a cb ci ?w] kept_refl [OF assms(2)] by (simp add: e_def)
  note at = crawl_at_kept [OF assms(2) k]
  have own: "rp_own (cr_user ?t) = me"
    using assms(2,4) by (auto simp: crawl_at_def repair_sound_def increaseProgress_def updateProgress_def Let_def split: option.split)
  have page: "ud_hash crc (pa_data page) = Some (crc bs)" "pa_type page = type_in n bs"
    using assms(3) page_hash unfolding page_shows_def by auto
  obtain u where u: "markPageAsCounted page ?t = Some u" "kept ?J ?t u" using mech.page_counted_keeps [OF at] by blast
  note su = kept_trans [OF k u(2)]
  have bad: "kept ?J s (crawl_markAsCorrupted (repair_onCrawlerError e) i msg ?t)" for i msg
    using kept_trans [OF k mark_keeps(1) [where f = "repair_onCrawlerError e", OF _ at]] mech.upgrade_keeps(3) unfolding e_def by blast
  have i: "isIndexPage page = index_entered n bs" using page(2) by (simp add: isIndexPage_def index_entered_def)
  have "mechanic_willCrawlPage e crc page h s =
     (if isErrorCritial ?t then Some (False, ?t)
      else if pa_type page = LeafTable \<and> \<not> me_withoutRowId me
      then if crc bs \<noteq> me_checksum me
           then Some (False, crawl_markAsCorrupted (repair_onCrawlerError e) (pa_number page) ''Mismatched hash: %u for %u.'' ?t)
           else Some (True, u)
      else if index_entered n bs \<and> me_withoutRowId me then Some (True, u)
      else Some (False, crawl_markAsCorrupted (repair_onCrawlerError e) (pa_number page) ''Unexpected page type: %d.'' ?t))"
    unfolding mechanic_willCrawlPage_def Let_def own i page(1) u(1) by simp
  then show ?thesis using k su bad page(2) by auto
qed

lemma mechanic_leaf_hooks:
  assumes "c \<in> set (material_contents m)" "v \<in> set (ct_verifiedPagenos c)"
  shows "crawl_hooks (mechanic_crawler (mechanic_env a cb ci) crc) (leaf_noted crc v) (\<lambda>_. True) {sint (mp_number v)} p
    (leaf_sound crc p m c (\<lambda>me. me = \<lparr>me_checksum = mp_hash v, me_withoutRowId = False\<rparr>))"
proof unfold_locales
  let ?me = "\<lparr>me_checksum = mp_hash v, me_withoutRowId = False\<rparr>"
  let ?J = "leaf_sound crc p m c (\<lambda>me. me = ?me)" and ?e = "mechanic_env a cb ci"
  fix s :: "mechanic repair" and n bs count page h pa ptr ce
  assume s: "crawl_at p ?J s"
  show "\<exists>b s'. v_canCrawlPage (mechanic_crawler ?e crc) n s = Some (b, s') \<and> kept ?J s s'"
    by (rule exI [of _ True]) (use kept_refl [OF s] in \<open>simp add: mechanic_crawler_def\<close>)
  show "kept ?J s (v_onCrawlerError (mechanic_crawler ?e crc) s)" using mech.upgrade_keeps(3) [OF s] by (simp add: mechanic_crawler_def)
  assume n: "n \<in> {sint (mp_number v)}"
  show "\<exists>b s'. v_willCrawlPage (mechanic_crawler ?e crc) page h s = Some (b, s') \<and> kept ?J s s' \<and> (b \<longrightarrow> leaf_noted crc v n bs)"
    if "page_shows n bs count page"
    using mechanic_will_returns [OF s that, of ?me a cb ci crc h] by (auto simp: mechanic_crawler_def leaf_noted_def)
  show "\<exists>s'. v_onCellCrawled (mechanic_crawler ?e crc) ce s = Some s' \<and> kept ?J s s'"
    if ce: "db_page p n = Some bs" "page_shows n bs count pa" "leaf_noted crc v n bs" "cell_shows p pa bs ptr ce"
  proof -
    have pa: "ce_page ce = pa" "pa_number pa = n" "pa_type pa = LeafTable"
      using ce(2-4) by (simp_all add: cell_shows_def page_shows_def page_ready_def leaf_noted_def)
    then have "mechanic_row crc p m (ct_tableName c) ce" unfolding mechanic_row_def
      using assms n ce by (intro bexI [of _ c]) (auto simp: isIndexPage_def leaf_noted_def)
    moreover have "page_shows n bs count (ce_page ce)" "type_in n bs \<noteq> Page_Unknown" using ce(2,3) pa(1) by (simp_all add: leaf_noted_def)
    ultimately show ?thesis using mechanic_cell_returns [OF s] by (simp add: mechanic_crawler_def)
  qed
qed

lemma mechanic_tree_hooks:
  assumes "c \<in> set (material_contents m)" "ct_rootPage c > 1"
  shows "crawl_hooks (mechanic_crawler (mechanic_env a cb ci) crc) index_entered (\<lambda>_. True) UNIV p (leaf_sound crc p m c me_withoutRowId)"
proof unfold_locales
  let ?J = "leaf_sound crc p m c me_withoutRowId" and ?e = "mechanic_env a cb ci"
  fix s :: "mechanic repair" and n bs count page h pa ptr ce
  assume s: "crawl_at p ?J s"
  show "\<exists>b s'. v_canCrawlPage (mechanic_crawler ?e crc) n s = Some (b, s') \<and> kept ?J s s'"
    by (rule exI [of _ True]) (use kept_refl [OF s] in \<open>simp add: mechanic_crawler_def\<close>)
  show "kept ?J s (v_onCrawlerError (mechanic_crawler ?e crc) s)" using mech.upgrade_keeps(3) [OF s] by (simp add: mechanic_crawler_def)
  have "me_withoutRowId (rp_own (cr_user s))" using s by (simp add: crawl_at_def repair_sound_def)
  then show "\<exists>b s'. v_willCrawlPage (mechanic_crawler ?e crc) page h s = Some (b, s') \<and> kept ?J s s' \<and> (b \<longrightarrow> index_entered n bs)"
    if "page_shows n bs count page"
    using mechanic_will_returns [OF s that refl, of a cb ci crc h] by (auto simp: mechanic_crawler_def)
  show "\<exists>s'. v_onCellCrawled (mechanic_crawler ?e crc) ce s = Some s' \<and> kept ?J s s'"
    if ce: "db_page p n = Some bs" "page_shows n bs count pa" "index_entered n bs" "cell_shows p pa bs ptr ce"
  proof -
    have pa: "ce_page ce = pa" "isIndexPage pa"
      using ce(2-4) by (auto simp: cell_shows_def page_shows_def index_entered_def isIndexPage_def)
    then have "mechanic_row crc p m (ct_tableName c) ce" unfolding mechanic_row_def
      using assms ce by (intro bexI [of _ c]) auto
    moreover have "page_shows n bs count (ce_page ce)" "type_in n bs \<noteq> Page_Unknown" using ce(2,3) pa(1) by (auto simp: index_entered_def)
    ultimately show ?thesis using mechanic_cell_returns [OF s] by (simp add: mechanic_crawler_def)
  qed
qed

lemma mechanic_modify_sound:
  assumes "crawl_at p (repair_sound L K) s" "K' (f (rp_own (cr_user s)))"
  shows "crawl_at p (repair_sound L K') (mechanic_modify f s)" "kept (repair_sound L (\<lambda>_. True)) s (mechanic_modify f s)"
  using assms by (simp_all add: crawl_at_def kept_def repair_sound_def mechanic_modify_def)

lemma mechanic_pages_return:
  assumes "sizes_ok p" "c \<in> set (material_contents m)" "\<And>v. v \<in> set vs \<Longrightarrow> tree_safe (leaf_noted crc v) (\<lambda>_. True) {sint (mp_number v)} p"
    "set vs \<subseteq> set (ct_verifiedPagenos c)" "crawl_at p (leaf_sound crc p m c (\<lambda>me. \<not> me_withoutRowId me)) s"
  shows "\<exists>s'. mechanic_pages (mechanic_env a cb ci) crc vs s = Some s' \<and> kept (leaf_sound crc p m c (\<lambda>me. \<not> me_withoutRowId me)) s s'"
  using assms(3-5)
proof (induction vs arbitrary: s)
  case Nil
  then show ?case using kept_refl by auto
next
  case (Cons v vs)
  let ?e = "mechanic_env a cb ci" and ?J = "leaf_sound crc p m c (\<lambda>me. \<not> me_withoutRowId me)"
  let ?me = "\<lparr>me_checksum = mp_hash v, me_withoutRowId = False\<rparr>"
  let ?Jv = "leaf_sound crc p m c (\<lambda>me. me = ?me)" and ?t = "mechanic_modify (\<lambda>me. me\<lparr>me_checksum := mp_hash v\<rparr>) s"
  have t: "crawl_at p ?Jv ?t" using Cons.prems(3) by (simp add: crawl_at_def repair_sound_def mechanic_modify_def)
  have st: "kept ?J s ?t" using Cons.prems(3) by (simp add: kept_def crawl_at_def repair_sound_def mechanic_modify_def)
  have weak: "?J x" if "?Jv x" for x using repair_sound_mono [OF that] by auto
  have v: "v \<in> set (ct_verifiedPagenos c)" using Cons.prems(2) by simp
  obtain ok u where u: "crawl (mechanic_crawler ?e crc) (sint (mp_number v)) ?t = Some (ok, u)" "kept ?Jv ?t u"
    using crawl_hooks.crawl_returns [OF mechanic_leaf_hooks [OF assms(2) v] t assms(1) Cons.prems(1) [OF list.set_intros(1)] singletonI subset_refl] by blast
  have su: "kept ?J s u" using kept_trans [OF st kept_mono [OF u(2)]] weak by blast
  note cu = crawl_at_kept [OF Cons.prems(3) su]
  let ?w = "tryUpgradeCrawlerError ?e u"
  have sw: "kept ?J s ?w" using kept_trans [OF su mech.upgrade_keeps(1) [OF cu]] .
  have rest: "\<exists>s'. mechanic_pages ?e crc vs x = Some s' \<and> kept ?J s s'" if "kept ?J s x" for x
    using Cons.IH [OF _ _ crawl_at_kept [OF Cons.prems(3) that]] Cons.prems(1,2) kept_trans [OF that] by fastforce
  show ?case using u(1) rest [OF su] rest [OF sw] sw by (simp add: Let_def)
qed

lemma mechanic_tree_returns:
  assumes "sizes_ok p" "c \<in> set (material_contents m)" "ct_rootPage c > 1" "sint (ct_rootPage c) \<in> T" "tree_safe index_entered (\<lambda>_. True) T p"
    "crawl_at p (leaf_sound crc p m c K) s"
  shows "\<exists>s'. mechanic_tree (mechanic_env a cb ci) crc (ct_rootPage c) s = Some s' \<and> kept (leaf_sound crc p m c (\<lambda>_. True)) s s'"
proof -
  let ?e = "mechanic_env a cb ci" and ?J = "leaf_sound crc p m c me_withoutRowId" and ?t = "mechanic_modify (\<lambda>me. me\<lparr>me_withoutRowId := True\<rparr>) s"
  have t: "crawl_at p ?J ?t" "kept (leaf_sound crc p m c (\<lambda>_. True)) s ?t"
    using assms(6) by (simp_all add: crawl_at_def kept_def repair_sound_def mechanic_modify_def)
  obtain ok u where u: "crawl (mechanic_crawler ?e crc) (sint (ct_rootPage c)) ?t = Some (ok, u)" "kept ?J ?t u"
    using crawl_hooks.crawl_returns [OF mechanic_tree_hooks [OF assms(2,3)] t(1) assms(1,5,4) subset_UNIV] by blast
  have w: "kept ?J ?t (tryUpgradeCrawlerError ?e u)" using kept_trans [OF u(2) mech.upgrade_keeps(1) [OF crawl_at_kept [OF t(1) u(2)]]] .
  have weak: "leaf_sound crc p m c (\<lambda>_. True) x" if "?J x" for x using repair_sound_mono [OF that] by simp
  have "kept (leaf_sound crc p m c (\<lambda>_. True)) s x" if "kept ?J ?t x" for x using kept_trans [OF t(2) kept_mono [OF that weak]] .
  then show ?thesis using u w by (cases ok) (simp_all add: mechanic_tree_def)
qed

abbreviation any_sound :: "crc \<Rightarrow> pager \<Rightarrow> material \<Rightarrow> mechanic repairman \<Rightarrow> bool" where
  "any_sound crc p m \<equiv> repair_sound (log_ok (mechanic_row crc p m)) (\<lambda>_. True)"

lemma table_sound_any: "leaf_sound crc p m c K r \<Longrightarrow> any_sound crc p m r"
  by (simp add: repair_sound_def table_log_def)

lemma mechanic_content_returns:
  assumes "sizes_ok p" "c \<in> set (material_contents m)" "mechanic_safe crc m p" "crawl_at p (any_sound crc p m) s"
  shows "\<exists>s'. mechanic_content (mechanic_env a cb ci) crc c s = Some s' \<and> kept (any_sound crc p m) s s'"
proof -
  let ?e = "mechanic_env a cb ci" and ?J = "any_sound crc p m" and ?T = "leaf_sound crc p m c (\<lambda>_. True)"
  have weak: "kept ?J x y" if "kept (leaf_sound crc p m c K) x y" for x y K by (rule kept_mono [OF that]) (rule table_sound_any)
  obtain ok t where t: "assembleTable ?e (ct_tableName c) (ct_sql c) s = Some (ok, t)" "kept ?J s t" "ok \<longrightarrow> crawl_at p ?T t"
    using table_started [OF mech_any.repairing_axioms mech.repairing_axioms assms(4)] by blast
  show ?thesis
  proof (cases ok)
    case False
    then show ?thesis using t(1,2) by (simp add: mechanic_content_def)
  next
    case True
    then have T: "crawl_at p ?T t" using t(3) by simp
    have "table_log V name xs \<Longrightarrow> table_log V name (xs @ [(Assemble_Sequence n k, b)])" for V name xs n k b by (simp add: table_log_def)
    then obtain ok' u where u: "assembleSequence ?e (ct_tableName c) (sint (ct_sequence c)) t = Some (ok', u)" "kept ?T t u"
      using mech.sequence_keeps [OF T, of "ct_tableName c" "sint (ct_sequence c)" a cb ci] by blast
    have su: "kept ?J s u" using kept_trans [OF t(2) weak [OF u(2)]] .
    note U = crawl_at_kept [OF T u(2)]
    show ?thesis
    proof (cases ok')
      case False
      then show ?thesis using t(1) True u(1) su by (simp add: mechanic_content_def)
    next
      case ok': True
      let ?walk = "if \<not> ad_withoutRowid (re_assemble ?e) (length (rp_calls (cr_user u)))
               then mechanic_pages ?e crc (ct_verifiedPagenos c) (mechanic_modify (\<lambda>me. me\<lparr>me_withoutRowId := False\<rparr>) u)
               else if ct_rootPage c > 1 then mechanic_tree ?e crc (ct_rootPage c) u else Some u"
      have "\<exists>w. ?walk = Some w \<and> kept ?J s w"
      proof -
        let ?w = "mechanic_modify (\<lambda>me. me\<lparr>me_withoutRowId := False\<rparr>) u"
        have w: "crawl_at p (leaf_sound crc p m c (\<lambda>me. \<not> me_withoutRowId me)) ?w" "kept ?T u ?w"
          using mechanic_modify_sound [OF U, of "\<lambda>me. \<not> me_withoutRowId me" "\<lambda>me. me\<lparr>me_withoutRowId := False\<rparr>"] by simp_all
        have safe: "tree_safe (leaf_noted crc v) (\<lambda>_. True) {sint (mp_number v)} p" if "v \<in> set (ct_verifiedPagenos c)" for v
          using assms(2,3) that by (auto simp: mechanic_safe_def)
        obtain x where x: "mechanic_pages ?e crc (ct_verifiedPagenos c) ?w = Some x" "kept (leaf_sound crc p m c (\<lambda>me. \<not> me_withoutRowId me)) ?w x"
          using mechanic_pages_return [OF assms(1,2) safe subset_refl w(1)] by blast
        have pages: "kept ?J s x" using kept_trans [OF su kept_trans [OF weak [OF w(2)] weak [OF x(2)]]] .
        have "\<exists>y. mechanic_tree ?e crc (ct_rootPage c) u = Some y \<and> kept ?J s y" if big: "ct_rootPage c > 1"
        proof -
          obtain T where "sint (ct_rootPage c) \<in> T" "tree_safe index_entered (\<lambda>_. True) T p" using assms(2,3) big by (auto simp: mechanic_safe_def)
          from mechanic_tree_returns [OF assms(1,2) big this U] show ?thesis using kept_trans [OF su weak] by blast
        qed
        then show ?thesis using x(1) pages su by auto
      qed
      then obtain w where w: "?walk = Some w" "kept ?J s w" by blast
      have "kept ?J s (assembleAssociatedSQLs ?e (ct_associatedSQLs c) w)"
        using kept_trans [OF w(2) mech_any.sqls_keep [OF crawl_at_kept [OF assms(4) w(2)]]] by simp
      then show ?thesis using t(1) True u(1) ok' w(1) unfolding mechanic_content_def by (simp del: mechanic_pages.simps)
    qed
  qed
qed

lemma mechanic_loop_returns:
  assumes "sizes_ok p" "set cs \<subseteq> set (material_contents m)" "mechanic_safe crc m p" "crawl_at p (any_sound crc p m) s"
  shows "\<exists>s'. mechanic_loop (mechanic_env a cb ci) crc cs s = Some s' \<and> kept (any_sound crc p m) s s'"
  using assms(2,4)
proof (induction cs arbitrary: s)
  case Nil
  then show ?case using kept_refl by auto
next
  case (Cons c cs)
  obtain t where t: "mechanic_content (mechanic_env a cb ci) crc c s = Some t" "kept (any_sound crc p m) s t"
    using mechanic_content_returns [OF assms(1) _ assms(3) Cons.prems(2), of c a cb ci] Cons.prems(1) by auto
  then show ?case using Cons.IH [OF _ crawl_at_kept [OF Cons.prems(2) t(2)]] Cons.prems kept_trans [OF t(2)] kept_refl [OF Cons.prems(2)] by auto
qed

section \<open>The whole repair\<close>

text \<open>The pages of the log are dropped before anything is read.\<close>

lemma dispose_ok:
  assumes "pager_ok p" "pg_cache p = pgc_init 16777216"
  shows "pager_ok (pager_disposeWal p)"
  using assms unfolding pager_ok_def
  by (auto simp: pager_files_ok_def Let_def pager_disposeWal_def wal_dispose_def pgc_init_def lru_init_def lru_abs_def)

lemma dispose_sizes: "sizes_ok (pager_disposeWal p) = sizes_ok p"
  by (simp add: sizes_ok_def pager_getUsableSize_def pager_disposeWal_def)

lemma verified_sum:
  assumes "0 \<le> n" "n + int (sum_list (map (length \<circ> ct_verifiedPagenos) cs)) < 2147483648"
  shows "fold (\<lambda>c n. narrow32 (n + int (length (ct_verifiedPagenos c)))) cs n = n + int (sum_list (map (length \<circ> ct_verifiedPagenos) cs))"
  using assms
proof (induction cs arbitrary: n)
  case (Cons c cs)
  have "narrow32 (n + int (length (ct_verifiedPagenos c))) = n + int (length (ct_verifiedPagenos c))"
    using Cons.prems by (intro narrow32_id) auto
  then show ?case using Cons.IH [of "n + int (length (ct_verifiedPagenos c))"] Cons.prems by simp
qed simp

definition verified_total :: "material \<Rightarrow> nat" where
  "verified_total m = sum_list (map (length \<circ> ct_verifiedPagenos) (material_contents m))"

lemma mechanic_assemble_returns:
  fixes a cb ci
  defines "e \<equiv> mechanic_env a cb ci"
  assumes "pager_ok p" "sizes_ok p" "mechanic_safe crc m p" "p = pager_disposeWal (cr_pager s)"
    "int (verified_total m) + pager_getDisposedWalPages p < 2147483647" "any_sound crc p m (cr_user s)"
  shows "\<exists>ok s'. mechanic_assemble e crc m s = Some (ok, s') \<and> any_sound crc p m (cr_user s')"
proof -
  let ?J = "any_sound crc p m" and ?n = "verified_count m" and ?d = "pager_getDisposedWalPages p"
  let ?w = "(if ?n = 0 then 1 else ?n) + ?d"
  have d: "0 \<le> ?d" by (simp add: pager_getDisposedWalPages_def wal_getDisposedPages_def)
  have n: "?n = int (verified_total m)" using verified_sum [of 0 "material_contents m"] assms(6) d by (simp add: verified_count_def verified_total_def)
  have w: "0 < ?w" "?w < 2147483648" using n d assms(6) by auto
  then have "narrow32 ?w = ?w" by (intro narrow32_id) auto
  then have wt: "weight_ok (fraction_make 1 (narrow32 ?w))" using w by (simp add: weight_ok_def fraction_make_def)
  let ?t = "setPageWeight (fraction_make 1 (narrow32 ?w)) (s\<lparr>cr_pager := p\<rparr>)"
  have t: "crawl_at p ?J ?t" using assms(2,7) wt by (simp add: crawl_at_def setPageWeight_def repair_sound_def)
  obtain ok u where u: "markAsAssembling e ?t = (ok, u)" by fastforce
  have k: "kept ?J ?t u" using mech_any.assembling_keeps [OF t, of a cb ci] u unfolding e_def by simp
  note cu = crawl_at_kept [OF t k]
  obtain x where x: "(if ok then mechanic_loop e crc (material_contents m) u \<bind> markAsAssembled e else Some u) = Some x" "kept ?J u x"
  proof (cases ok)
    case True
    obtain y where y: "mechanic_loop e crc (material_contents m) u = Some y" "kept ?J u y"
      using mechanic_loop_returns [OF assms(3) subset_refl assms(4) cu] unfolding e_def by blast
    obtain z where "markAsAssembled e y = Some z" "kept ?J y z" using mech_any.assembled_keeps [OF crawl_at_kept [OF cu y(2)]] unfolding e_def by blast
    then show ?thesis using that [of z] True y kept_trans by auto
  next
    case False
    then show ?thesis using that [of u] kept_refl [OF cu] by simp
  qed
  note cx = crawl_at_kept [OF cu x(2)]
  have "\<exists>y. increaseScore (fraction_of 1) x \<bind> markSegmentedScoreCounted = Some y \<and> kept ?J x y"
  proof -
    obtain y where y: "increaseScore (fraction_of 1) x = Some y" "kept ?J x y" using mech_any.increaseScore_keeps [OF cx fraction_of_ok(2)] by blast
    obtain z where "markSegmentedScoreCounted y = Some z" "kept ?J y z" using mech_any.score_keeps [OF crawl_at_kept [OF cx y(2)]] by blast
    then show ?thesis using y kept_trans by fastforce
  qed
  then obtain y where y: "(if ?n = 0 \<and> \<not> isErrorCritial x \<and> fraction_value (rp_score (cr_user x)) = 0
      then increaseScore (fraction_of 1) x \<bind> markSegmentedScoreCounted else Some x) = Some y" "kept ?J x y"
    using kept_refl [OF cx] by (cases "?n = 0 \<and> \<not> isErrorCritial x \<and> fraction_value (rp_score (cr_user x)) = 0") auto
  note cy = crawl_at_kept [OF cx y(2)]
  have "mechanic_assemble e crc m s = Some (repair_exit e y)"
    unfolding mechanic_assemble_def Let_def assms(5) [symmetric] using u x(1) y(1) by simp
  moreover have "?J (cr_user (snd (repair_exit e y)))" using mech_any.exit_keeps(1) [OF cy, of a cb ci] unfolding e_def by (simp add: kept_def)
  ultimately show ?thesis by (metis prod.collapse)
qed

text \<open>The pager that is opened, and the database that is read: the file without the log.\<close>

definition mechanic_pager :: "mechanic repair_env \<Rightarrow> material \<Rightarrow> mechanic repair \<Rightarrow> pager" where
  "mechanic_pager e m s = mechanic_configure m (re_cipher e) (cr_pager (snd (isEmptyDatabase e s)))"

definition mechanic_database :: "mechanic repair_env \<Rightarrow> material \<Rightarrow> mechanic repair \<Rightarrow> pager" where
  "mechanic_database e m s = pager_disposeWal (snd (the (pager_initialize (mechanic_pager e m s))))"

definition mechanic_ready :: "mechanic repair_env \<Rightarrow> crc \<Rightarrow> material \<Rightarrow> mechanic repair \<Rightarrow> bool" where
  "mechanic_ready e crc m s \<longleftrightarrow> \<not> cd_isCipherDB (re_cipher e) \<and>
     pager_fresh (mechanic_configure m (re_cipher e) (cr_pager s)) \<and> pg_state (cr_pager s) = State_None \<and>
     (fst (the (pager_initialize (mechanic_pager e m s))) \<longrightarrow>
        (let p = mechanic_database e m s
         in pg_pageSize p dvd int (length (fh_content (pf_file (pg_file (cr_pager s))))) \<and> mechanic_safe crc m p \<and>
            int (verified_total m) + pager_getDisposedWalPages p < 2147483647))"

lemma configure_sized: "\<not> cd_isCipherDB ci \<Longrightarrow> mechanic_configure m ci (pager_sized p) = pager_sized (mechanic_configure m ci p)"
  by (simp add: pager_sized_def mechanic_configure_def Let_def pager_setReservedBytes_def pager_setPageSize_def pager_setWalSalt_def pager_setNBackFill_def
      pager_setWalImportance_def wal_setSalt_def wal_setNBackFill_def wal_setShmLegality_def)

lemma configure_keeps:
  "\<not> cd_isCipherDB ci \<Longrightarrow> pg_file (mechanic_configure m ci p) = pg_file p" "\<not> cd_isCipherDB ci \<Longrightarrow> pg_state (mechanic_configure m ci p) = pg_state p"
  by (simp_all add: mechanic_configure_def Let_def pager_setReservedBytes_def pager_setPageSize_def pager_setWalSalt_def pager_setNBackFill_def
      pager_setWalImportance_def wal_setSalt_def wal_setNBackFill_def wal_setShmLegality_def)

lemma mechanic_opens:
  fixes a cb ci
  defines "e \<equiv> mechanic_env a cb ci"
  assumes "mechanic_ready e crc m s"
  obtains t where "isEmptyDatabase e s = (Some False, t)" "cr_user t = cr_user s" "pager_fresh (mechanic_pager e m s)" "pg_state (mechanic_pager e m s) = State_None"
    "mechanic_pager e m s = mechanic_configure m ci (cr_pager t)"
    "fh_content (pf_file (pg_file (mechanic_pager e m s))) = fh_content (pf_file (pg_file (cr_pager s)))"
proof -
  let ?p = "cr_pager s" and ?q = "mechanic_configure m ci (cr_pager s)"
  have ci: "re_cipher e = ci" by (simp add: e_def mechanic_env_def)
  have nc: "\<not> cd_isCipherDB ci" and fresh: "pager_fresh ?q" and state: "pg_state ?p = State_None"
    using assms(2) by (simp_all add: mechanic_ready_def ci)
  have "fh_fresh (pf_file (pg_file ?p))" "0 < length (fh_content (pf_file (pg_file ?p)))"
    using fresh by (auto simp: pager_fresh_def configure_keeps [OF nc])
  then have empty: "isEmptyDatabase e s = (Some False, s\<lparr>cr_pager := pager_sized ?p\<rparr>)" by (rule isEmptyDatabase_sized)
  have pager: "mechanic_pager e m s = pager_sized ?q" by (simp add: mechanic_pager_def ci empty configure_sized [OF nc])
  show ?thesis
    using that [OF empty] pager_sized_fresh [OF fresh] state pager by (simp add: configure_keeps [OF nc] configure_sized [OF nc])
qed

lemma mechanic_work_cases:
  fixes a cb ci
  defines "e \<equiv> mechanic_env a cb ci"
  assumes "mechanic_ready e crc m s" "any_sound crc (mechanic_database e m s) m (cr_user s)"
  shows "\<exists>ok s'. mechanic_work e crc m s = Some (ok, s') \<and> any_sound crc (mechanic_database e m s) m (cr_user s')"
proof -
  let ?p = "mechanic_database e m s" and ?q = "mechanic_pager e m s"
  let ?J = "any_sound crc ?p m"
  obtain t where t: "isEmptyDatabase e s = (Some False, t)" "cr_user t = cr_user s" "pager_fresh ?q" "pg_state ?q = State_None"
    "?q = mechanic_configure m ci (cr_pager t)" "fh_content (pf_file (pg_file ?q)) = fh_content (pf_file (pg_file (cr_pager s)))"
    using mechanic_opens [OF assms(2) [unfolded e_def]] unfolding e_def by blast
  have ci: "re_cipher e = ci" by (simp add: e_def mechanic_env_def)
  obtain ok p where p: "pager_initialize ?q = Some (ok, p)" "ok \<longrightarrow> sizes_ok p"
    "ok \<and> pg_pageSize p dvd int (length (fh_content (pf_file (pg_file ?q)))) \<longrightarrow> pager_ok p" "ok \<longrightarrow> pg_cache p = pgc_init 16777216"
    using pager_initialize_fresh [OF t(3,4)] .
  let ?u = "t\<lparr>cr_pager := p\<rparr>"
  have work: "mechanic_work e crc m s =
     (if ok then mechanic_assemble e crc m ?u
      else if isCorruption (wal_error (pg_wal p)) then Some (repair_exit_with e True (tryUpgradeCrawlerError e ?u))
      else Some (repair_exit_with e False (setCriticalError e (wal_error (pg_wal p)) ?u)))"
    using t(1) p(1) t(5) by (simp add: mechanic_work_def ci Let_def)
  have J: "?J (cr_user ?u)" using assms(3) t(2) by simp
  show ?thesis
  proof (cases ok)
    case True
    have db: "?p = pager_disposeWal p" using p(1) by (simp add: mechanic_database_def)
    have ready: "pg_pageSize ?p dvd int (length (fh_content (pf_file (pg_file (cr_pager s)))))" "mechanic_safe crc m ?p"
      "int (verified_total m) + pager_getDisposedWalPages ?p < 2147483647" using assms(2) p(1) True by (simp_all add: mechanic_ready_def Let_def)
    have "pg_pageSize ?p = pg_pageSize p" by (simp add: db pager_disposeWal_def)
    then have "pager_ok p" using p(3) True ready(1) t(6) by simp
    moreover have "pg_cache p = pgc_init 16777216" using p(4) True by simp
    ultimately have "pager_ok ?p" "sizes_ok ?p" using dispose_ok dispose_sizes p(2) True db by simp_all
    from mechanic_assemble_returns [OF this ready(2) _ ready(3), of ?u a cb ci] J show ?thesis using work True db unfolding e_def by simp
  next
    case False
    have "?J (cr_user (snd (repair_exit_with e b x)))" if "?J (cr_user x)" for b x
      using that by (auto simp: repair_exit_with_def finishProgress_def updateProgress_def Let_def repair_sound_def split: option.split)
    moreover have "?J (cr_user (tryUpgradeCrawlerError e ?u))" "?J (cr_user (setCriticalError e y ?u))" for y
      using J by (auto simp: e_def mechanic_env_def mechanic_critical_def tryUpgradeCrawlerError_def tryUpgradeError_def setSeverity_def setCriticalError_def Let_def repair_sound_def)
    ultimately show ?thesis using work False by (metis prod.collapse)
  qed
qed

section \<open>The rows that are handed on\<close>

definition assembled_cells :: "assemble_log \<Rightarrow> cell list" where
  "assembled_cells calls = concat (map (\<lambda>(c, _). case c of Assemble_Cell ce \<Rightarrow> [ce] | _ \<Rightarrow> []) calls)"

definition halts :: "'x repair \<Rightarrow> bool" where
  "halts s \<longleftrightarrow> co_suspend (cr_objects s Crawl_This)"

text \<open>A step that hands on some rows, and that suspends the walk when an error becomes critical.\<close>

definition handed :: "cell list \<Rightarrow> 'x repair \<Rightarrow> 'x repair \<Rightarrow> bool" where
  "handed ces s s' \<longleftrightarrow> assembled_cells (rp_calls (cr_user s')) = assembled_cells (rp_calls (cr_user s)) @ ces \<and> (halts s \<longrightarrow> halts s') \<and>
     ((isErrorCritial s \<longrightarrow> halts s) \<longrightarrow> isErrorCritial s' \<longrightarrow> halts s')"

lemma handed_refl: "handed [] s s"
  by (simp add: handed_def)

lemma handed_trans: "handed xs s t \<Longrightarrow> handed ys t u \<Longrightarrow> handed (xs @ ys) s u"
  by (auto simp: handed_def)

lemma handed_none: "handed [] s t \<Longrightarrow> handed ys t u \<Longrightarrow> handed ys s u" "handed xs s t \<Longrightarrow> handed [] t u \<Longrightarrow> handed xs s u"
  using handed_trans [of "[]" s t ys u] handed_trans [of xs s t "[]" u] by simp_all

lemma handed_modify: "rp_calls (f (cr_user s)) = rp_calls (cr_user s) \<Longrightarrow> rp_severity (f (cr_user s)) = rp_severity (cr_user s) \<Longrightarrow> handed [] s (rp_modify f s)"
  by (simp add: handed_def halts_def isErrorCritial_def)

lemma handed_pager: "handed [] s (s\<lparr>cr_pager := p\<rparr>)" "handed [] s (s\<lparr>cr_readings := n\<rparr>)"
  by (simp_all add: handed_def halts_def isErrorCritial_def)

lemma handed_update: "(\<And>c. co_suspend c \<Longrightarrow> co_suspend (f c)) \<Longrightarrow> handed [] s (crawl_update i f s)"
  by (auto simp: handed_def halts_def isErrorCritial_def crawl_update_def)

lemma handed_call: "handed (case c of Assemble_Cell ce \<Rightarrow> [ce] | _ \<Rightarrow> []) s (snd (delegate_call e c s))"
  by (simp add: handed_def halts_def isErrorCritial_def delegate_call_def Let_def assembled_cells_def)

lemma handed_severity:
  assumes "re_critical e = mechanic_critical"
  shows "handed [] s (setSeverity e n s)" "handed [] s (tryUpgradeError e x s)" "handed [] s (tryUpgradeCrawlerError e s)"
    "handed [] s (tryUpgrateAssembleError e s)" "handed [] s (repair_onCrawlerError e s)"
proof -
  show "handed [] s (setSeverity e n s)" for s n
    using assms by (auto simp: handed_def halts_def isErrorCritial_def setSeverity_def Let_def mechanic_critical_def crawl_suspend_def crawl_update_def)
  then have "handed [] s (tryUpgradeError e x s)" for s x
    using handed_none(1) [OF handed_modify [of "\<lambda>r. r\<lparr>rp_error := x\<rparr>" s]] by (simp add: tryUpgradeError_def Let_def handed_refl)
  then show "handed [] s (tryUpgradeError e x s)" "handed [] s (tryUpgradeCrawlerError e s)"
    "handed [] s (tryUpgrateAssembleError e s)" "handed [] s (repair_onCrawlerError e s)"
    by (simp_all add: tryUpgradeCrawlerError_def tryUpgrateAssembleError_def repair_onCrawlerError_def Let_def)
qed

lemma handed_progress: "handed [] s (snd (increaseProgress e x s))"
  by (auto simp: handed_def halts_def isErrorCritial_def increaseProgress_def updateProgress_def Let_def split: option.split)

lemma handed_scores:
  "increaseScore x s = Some s' \<Longrightarrow> handed [] s s'" "markSegmentedScoreCounted s = Some s' \<Longrightarrow> handed [] s s'"
  "markCellAsCounted ce s = Some s' \<Longrightarrow> handed [] s s'" "markPageAsCounted page s = Some s' \<Longrightarrow> handed [] s s'"
proof -
  show score: "handed [] s s'" if "increaseScore x s = Some s'" for x s s'
    using that by (auto simp: increaseScore_def bind_Some_conv intro: handed_modify)
  show "markSegmentedScoreCounted s = Some s' \<Longrightarrow> handed [] s s'" by (auto simp: markSegmentedScoreCounted_def bind_Some_conv intro: handed_modify)
  show "markCellAsCounted ce s = Some s' \<Longrightarrow> handed [] s s'" "markPageAsCounted page s = Some s' \<Longrightarrow> handed [] s s'"
    using score by (auto simp: handed_refl markCellAsCounted_def markPageAsCounted_def Let_def bind_Some_conv split: if_splits)
qed

lemma handed_milestone:
  assumes "re_critical e = mechanic_critical" "markAsMilestone e s = Some (b, s')"
  shows "handed [] s s'"
proof -
  let ?s = "rp_modify (\<lambda>r. r\<lparr>rp_mile := 0\<rparr>) s"
  obtain ok t where t: "delegate_call e Mark_Milestone ?s = (ok, t)" by fastforce
  have "handed [] ?s t" using handed_call [of Mark_Milestone ?s e] t by simp
  then have st: "handed [] s t" using handed_none(1) [OF handed_modify [of "\<lambda>r. r\<lparr>rp_mile := 0\<rparr>" s]] by simp
  show ?thesis
  proof (cases ok)
    case True
    then show ?thesis using assms(2) t handed_none(1) [OF st] handed_scores(2) by (auto simp: markAsMilestone_def Let_def)
  next
    case False
    have "handed [] t (markSegmentedScoreDropped t)" by (simp add: markSegmentedScoreDropped_def handed_modify)
    then show ?thesis using assms(2) t False handed_none(1) [OF st handed_none(1)] handed_severity(4) [OF assms(1)] by (auto simp: markAsMilestone_def Let_def)
  qed
qed

lemma handed_cell:
  assumes "re_critical e = mechanic_critical" "assembleCell e ce s = Some (b, s')"
  shows "handed [ce] s s'"
proof -
  obtain ok t where t: "delegate_call e (Assemble_Cell ce) s = (ok, t)" by fastforce
  have st: "handed [ce] s t" using handed_call [of "Assemble_Cell ce" s e] t by simp
  show ?thesis
  proof (cases ok)
    case True
    then obtain u b' where u: "markCellAsCounted ce t = Some u" "towardMilestone e 1 u = Some (b', s')"
      using assms(2) t by (auto simp: assembleCell_def bind_Some_conv)
    let ?u = "rp_modify (\<lambda>r. r\<lparr>rp_mile := narrow32 (rp_mile r + 1)\<rparr>) u"
    have su: "handed [ce] s ?u" using handed_none(2) [OF handed_none(2) [OF st handed_scores(3) [OF u(1)]] handed_modify] by simp
    show ?thesis
    proof (cases "rp_mile (cr_user ?u) > rp_milestone (cr_user ?u)")
      case True
      then have "markAsMilestone e ?u = Some (b', s')" using u(2) by (simp add: towardMilestone_def Let_def)
      then show ?thesis using handed_none(2) [OF su handed_milestone [OF assms(1)]] by simp
    next
      case False
      then show ?thesis using u(2) su by (simp add: towardMilestone_def Let_def)
    qed
  next
    case False
    then show ?thesis using assms(2) t handed_none(2) [OF st handed_severity(4) [OF assms(1)]] by (simp add: assembleCell_def)
  qed
qed

lemma handed_corrupted:
  assumes "re_critical e = mechanic_critical"
  shows "handed [] s (crawl_markAsCorrupted (repair_onCrawlerError e) n m s)"
  unfolding crawl_markAsCorrupted_def by (rule handed_none(1) [OF handed_pager(1) handed_severity(5) [OF assms]])

text \<open>Reading the flag of the suspension.\<close>

lemma handed_suspended:
  assumes "crawl_suspended Crawl_This s = (b, t)"
  shows "handed [] s t" "halts t = b" "halts s \<Longrightarrow> b"
  using assms by (auto simp: crawl_suspended_def Let_def handed_def halts_def isErrorCritial_def crawl_update_def)


abbreviation guarded :: "'x repair \<Rightarrow> bool" where
  "guarded s \<equiv> (isErrorCritial s \<longrightarrow> halts s)"

text \<open>What a cell, and what a page of the material gives: the cells that can be read, in the order of the pointers.\<close>

definition cell_out :: "pager \<Rightarrow> page \<Rightarrow> byte list \<Rightarrow> int \<Rightarrow> cell option \<Rightarrow> bool" where
  "cell_out p pa bs ptr out \<longleftrightarrow> (case out of
     Some ce \<Rightarrow> cell_shows p pa bs (nat ptr) ce
   | None \<Rightarrow> \<exists>q ce q'. pager_ok q \<and> pager_same p q \<and> cell_initialize (cell_init ptr pa, q) = Some (False, ce, q'))"

definition read_cells :: "cell option list \<Rightarrow> cell list" where
  "read_cells outs = concat (map (\<lambda>x. case x of Some ce \<Rightarrow> [ce] | None \<Rightarrow> []) outs)"

definition page_rows :: "crc \<Rightarrow> pager \<Rightarrow> mpage \<Rightarrow> cell list \<Rightarrow> bool" where
  "page_rows crc p v rows \<longleftrightarrow>
     (let n = sint (mp_number v)
      in (rows = [] \<and> (\<exists>q pa q'. pager_ok q \<and> pager_same p q \<and> page_initialize (page_init n, q) = Some (False, pa, q'))) \<or>
         (\<exists>bs. db_page p n = Some bs \<and>
            (if leaf_noted crc v n bs
             then \<exists>pa outs. page_shows n bs (pager_getNumberOfPages p) pa \<and> list_all2 (cell_out p pa bs) (pointers_in n bs) outs \<and> rows = read_cells outs
             else rows = [])))"

lemma mechanic_crawler_methods:
  "v_this (mechanic_crawler e crc) = Crawl_This" "v_canCrawlPage (mechanic_crawler e crc) = (\<lambda>_ s. Some (True, s))"
  "v_willCrawlPage (mechanic_crawler e crc) = mechanic_willCrawlPage e crc" "v_onCellCrawled (mechanic_crawler e crc) = mechanic_onCellCrawled e"
  "v_onCrawlerError (mechanic_crawler e crc) = repair_onCrawlerError e"
  by (simp_all add: mechanic_crawler_def)

lemma handed_will:
  fixes a cb ci
  defines "e \<equiv> mechanic_env a cb ci"
  assumes "mechanic_willCrawlPage e crc page h s = Some (b, s')" "page_shows n bs count page"
    "rp_own (cr_user s) = \<lparr>me_checksum = mp_hash v, me_withoutRowId = False\<rparr>"
  shows "handed [] s s'" "guarded s \<Longrightarrow> \<not> b \<Longrightarrow> halts s' \<or> \<not> leaf_noted crc v n bs"
proof -
  let ?w = "fraction_value (rp_pageWeight (cr_user s))"
  let ?t = "if pa_type page = LeafTable then snd (increaseProgress e ?w s) else s"
  have st: "handed [] s ?t" by (simp add: handed_progress handed_refl)
  have own: "rp_own (cr_user ?t) = rp_own (cr_user s)"
    by (auto simp: increaseProgress_def updateProgress_def Let_def split: option.split)
  have page: "ud_hash crc (pa_data page) = Some (crc bs)" "pa_type page = type_in n bs"
    using assms(3) page_hash unfolding page_shows_def by auto
  have crit: "re_critical e = mechanic_critical" by (simp add: e_def mechanic_env_def)
  have eq: "mechanic_willCrawlPage e crc page h s =
     (if isErrorCritial ?t then Some (False, ?t)
      else if leaf_noted crc v n bs then map_option (Pair True) (markPageAsCounted page ?t)
      else Some (False, crawl_markAsCorrupted (repair_onCrawlerError e) (pa_number page)
        (if type_in n bs = LeafTable then ''Mismatched hash: %u for %u.'' else ''Unexpected page type: %d.'') ?t))"
    unfolding mechanic_willCrawlPage_def Let_def own page(1) assms(4) by (auto simp: leaf_noted_def page(2))
  have "handed [] ?t (crawl_markAsCorrupted (repair_onCrawlerError e) i msg ?t)" for i msg by (rule handed_corrupted [OF crit])
  then show "handed [] s s'" using assms(2) eq handed_none(1) [OF st] st handed_scores(4) [of page ?t s'] by (auto split: if_splits)
  assume g: "guarded s" "\<not> b"
  have "guarded ?t" using st g(1) unfolding handed_def by blast
  then show "halts s' \<or> \<not> leaf_noted crc v n bs" using assms(2) g(2) unfolding eq by (auto split: if_splits)
qed

lemma handed_cells:
  fixes a cb ci crc v p m c
  defines "e \<equiv> mechanic_env a cb ci" and "n \<equiv> sint (mp_number v)"
  defines "J \<equiv> leaf_sound crc p m c (\<lambda>me. me = \<lparr>me_checksum = mp_hash v, me_withoutRowId = False\<rparr>)"
  assumes "c \<in> set (material_contents m)" "v \<in> set (ct_verifiedPagenos c)" "sizes_ok p"
    "db_page p n = Some bs" "page_shows n bs count pa" "leaf_noted crc v n bs"
  shows "\<forall>ptr \<in> set ptrs. cell_safe pa bs ptr \<Longrightarrow> crawl_at p J s \<Longrightarrow> guarded s \<Longrightarrow>
    crawl_each Crawl_This (crawl_cell (mechanic_crawler e crc) pa (\<lambda>ce pages s. map_option (Pair pages) (v_onCellCrawled (mechanic_crawler e crc) ce s)))
      ptrs P s = Some (b, P', s') \<Longrightarrow>
    guarded s' \<and> (halts s' \<or> (\<exists>outs. list_all2 (cell_out p pa bs) ptrs outs \<and> handed (read_cells outs) s s'))"
proof (induction ptrs arbitrary: P s)
  case Nil
  then show ?case by (auto simp: read_cells_def handed_refl)
next
  case (Cons ptr ptrs)
  let ?V = "mechanic_crawler e crc"
  have crit: "re_critical e = mechanic_critical" by (simp add: e_def mechanic_env_def)
  obtain stop t where t: "crawl_suspended Crawl_This s = (stop, t)" by fastforce
  note st = handed_suspended [OF t]
  have gt: "guarded t" using st(1) Cons.prems(3) unfolding handed_def by blast
  have "kept J s t" using t Cons.prems(2) by (auto simp: crawl_suspended_def kept_def crawl_at_def Let_def)
  note at = crawl_at_kept [OF Cons.prems(2) this]
  show ?case
  proof (cases stop)
    case True
    then show ?thesis using Cons.prems(4) t st gt by simp
  next
    case False
    have pt: "pager_ok (cr_pager t)" "pager_same p (cr_pager t)" using at by (simp_all add: crawl_at_def)
    have ready: "page_ready n bs pa" "pa_type pa \<noteq> InteriorTable" "cell_safe pa bs ptr"
      using assms(8,9) Cons.prems(1) by (simp_all add: page_shows_def leaf_noted_def)
    have "sizes_ok (cr_pager t)" using assms(6) sizes_ok_same [OF pt(2)] by simp
    from cell_initialize_spec [OF pt(1) this ready]
    obtain ok ce q where q: "cell_initialize (cell_init ptr pa, cr_pager t) = Some (ok, ce, q)" "pager_ok q" "pager_same (cr_pager t) q"
      "ok \<longrightarrow> cell_shows (cr_pager t) pa bs (nat ptr) ce"
      unfolding cell_result_def by blast
    let ?u = "t\<lparr>cr_pager := q\<rparr>"
    have "kept J t ?u" using q(2,3) at by (simp add: kept_def crawl_at_def)
    note au = crawl_at_kept [OF at this]
    have su: "handed [] s ?u" using handed_none(1) [OF st(1) handed_pager(1)] .
    have gu: "guarded ?u" using su Cons.prems(3) unfolding handed_def by blast
    let ?out = "if ok then Some ce else None"
    have out: "cell_out p pa bs ptr ?out"
      using q pt cell_shows_same [OF pt(2)] by (auto simp: cell_out_def)
    obtain Q w where w: "crawl_cell ?V pa (\<lambda>ce pages s. map_option (Pair pages) (v_onCellCrawled ?V ce s)) ptr P t = Some (Q, w)"
      "crawl_each Crawl_This (crawl_cell ?V pa (\<lambda>ce pages s. map_option (Pair pages) (v_onCellCrawled ?V ce s))) ptrs Q w = Some (b, P', s')"
      using Cons.prems(4) t False by (auto simp: bind_Some_conv)
    have step: "kept J ?u w \<and> guarded w \<and> (halts w \<or> handed (read_cells [?out]) s w)"
    proof (cases ok)
      case True
      have ws: "mechanic_onCellCrawled e ce ?u = Some w" using w(1) q(1) True by (auto simp: crawl_cell_def Let_def mechanic_crawler_methods)
      have "cell_shows p pa bs (nat ptr) ce" using q(4) True cell_shows_same [OF pt(2)] by blast
      then have "kept J ?u w"
        using crawl_hooks.cell_returns [OF mechanic_leaf_hooks [OF assms(4,5)], of p crc ?u n bs count pa "nat ptr" ce a cb ci] au assms(7-9) ws
        unfolding J_def e_def n_def by (auto simp: mechanic_crawler_methods leaf_noted_def)
      moreover have "guarded w \<and> (halts w \<or> handed (read_cells [?out]) s w)"
      proof (cases "isErrorCritial ?u")
        case crit': True
        then show ?thesis using ws gu by (simp add: mechanic_onCellCrawled_def)
      next
        case False
        then obtain x where "assembleCell e ce ?u = Some (x, w)" using ws by (auto simp: mechanic_onCellCrawled_def)
        note h = handed_none(1) [OF su handed_cell [OF crit this]]
        moreover have "guarded w" using h Cons.prems(3) unfolding handed_def by blast
        ultimately show ?thesis using True by (simp add: read_cells_def)
      qed
      ultimately show ?thesis by blast
    next
      case False
      then have ws: "w = repair_onCrawlerError e ?u" using w(1) q(1) by (auto simp: crawl_cell_def Let_def mechanic_crawler_methods)
      have h: "handed [] s w" unfolding ws by (rule handed_none(1) [OF su handed_severity(5) [OF crit]])
      moreover have "kept J ?u w" unfolding ws e_def J_def by (rule mech.upgrade_keeps(3)) (use au in \<open>simp add: J_def\<close>)
      moreover have "guarded w" using h Cons.prems(3) unfolding handed_def by blast
      ultimately show ?thesis using False by (simp add: read_cells_def)
    qed
    have IH: "guarded s' \<and> (halts s' \<or> (\<exists>outs. list_all2 (cell_out p pa bs) ptrs outs \<and> handed (read_cells outs) w s'))"
      using Cons.IH [OF _ crawl_at_kept [OF au] _ w(2)] Cons.prems(1) step by simp
    show ?thesis
    proof (cases "halts s'")
      case True
      then show ?thesis using IH by simp
    next
      case False
      then obtain outs where o: "list_all2 (cell_out p pa bs) ptrs outs" "handed (read_cells outs) w s'" using IH by blast
      have "\<not> halts w" using o(2) False unfolding handed_def by blast
      then have "handed (read_cells [?out] @ read_cells outs) s s'" using step handed_trans [OF _ o(2)] by blast
      then have "handed (read_cells (?out # outs)) s s'" by (simp add: read_cells_def)
      then show ?thesis using IH o(1) out by blast
    qed
  qed
qed


lemma handed_leaf:
  fixes a cb ci crc v p m c
  defines "e \<equiv> mechanic_env a cb ci" and "n \<equiv> sint (mp_number v)"
  defines "J \<equiv> leaf_sound crc p m c (\<lambda>me. me = \<lparr>me_checksum = mp_hash v, me_withoutRowId = False\<rparr>)"
  assumes "c \<in> set (material_contents m)" "v \<in> set (ct_verifiedPagenos c)" "sizes_ok p" "tree_safe (leaf_noted crc v) (\<lambda>_. True) {n} p"
    "crawl_at p J s" "guarded s" "safeCrawl (mechanic_crawler e crc) n 1 {} s = Some (P, s')"
  shows "guarded s' \<and> (halts s' \<or> (\<not> halts s \<and> (\<exists>rows. page_rows crc p v rows \<and> handed rows s s')))"
proof -
  let ?V = "mechanic_crawler e crc"
  have crit: "re_critical e = mechanic_critical" by (simp add: e_def mechanic_env_def)
  have hooks: "crawl_hooks ?V (leaf_noted crc v) (\<lambda>_. True) {n} p J" unfolding e_def n_def J_def by (rule mechanic_leaf_hooks [OF assms(4,5)])
  obtain stop t where t: "crawl_suspended Crawl_This s = (stop, t)" by fastforce
  note st = handed_suspended [OF t]
  have gt: "guarded t" using st(1) assms(9) unfolding handed_def by blast
  have "kept J s t" using t assms(8) by (auto simp: crawl_suspended_def kept_def crawl_at_def Let_def)
  note at = crawl_at_kept [OF assms(8) this]
  show ?thesis
  proof (cases stop)
    case True
    then have "crawl_load ?V n 1 s = Some (None, t)" using t by (simp add: crawl_load_def mechanic_crawler_methods)
    then have "s' = t" using assms(10) by (subst (asm) safeCrawl.simps) simp
    then show ?thesis using st(2) True gt by simp
  next
    case False
    have halt: "\<not> halts s" using st(3) False by blast
    have pt: "pager_ok (cr_pager t)" "pager_same p (cr_pager t)" using at by (simp_all add: crawl_at_def)
    have n: "1 \<le> n" and safe: "\<forall>bs. db_page (cr_pager t) n = Some bs \<longrightarrow> pointers_safe n bs"
      using assms(7) pager_same_db(2) [OF pt(2)] by (simp_all add: tree_safe_def)
    have eq: "crawl_load ?V n 1 s = do {
        (ok, page, p) \<leftarrow> page_initialize (page_init n, cr_pager t);
        let s = t\<lparr>cr_pager := p\<rparr>;
        if \<not> ok then Some (None, repair_onCrawlerError e s)
        else Some (Some page, crawl_update Crawl_This (\<lambda>c. c\<lparr>co_isCrawlingIndexTable := isIndexPage page\<rparr>) s)
      }"
      using t False unfolding crawl_load_def mechanic_crawler_methods by (cases "page_initialize (page_init n, cr_pager t)") (simp_all add: Let_def split: prod.split)
    show ?thesis
    proof (rule page_initialize_cases [OF pt(1) n safe])
      fix pa q assume pi: "page_initialize (page_init n, cr_pager t) = Some (False, pa, q)"
      then have "s' = repair_onCrawlerError e (t\<lparr>cr_pager := q\<rparr>)" using assms(10) eq by (subst (asm) safeCrawl.simps) (simp add: Let_def)
      then have h: "handed [] s s'" using handed_none(1) [OF st(1) handed_none(1) [OF handed_pager(1) handed_severity(5) [OF crit]]] by simp
      moreover have "page_rows crc p v []" using pi pt unfolding page_rows_def n_def Let_def by blast
      moreover have "guarded s'" using h assms(9) unfolding handed_def by blast
      ultimately show ?thesis using halt by blast
    next
      fix bs pa q assume pi: "page_initialize (page_init n, cr_pager t) = Some (True, pa, q)" "pager_ok q" "pager_same (cr_pager t) q"
        "db_page (cr_pager t) n = Some bs" "page_shows n bs (pager_getNumberOfPages (cr_pager t)) pa"
      let ?u = "crawl_update Crawl_This (\<lambda>c. c\<lparr>co_isCrawlingIndexTable := isIndexPage pa\<rparr>) (t\<lparr>cr_pager := q\<rparr>)"
      have "kept J t ?u" using pi(2,3) at by (simp add: kept_def crawl_at_def)
      note au = crawl_at_kept [OF at this]
      have su: "handed [] s ?u" using handed_none(1) [OF st(1) handed_none(1) [OF handed_pager(1) handed_update]] by simp
      have gu: "guarded ?u" using su assms(9) unfolding handed_def by blast
      have page: "db_page p n = Some bs" "page_shows n bs (pager_getNumberOfPages p) pa"
        using pi(4,5) pager_same_db(2) [OF pt(2)] pager_same_count [OF pt(2)] by simp_all
      have pa: "pa_number pa = n" "pa_type pa = type_in n bs" "pa_cellPointers pa = pointers_in n bs \<or> type_in n bs \<noteq> LeafTable"
        using page(2) by (auto simp: page_shows_def page_ready_def)
      have own: "rp_own (cr_user ?u) = \<lparr>me_checksum = mp_hash v, me_withoutRowId = False\<rparr>"
        using au unfolding J_def by (simp add: crawl_at_def repair_sound_def)
      obtain b w where w: "mechanic_willCrawlPage e crc pa 1 ?u = Some (b, w)" "kept J ?u w" "b \<longrightarrow> leaf_noted crc v n bs"
        using crawl_hooks.will_returns [OF hooks au singletonI page(2), of 1] by (auto simp: mechanic_crawler_methods)
      note uw = handed_will [OF w(1) [unfolded e_def] page(2) own]
      have sw: "handed [] s w" using handed_none(1) [OF su uw(1)] .
      have gw: "guarded w" using sw assms(9) unfolding handed_def by blast
      have load: "crawl_load ?V n 1 s = Some (Some pa, ?u)" using eq pi(1) by (simp add: Let_def)
      show ?thesis
      proof (cases b)
        case False
        then have "s' = w" using assms(10) load w(1) by (subst (asm) safeCrawl.simps) (simp add: crawl_enter_def mechanic_crawler_methods)
        moreover have "halts w \<or> page_rows crc p v []" using uw(2) [OF gu False] page(1) unfolding page_rows_def n_def Let_def by auto
        ultimately show ?thesis using sw gw halt by blast
      next
        case True
        then have noted: "leaf_noted crc v n bs" using w(3) by blast
        then have leaf: "type_in n bs = LeafTable" by (simp add: leaf_noted_def)
        let ?f = "\<lambda>ce pages s. map_option (Pair pages) (v_onCellCrawled ?V ce s)"
        obtain b' P' where each: "crawl_each Crawl_This (crawl_cell ?V pa ?f) (pointers_in n bs) {n} w = Some (b', P', s')"
          using assms(10) load w(1) True leaf pa
          by (subst (asm) safeCrawl.simps) (auto simp: crawl_enter_def mechanic_crawler_methods bind_Some_conv)
        have cells: "\<forall>ptr \<in> set (pointers_in n bs). cell_safe pa bs ptr"
          using assms(7) page(1) leaf noted pa(2) by (simp add: tree_safe_def)
        have all: "guarded s' \<and> (halts s' \<or> (\<exists>outs. list_all2 (cell_out p pa bs) (pointers_in n bs) outs \<and> handed (read_cells outs) w s'))"
          using handed_cells [OF assms(4-6) page [unfolded n_def] noted [unfolded n_def] cells [unfolded n_def]
            crawl_at_kept [OF au w(2), unfolded J_def] gw each [unfolded e_def n_def]] unfolding n_def .
        moreover have "page_rows crc p v (read_cells outs)" if "list_all2 (cell_out p pa bs) (pointers_in n bs) outs" for outs
          using that page noted unfolding page_rows_def n_def Let_def by auto
        ultimately show ?thesis using handed_none(1) [OF sw] halt by blast
      qed
    qed
  qed
qed

lemma handed_crawl:
  fixes a cb ci crc v p m c
  defines "e \<equiv> mechanic_env a cb ci" and "n \<equiv> sint (mp_number v)"
  defines "J \<equiv> leaf_sound crc p m c (\<lambda>me. me = \<lparr>me_checksum = mp_hash v, me_withoutRowId = False\<rparr>)"
  assumes "c \<in> set (material_contents m)" "v \<in> set (ct_verifiedPagenos c)" "sizes_ok p" "tree_safe (leaf_noted crc v) (\<lambda>_. True) {n} p"
    "crawl_at p J s" "guarded s" "crawl (mechanic_crawler e crc) n s = Some (ok, s')"
  shows "guarded s' \<and> (halts s' \<or> (\<not> halts s \<and> (\<exists>rows. page_rows crc p v rows \<and> handed rows s s')))"
proof -
  let ?t = "crawl_update Crawl_This (\<lambda>c. c\<lparr>co_isCrawling := True\<rparr>) s"
  have st: "handed [] s ?t" by (rule handed_update) simp
  obtain P u where u: "safeCrawl (mechanic_crawler e crc) n 1 {} ?t = Some (P, u)" "s' = crawl_update Crawl_This (\<lambda>c. c\<lparr>co_isCrawling := False\<rparr>) u"
    using assms(10) by (auto simp: crawl_def bind_Some_conv mechanic_crawler_methods)
  have us: "handed [] u s'" unfolding u(2) by (rule handed_update) simp
  have "halts ?t = halts s" by (simp add: halts_def crawl_update_def)
  moreover have "guarded ?t" using st assms(9) unfolding handed_def by blast
  moreover have "crawl_at p J ?t" using assms(8) by (simp add: crawl_at_def)
  ultimately have "guarded u \<and> (halts u \<or> (\<not> halts s \<and> (\<exists>rows. page_rows crc p v rows \<and> handed rows ?t u)))"
    using handed_leaf [OF assms(4-6) assms(7) [unfolded n_def] _ _ u(1) [unfolded e_def n_def]] unfolding J_def by simp
  then show ?thesis using handed_none(2) [OF handed_none(1) [OF st] us] us unfolding handed_def by blast
qed

lemma handed_pages:
  assumes "sizes_ok p" "c \<in> set (material_contents m)" "\<And>v. v \<in> set vs \<Longrightarrow> tree_safe (leaf_noted crc v) (\<lambda>_. True) {sint (mp_number v)} p"
    "set vs \<subseteq> set (ct_verifiedPagenos c)" "crawl_at p (leaf_sound crc p m c (\<lambda>me. \<not> me_withoutRowId me)) s" "guarded s"
    "mechanic_pages (mechanic_env a cb ci) crc vs s = Some s'"
  shows "guarded s' \<and> (halts s' \<or> (\<not> halts s \<and> (\<exists>rows. list_all2 (page_rows crc p) vs rows \<and> handed (concat rows) s s'))) \<or> (vs = [] \<and> s' = s)"
  using assms(3-7)
proof (induction vs arbitrary: s)
  case Nil
  then show ?case by simp
next
  case (Cons v vs)
  let ?e = "mechanic_env a cb ci" and ?J = "leaf_sound crc p m c (\<lambda>me. \<not> me_withoutRowId me)"
  let ?me = "\<lparr>me_checksum = mp_hash v, me_withoutRowId = False\<rparr>"
  let ?Jv = "leaf_sound crc p m c (\<lambda>me. me = ?me)" and ?t = "mechanic_modify (\<lambda>me. me\<lparr>me_checksum := mp_hash v\<rparr>) s"
  have crit: "re_critical ?e = mechanic_critical" by (simp add: mechanic_env_def)
  have t: "crawl_at p ?Jv ?t" using Cons.prems(3) by (simp add: crawl_at_def repair_sound_def mechanic_modify_def)
  have st: "handed [] s ?t" unfolding mechanic_modify_def by (rule handed_modify) simp_all
  have ht: "halts ?t = halts s" by (simp add: halts_def mechanic_modify_def)
  have gt: "guarded ?t" using st Cons.prems(4) unfolding handed_def by blast
  have v: "v \<in> set (ct_verifiedPagenos c)" using Cons.prems(2) by simp
  note tree = Cons.prems(1) [OF list.set_intros(1)]
  obtain ok u where u: "crawl (mechanic_crawler ?e crc) (sint (mp_number v)) ?t = Some (ok, u)" "kept ?Jv ?t u"
    using crawl_hooks.crawl_returns [OF mechanic_leaf_hooks [OF assms(2) v] t assms(1) tree singletonI subset_refl] by blast
  have one: "guarded u \<and> (halts u \<or> (\<not> halts s \<and> (\<exists>rows. page_rows crc p v rows \<and> handed rows s u)))"
    using handed_crawl [OF assms(2) v assms(1) tree t gt u(1)] handed_none(1) [OF st] ht by auto
  have "crawl_at p ?Jv u" using crawl_at_kept [OF t u(2)] .
  then have cu: "crawl_at p ?J u" by (rule crawl_at_mono) (auto intro: repair_sound_mono)
  let ?w = "tryUpgradeCrawlerError ?e u"
  have uw: "handed [] u ?w" by (rule handed_severity(3) [OF crit])
  have cw: "crawl_at p ?J ?w" using crawl_at_kept [OF cu mech.upgrade_keeps(1) [OF cu]] .
  define x where "x = (if ok then u else ?w)"
  have ux: "handed [] u x" using uw by (simp add: x_def handed_refl)
  have gx: "guarded x" using ux one unfolding handed_def by blast
  have x: "halts x \<or> (\<not> halts s \<and> (\<exists>rows. page_rows crc p v rows \<and> handed rows s x))"
    using one ux handed_none(2) unfolding handed_def by blast
  have run: "(if \<not> ok \<and> isErrorCritial x then Some x else mechanic_pages ?e crc vs x) = Some s'"
    using Cons.prems(5) u(1) by (auto simp: x_def Let_def)
  show ?case
  proof (cases "\<not> ok \<and> isErrorCritial x")
    case True
    then show ?thesis using run gx by auto
  next
    case False
    then have "mechanic_pages ?e crc vs x = Some s'" using run by auto
    moreover have "crawl_at p ?J x" using cu cw by (simp add: x_def)
    ultimately consider "vs = []" "s' = x" | "guarded s'" "halts s'"
      | rows where "guarded s'" "\<not> halts x" "list_all2 (page_rows crc p) vs rows" "handed (concat rows) x s'"
      using Cons.IH [of x] Cons.prems(1,2) gx by fastforce
    then show ?thesis
    proof cases
      case 1
      have "list_all2 (page_rows crc p) [v] [r] \<and> handed (concat [r]) s x" if "page_rows crc p v r" "handed r s x" for r using that by simp
      then show ?thesis using 1 x gx by blast
    next
      case 2
      then show ?thesis by blast
    next
      case (3 rows)
      then obtain r where r: "\<not> halts s" "page_rows crc p v r" "handed r s x" using x by blast
      have "list_all2 (page_rows crc p) (v # vs) (r # rows)" "handed (concat (r # rows)) s s'"
        using r 3(3) handed_trans [OF r(3) 3(4)] by simp_all
      then show ?thesis using 3(1) r(1) by blast
    qed
  qed
qed


section \<open>Properties\<close>



section \<open>Witnesses\<close>

definition demo_noted :: content where
  "demo_noted = \<lparr>ct_tableName = [116], ct_sql = [115], ct_associatedSQLs = [], ct_rootPage = 2, ct_sequence = 0,
     ct_verifiedPagenos = [\<lparr>mp_number = 2, mp_hash = 512\<rparr>], ct_checked = True\<rparr>"

definition demo_noted_material :: material where
  "demo_noted_material = \<lparr>mt_info = \<lparr>mi_pageSize = 512, mi_reservedBytes = 0, mi_walSalt = (0, 0), mi_nBackFill = 0, mi_seqTableRootPage = 0\<rparr>,
     mt_contentsList = [demo_noted], mt_contentsMap = [[116] \<mapsto> 0]\<rparr>"

definition demo_mechanic :: "mechanic repair_env" where
  "demo_mechanic = mechanic_env \<lparr>ad_ok = (\<lambda>_. True), ad_error = (\<lambda>_. error_init), ad_withoutRowid = (\<lambda>_. False)\<rparr> None
     \<lparr>cd_isCipherDB = False, cd_pageSize = 0, cd_context = None, cd_error = error_init\<rparr>"

definition demo_crc :: crc where
  "demo_crc bs = of_nat (length bs)"

lemma demo_material_contents: "material_contents demo_noted_material = [demo_noted]"
  by (simp add: material_contents_def demo_noted_material_def demo_noted_def enumerate_eq_zip)

lemma demo_noted_safe:
  assumes "db_page p 2 = Some demo_leaf"
  shows "mechanic_safe demo_crc demo_noted_material p"
proof -
  have cell: "cell_safe pa demo_leaf 500" if "pa_type pa = LeafTable" for pa
  proof -
    have "cell_total pa demo_leaf 500 = cell_total demo_page demo_leaf 500"
      using that demo_page_ready(2) by (simp add: cell_total_def cell_size_def cell_start_def isLeafPage_def)
    then show ?thesis using demo_page_ready(3) by (simp add: cell_safe_def)
  qed
  have "tree_safe (leaf_noted demo_crc v) (\<lambda>_. True) {2} p" for v
    using assms demo_leaf_parsed cell by (simp add: tree_safe_def pointers_safe_def interior_type_def)
  moreover have "tree_safe index_entered (\<lambda>_. True) {2} p"
    using assms demo_leaf_parsed by (simp add: tree_safe_def pointers_safe_def interior_type_def index_entered_def)
  ultimately show ?thesis by (auto simp: mechanic_safe_def demo_material_contents) (auto simp: demo_noted_def)
qed

definition demo_table_state :: "mechanic repair" where
  "demo_table_state = repair_new (\<lambda>_. False) (demo_tree (replicate 512 0 @ demo_leaf)) mechanic_init"


definition demo_damaged :: "mechanic repair" where
  "demo_damaged = repair_new (\<lambda>_. False) (demo_new (demo_schema @ demo_leaf)) mechanic_init"

lemma demo_damaged_ready: "mechanic_ready demo_mechanic demo_crc demo_noted_material demo_damaged"
proof -
  let ?q = "mechanic_pager demo_mechanic demo_noted_material demo_damaged" and ?bs = "demo_schema @ demo_leaf"
  have l: "length ?bs = 1024" by (rule demo_database_fresh(3))
  have ne: "demo_schema \<noteq> []" "demo_leaf \<noteq> []" by (simp_all add: demo_schema_def demo_leaf_def)
  have conf: "mechanic_configure demo_noted_material (re_cipher demo_mechanic) p =
      pager_setReservedBytes 0 (pager_setPageSize 512 (pager_setWalSalt (0, 0) (pager_setNBackFill 0 (pager_setWalImportance False p))))" for p
    by (simp add: mechanic_configure_def demo_noted_material_def demo_mechanic_def mechanic_env_def Let_def)
  have fresh: "pager_fresh (mechanic_configure demo_noted_material (re_cipher demo_mechanic) (cr_pager demo_damaged))"
    using demo_new_fresh [of ?bs] l unfolding conf
    by (simp add: demo_damaged_def repair_new_def pager_fresh_def pager_started_def pager_setReservedBytes_def pager_setPageSize_def pager_setWalSalt_def
        pager_setNBackFill_def pager_setWalImportance_def wal_setSalt_def wal_setNBackFill_def wal_setShmLegality_def demo_new_facts pf_init_def)
  have state: "pg_state (cr_pager demo_damaged) = State_None"
    by (simp add: demo_damaged_def repair_new_def demo_new_def pager_setWalSkipped_def pager_init_def)
  have len: "length (fh_content (pf_file (pg_file (cr_pager demo_damaged)))) = 1024"
    using l by (simp add: demo_damaged_def repair_new_def demo_new_facts pf_init_def fh_init_def fh_content_def)
  have new: "pg_state (demo_new ?bs) = State_None" "wal_disposedPages (pg_wal (demo_new ?bs)) = []"
    by (simp_all add: demo_new_def pager_setWalSkipped_def pager_init_def wal_init_def)
  let ?h = "(fh_init demo_sys ''a.db'' (Some ?bs))\<lparr>fh_tick := 1, fh_error := wal_thread (pg_wal (demo_new ?bs))\<rparr>"
  have q: "pg_file ?q = pf_init ?h" "pg_pageSize ?q = 512" "pg_reservedBytes ?q = 0" "pg_skipWal ?q" "pg_codec ?q = None" "pg_state ?q = State_None"
    "wal_pages2Frames (pg_wal ?q) = []" "wal_disposedPages (pg_wal ?q) = []"
    unfolding mechanic_pager_def conf
    by (simp_all add: new demo_damaged_def repair_new_def isEmptyDatabase_def pager_setReservedBytes_def pager_setPageSize_def pager_setWalSalt_def
        pager_setNBackFill_def pager_setWalImportance_def wal_setSalt_def wal_setNBackFill_def wal_setShmLegality_def demo_new_facts
        pf_init_def fh_init_def getFileSize_def demo_sys_def fh_content_def Let_def)
  have opened: "pg_pageSize p = 512 \<and> pg_codec p = None \<and> wal_pages2Frames (pg_wal p) = [] \<and> fh_content (pf_file (pg_file p)) = ?bs \<and> wal_disposedPages (pg_wal p) = []"
    if "pager_initialize q = Some (True, p)" "q = ?q" for p q
    using that(1) q [folded that(2)] l
    by (auto simp: ne pager_initialize_def initialize_def pager_doInitialize_def pf_init_def fh_init_def getFileSize_def fh_open_def demo_sys_def fh_content_def
        pager_start_def Let_def setPageSize_file)
  have ready: "pg_pageSize (pager_disposeWal p) dvd 1024 \<and> mechanic_safe demo_crc demo_noted_material (pager_disposeWal p) \<and>
      int (verified_total demo_noted_material) + pager_getDisposedWalPages (pager_disposeWal p) < 2147483647"
    if "pager_initialize ?q = Some (True, p)" for p
  proof -
    have "db_page (pager_disposeWal p) 2 = Some demo_leaf"
      using opened [OF that refl] by (simp add: db_page_def db_raw_def pager_disposeWal_def wal_dispose_def demo_schema_def demo_leaf_def)
    moreover have "pg_pageSize (pager_disposeWal p) = 512" using opened [OF that refl] by (simp add: pager_disposeWal_def)
    moreover have "verified_total demo_noted_material = 1" by (simp add: verified_total_def demo_material_contents demo_noted_def)
    moreover have "pager_getDisposedWalPages (pager_disposeWal p) = 0"
      using opened [OF that refl] by (simp add: pager_getDisposedWalPages_def wal_getDisposedPages_def pager_disposeWal_def wal_dispose_def)
    ultimately show ?thesis using demo_noted_safe by simp
  qed
  have "\<exists>p. pager_initialize q = Some (True, p)" if "q = ?q" for q
    using q [folded that] l
    by (simp add: ne pager_initialize_def initialize_def pager_doInitialize_def pf_init_def fh_init_def getFileSize_def fh_open_def demo_sys_def fh_content_def
        pager_start_def Let_def setPageSize_file)
  then obtain p where p: "pager_initialize ?q = Some (True, p)" by blast
  show ?thesis unfolding mechanic_ready_def mechanic_database_def len
    using fresh state p ready [OF p] by (simp add: Let_def demo_mechanic_def mechanic_env_def)
qed


end
