(* ===== verification/WCDB_Lock.thy ===== *)
theory WCDB_Lock
  imports WCDB_Prelude
begin

text \<open>
  \<open>src/src/common/base/Lock.cpp\<close>: \<open>SharedLock\<close>, the lock of a database for many readers or one
  writer, with waiting writers before new readers.

  The mutex makes every section between two waits a step of its own, so the lock is a function
  for every such section, and the threads are a step relation that interleaves them.  Where a
  thread stands is \<open>sl_wait\<close>: it runs, or it waits at one of the two conditions, with a flag that
  says whether it has been notified since.  A condition may also wake a thread that was not
  notified.  The threads are numbers.  The assertions that return early are guards.  On Apple
  systems only the first waiting writer is notified, elsewhere all of them: \<open>apple\<close>.
  The counters do not overflow.
\<close>

section \<open>The lock\<close>

type_synonym thread = nat

datatype wait = Running | Wait_Readers bool | Wait_Writers bool

record shared_lock =
  sl_readers :: int
  sl_writers :: int
  sl_pendingReaders :: int
  sl_pendingWriters :: "thread list"
  sl_locking :: "thread option"
  sl_threadedReaders :: "thread \<Rightarrow> int"
  sl_wait :: "thread \<Rightarrow> wait"

definition sl_init :: shared_lock where
  "sl_init = \<lparr>sl_readers = 0, sl_writers = 0, sl_pendingReaders = 0, sl_pendingWriters = [], sl_locking = None,
     sl_threadedReaders = (\<lambda>_. 0), sl_wait = (\<lambda>_. Running)\<rparr>"

definition sl_stand :: "thread \<Rightarrow> wait \<Rightarrow> shared_lock \<Rightarrow> shared_lock" where
  "sl_stand t w s = s\<lparr>sl_wait := (sl_wait s)(t := w)\<rparr>"

definition notify_readers :: "shared_lock \<Rightarrow> shared_lock" where
  "notify_readers s = s\<lparr>sl_wait := (\<lambda>t. case sl_wait s t of Wait_Readers _ \<Rightarrow> Wait_Readers True | w \<Rightarrow> w)\<rparr>"

definition notify_writers :: "bool \<Rightarrow> shared_lock \<Rightarrow> shared_lock" where
  "notify_writers apple s = s\<lparr>sl_wait := (\<lambda>t. case sl_wait s t of
     Wait_Writers n \<Rightarrow> Wait_Writers (n \<or> \<not> apple \<or> t = hd (sl_pendingWriters s)) | w \<Rightarrow> w)\<rparr>"

text \<open>\<open>lockShared\<close> up to its wait, or to its end, and the part behind a wait.\<close>

definition sl_share :: "thread \<Rightarrow> shared_lock \<Rightarrow> shared_lock" where
  "sl_share t s = s\<lparr>sl_readers := sl_readers s + 1, sl_threadedReaders := (sl_threadedReaders s)(t := sl_threadedReaders s t + 1)\<rparr>"

definition lockShared :: "thread \<Rightarrow> shared_lock \<Rightarrow> shared_lock" where
  "lockShared t s =
     (if (if sl_writers s > 0 then sl_locking s \<noteq> Some t else sl_pendingWriters s \<noteq> [] \<and> sl_threadedReaders s t = 0)
      then sl_stand t (Wait_Readers False) (s\<lparr>sl_pendingReaders := sl_pendingReaders s + 1\<rparr>)
      else sl_share t s)"

definition lockShared_woken :: "thread \<Rightarrow> shared_lock \<Rightarrow> shared_lock" where
  "lockShared_woken t s =
     (if sl_writers s > 0 \<or> sl_pendingWriters s \<noteq> [] then sl_stand t (Wait_Readers False) s
      else sl_share t (sl_stand t Running (s\<lparr>sl_pendingReaders := sl_pendingReaders s - 1\<rparr>)))"

definition unlockShared :: "bool \<Rightarrow> thread \<Rightarrow> shared_lock \<Rightarrow> shared_lock" where
  "unlockShared apple t s =
     (if sl_threadedReaders s t \<le> 0 then s
      else let s = s\<lparr>sl_threadedReaders := (sl_threadedReaders s)(t := sl_threadedReaders s t - 1), sl_readers := sl_readers s - 1\<rparr>
           in if sl_readers s = 0 \<and> sl_writers s = 0 \<and> sl_pendingWriters s \<noteq> [] then notify_writers apple s else s)"

text \<open>The test of the loop in \<open>lock\<close>, which the thread comes to with its place in the queue.\<close>

definition sl_acquire :: "thread \<Rightarrow> shared_lock \<Rightarrow> shared_lock" where
  "sl_acquire t s = s\<lparr>sl_writers := sl_writers s + 1, sl_locking := Some t\<rparr>"

definition lock_woken :: "thread \<Rightarrow> shared_lock \<Rightarrow> shared_lock" where
  "lock_woken t s =
     (if sl_readers s > 0 \<or> sl_writers s > 0 \<or> hd (sl_pendingWriters s) \<noteq> t then sl_stand t (Wait_Writers False) s
      else sl_acquire t (sl_stand t Running (s\<lparr>sl_pendingWriters := tl (sl_pendingWriters s)\<rparr>)))"

definition lock :: "thread \<Rightarrow> shared_lock \<Rightarrow> shared_lock" where
  "lock t s =
     (if sl_threadedReaders s t \<noteq> 0 then s
      else if sl_locking s \<noteq> Some t then lock_woken t (s\<lparr>sl_pendingWriters := sl_pendingWriters s @ [t]\<rparr>)
      else sl_acquire t s)"

definition unlock :: "bool \<Rightarrow> thread \<Rightarrow> shared_lock \<Rightarrow> shared_lock" where
  "unlock apple t s =
     (if sl_threadedReaders s t \<noteq> 0 \<or> sl_locking s \<noteq> Some t then s
      else let s = s\<lparr>sl_writers := sl_writers s - 1\<rparr>
           in if sl_writers s \<noteq> 0 then s
              else let s = s\<lparr>sl_locking := None\<rparr>
                   in if sl_pendingWriters s \<noteq> [] then notify_writers apple s
                      else if sl_pendingReaders s > 0 then notify_readers s else s)"

definition isLocked :: "shared_lock \<Rightarrow> bool" where
  "isLocked s \<longleftrightarrow> sl_writers s > 0"

datatype lock_level = Level_None | Level_Read | Level_Write

definition sl_level :: "thread \<Rightarrow> shared_lock \<Rightarrow> lock_level" where
  "sl_level t s = (if sl_locking s = Some t then Level_Write else if sl_threadedReaders s t > 0 then Level_Read else Level_None)"

definition readSafety :: "thread \<Rightarrow> shared_lock \<Rightarrow> bool" where
  "readSafety t s \<longleftrightarrow> sl_level t s \<noteq> Level_None"

definition writeSafety :: "thread \<Rightarrow> shared_lock \<Rightarrow> bool" where
  "writeSafety t s \<longleftrightarrow> sl_level t s = Level_Write"

section \<open>The threads\<close>

text \<open>Any running thread may call any function of the lock, in any order, and any waiting one may wake.\<close>

inductive sl_step :: "bool \<Rightarrow> shared_lock \<Rightarrow> shared_lock \<Rightarrow> bool" for apple where
  lockShared: "sl_wait s t = Running \<Longrightarrow> sl_step apple s (lockShared t s)"
| unlockShared: "sl_wait s t = Running \<Longrightarrow> sl_step apple s (unlockShared apple t s)"
| lock: "sl_wait s t = Running \<Longrightarrow> sl_step apple s (lock t s)"
| unlock: "sl_wait s t = Running \<Longrightarrow> sl_step apple s (unlock apple t s)"
| reader_woken: "sl_wait s t = Wait_Readers n \<Longrightarrow> sl_step apple s (lockShared_woken t s)"
| writer_woken: "sl_wait s t = Wait_Writers n \<Longrightarrow> sl_step apple s (lock_woken t s)"

inductive sl_reachable :: "bool \<Rightarrow> shared_lock \<Rightarrow> bool" for apple where
  start: "sl_reachable apple sl_init"
| next_step: "sl_reachable apple s \<Longrightarrow> sl_step apple s s' \<Longrightarrow> sl_reachable apple s'"

section \<open>The invariant\<close>

text \<open>The sum of a function with finite support.\<close>

definition total_of :: "(thread \<Rightarrow> int) \<Rightarrow> int" where
  "total_of f = sum f {t. f t \<noteq> 0}"

lemma total_of_update:
  assumes "finite {t. f t \<noteq> 0}"
  shows "total_of (f(t := x)) = total_of f - f t + x" "finite {u. (f(t := x)) u \<noteq> 0}"
proof -
  let ?A = "insert t {u. f u \<noteq> 0}" and ?g = "f(t := x)"
  have fin: "finite ?A" using assms by simp
  have g: "total_of ?g = sum ?g ?A" unfolding total_of_def by (rule sum.mono_neutral_left) (use fin in auto)
  have f: "total_of f = sum f ?A" unfolding total_of_def by (rule sum.mono_neutral_left) (use fin in auto)
  have "sum ?g ?A = x + sum f ({u. f u \<noteq> 0} - {t})" by (subst sum.insert_remove [OF assms]) (auto intro: sum.cong)
  moreover have "sum f ?A = f t + sum f ({u. f u \<noteq> 0} - {t})" by (rule sum.insert_remove [OF assms])
  ultimately show "total_of ?g = total_of f - f t + x" using f g by simp
  show "finite {u. ?g u \<noteq> 0}" by (rule finite_subset [OF _ fin]) auto
qed

lemma total_of_member: "finite {t. f t \<noteq> 0} \<Longrightarrow> (\<And>t. 0 \<le> f t) \<Longrightarrow> f t \<le> total_of f"
proof -
  assume f: "finite {t. f t \<noteq> 0}" "\<And>t. 0 \<le> f t"
  show "f t \<le> total_of f"
  proof (cases "f t = 0")
    case True
    then show ?thesis using f(2) by (simp add: total_of_def sum_nonneg)
  next
    case False
    then show ?thesis unfolding total_of_def using f by (intro member_le_sum) auto
  qed
qed

definition waiting_readers :: "shared_lock \<Rightarrow> thread set" where
  "waiting_readers s = {t. \<exists>n. sl_wait s t = Wait_Readers n}"

definition readers_counted :: "shared_lock \<Rightarrow> bool" where
  "readers_counted s \<longleftrightarrow> finite {t. sl_threadedReaders s t \<noteq> 0} \<and> (\<forall>t. 0 \<le> sl_threadedReaders s t) \<and>
     sl_readers s = total_of (sl_threadedReaders s) \<and> finite (waiting_readers s) \<and> sl_pendingReaders s = int (card (waiting_readers s))"

definition writer_alone :: "shared_lock \<Rightarrow> bool" where
  "writer_alone s \<longleftrightarrow> 0 \<le> sl_writers s \<and> (sl_locking s = None \<longleftrightarrow> sl_writers s = 0) \<and>
     (\<forall>t u. sl_locking s = Some t \<longrightarrow> u \<noteq> t \<longrightarrow> sl_threadedReaders s u = 0)"

definition writers_queued :: "shared_lock \<Rightarrow> bool" where
  "writers_queued s \<longleftrightarrow> distinct (sl_pendingWriters s) \<and> (\<forall>t. t \<in> set (sl_pendingWriters s) \<longleftrightarrow> (\<exists>n. sl_wait s t = Wait_Writers n)) \<and>
     (\<forall>t. sl_wait s t \<noteq> Running \<longrightarrow> sl_threadedReaders s t = 0 \<and> sl_locking s \<noteq> Some t)"

text \<open>No wakeup is lost: who waits without being notified has something to wait for.\<close>

definition none_lost :: "shared_lock \<Rightarrow> bool" where
  "none_lost s \<longleftrightarrow> (\<forall>t. sl_wait s t = Wait_Readers False \<longrightarrow> sl_writers s > 0 \<or> sl_pendingWriters s \<noteq> []) \<and>
     (sl_pendingWriters s \<noteq> [] \<longrightarrow> sl_wait s (hd (sl_pendingWriters s)) = Wait_Writers False \<longrightarrow> sl_readers s > 0 \<or> sl_writers s > 0)"

definition sl_inv :: "shared_lock \<Rightarrow> bool" where
  "sl_inv s \<longleftrightarrow> readers_counted s \<and> writer_alone s \<and> writers_queued s \<and> none_lost s"

lemmas sl_inv_defs = readers_counted_def writer_alone_def writers_queued_def none_lost_def waiting_readers_def

lemma sl_init_inv: "sl_inv sl_init"
  by (simp add: sl_inv_def sl_inv_defs sl_init_def total_of_def)

lemma wait_kinds:
  "((\<exists>n. (case w of Wait_Readers _ \<Rightarrow> Wait_Readers True | x \<Rightarrow> x) = Wait_Readers n) = (\<exists>n. w = Wait_Readers n)) \<and>
   ((\<exists>n. (case w of Wait_Readers _ \<Rightarrow> Wait_Readers True | x \<Rightarrow> x) = Wait_Writers n) = (\<exists>n. w = Wait_Writers n)) \<and>
   (((case w of Wait_Readers _ \<Rightarrow> Wait_Readers True | x \<Rightarrow> x) = Running) = (w = Running)) \<and>
   ((\<exists>n. (case w of Wait_Writers m \<Rightarrow> Wait_Writers (m \<or> b) | x \<Rightarrow> x) = Wait_Readers n) = (\<exists>n. w = Wait_Readers n)) \<and>
   ((\<exists>n. (case w of Wait_Writers m \<Rightarrow> Wait_Writers (m \<or> b) | x \<Rightarrow> x) = Wait_Writers n) = (\<exists>n. w = Wait_Writers n)) \<and>
   (((case w of Wait_Writers m \<Rightarrow> Wait_Writers (m \<or> b) | x \<Rightarrow> x) = Running) = (w = Running))"
  by (cases w) auto

lemma waiting_readers_simps [simp]:
  "waiting_readers (sl_stand t (Wait_Readers n) s) = insert t (waiting_readers s)"
  "waiting_readers (sl_stand t Running s) = waiting_readers s - {t}"
  "waiting_readers (sl_stand t (Wait_Writers n) s) = waiting_readers s - {t}"
  "waiting_readers (notify_readers s) = waiting_readers s" "waiting_readers (notify_writers apple s) = waiting_readers s"
  by (auto simp: waiting_readers_def sl_stand_def notify_readers_def notify_writers_def wait_kinds)

lemma share_inv:
  assumes "sl_inv s" "sl_wait s t = Running" "sl_locking s = Some t \<or> sl_writers s = 0"
  shows "sl_inv (sl_share t s)"
proof -
  have inv: "readers_counted s" "writer_alone s" "writers_queued s" "none_lost s" using assms(1) by (simp_all add: sl_inv_def)
  have r: "finite {t. sl_threadedReaders s t \<noteq> 0}" using inv(1) by (simp add: readers_counted_def)
  have "readers_counted (sl_share t s)"
    using inv(1) total_of_update [OF r, of t "sl_threadedReaders s t + 1"] by (simp add: readers_counted_def sl_share_def waiting_readers_def)
  moreover have "writer_alone (sl_share t s)" using inv(2) assms(3) by (auto simp: writer_alone_def sl_share_def)
  moreover have "writers_queued (sl_share t s)" using inv(3) assms(2) by (auto simp: writers_queued_def sl_share_def)
  moreover have "none_lost (sl_share t s)" using inv(4) by (auto simp: none_lost_def sl_share_def)
  ultimately show ?thesis by (simp add: sl_inv_def)
qed

lemma readers_nonneg: "readers_counted s \<Longrightarrow> 0 \<le> sl_readers s"
  by (auto simp: readers_counted_def total_of_def intro: sum_nonneg)

lemma none_reading:
  assumes "readers_counted s" "sl_readers s = 0"
  shows "sl_threadedReaders s t = 0"
  using total_of_member [of "sl_threadedReaders s" t] assms by (auto simp: readers_counted_def intro: antisym)

lemma lockShared_inv:
  assumes "sl_inv s" "sl_wait s t = Running"
  shows "sl_inv (lockShared t s)"
proof (cases "if sl_writers s > 0 then sl_locking s \<noteq> Some t else sl_pendingWriters s \<noteq> [] \<and> sl_threadedReaders s t = 0")
  case True
  have inv: "readers_counted s" "writer_alone s" "writers_queued s" "none_lost s" using assms(1) by (simp_all add: sl_inv_def)
  have t: "sl_threadedReaders s t = 0" "sl_locking s \<noteq> Some t" "sl_writers s > 0 \<or> sl_pendingWriters s \<noteq> []"
    using True inv(2) by (auto simp: writer_alone_def split: if_splits)
  let ?s = "sl_stand t (Wait_Readers False) (s\<lparr>sl_pendingReaders := sl_pendingReaders s + 1\<rparr>)"
  have wr: "waiting_readers ?s = insert t (waiting_readers s)" "t \<notin> waiting_readers s"
    using assms(2) by (auto simp: waiting_readers_def sl_stand_def)
  then have "readers_counted ?s" using inv(1) unfolding readers_counted_def wr(1) by (simp add: sl_stand_def)
  moreover have "writer_alone ?s" using inv(2) by (simp add: writer_alone_def sl_stand_def)
  moreover have "writers_queued ?s" using inv(3) t(1,2) assms(2) by (auto simp: writers_queued_def sl_stand_def)
  moreover have "none_lost ?s" using inv(3,4) t(3) by (auto simp: none_lost_def sl_stand_def)
  ultimately show ?thesis using True by (simp add: sl_inv_def lockShared_def)
next
  case False
  then have "sl_locking s = Some t \<or> sl_writers s = 0" using assms(1) by (auto simp: sl_inv_def writer_alone_def split: if_splits)
  then show ?thesis using share_inv [OF assms] False by (simp add: lockShared_def)
qed

lemma lockShared_woken_inv:
  assumes "sl_inv s" "sl_wait s t = Wait_Readers n"
  shows "sl_inv (lockShared_woken t s)"
proof -
  have inv: "readers_counted s" "writer_alone s" "writers_queued s" "none_lost s" using assms(1) by (simp_all add: sl_inv_def)
  have in_wr: "t \<in> waiting_readers s" using assms(2) by (auto simp: waiting_readers_def)
  have notw: "t \<notin> set (sl_pendingWriters s)" using inv(3) assms(2) by (auto simp: writers_queued_def)
  show ?thesis
  proof (cases "sl_writers s > 0 \<or> sl_pendingWriters s \<noteq> []")
    case True
    let ?s = "sl_stand t (Wait_Readers False) s"
    have wr: "waiting_readers ?s = waiting_readers s" using in_wr by auto
    then have "readers_counted ?s" using inv(1) unfolding readers_counted_def wr by (simp add: sl_stand_def)
    moreover have "writer_alone ?s" using inv(2) by (simp add: writer_alone_def sl_stand_def)
    moreover have "writers_queued ?s" using inv(3) assms(2) by (auto simp: writers_queued_def sl_stand_def)
    moreover have "none_lost ?s" using inv(4) True notw by (auto simp: none_lost_def sl_stand_def)
    ultimately show ?thesis using True by (simp add: sl_inv_def lockShared_woken_def)
  next
    case False
    let ?s = "sl_stand t Running (s\<lparr>sl_pendingReaders := sl_pendingReaders s - 1\<rparr>)"
    have w0: "sl_writers s = 0" using False inv(2) by (simp add: writer_alone_def)
    have wr: "waiting_readers ?s = waiting_readers s - {t}" by (auto simp: waiting_readers_def sl_stand_def)
    have "0 < card (waiting_readers s)" using inv(1) in_wr by (auto simp: readers_counted_def card_gt_0_iff)
    then have "readers_counted ?s" using inv(1) in_wr unfolding readers_counted_def wr by (simp add: sl_stand_def card_Diff_singleton of_nat_diff)
    moreover have "writer_alone ?s" using inv(2) by (simp add: writer_alone_def sl_stand_def)
    moreover have "writers_queued ?s" using inv(3) assms(2) by (auto simp: writers_queued_def sl_stand_def)
    moreover have "none_lost ?s" using inv(4) False by (auto simp: none_lost_def sl_stand_def)
    ultimately have "sl_inv ?s" by (simp add: sl_inv_def)
    from share_inv [OF this, of t] show ?thesis using False w0 by (simp add: lockShared_woken_def sl_stand_def)
  qed
qed

lemma notify_inv:
  assumes "readers_counted s" "writer_alone s" "writers_queued s"
  shows "readers_counted (notify_readers s)" "writer_alone (notify_readers s)" "writers_queued (notify_readers s)"
    "readers_counted (notify_writers a s)" "writer_alone (notify_writers a s)" "writers_queued (notify_writers a s)"
proof -
  show "readers_counted (notify_readers s)" "readers_counted (notify_writers a s)"
    using assms(1) unfolding readers_counted_def by (simp_all) (simp_all add: notify_readers_def notify_writers_def)
  show "writer_alone (notify_readers s)" "writer_alone (notify_writers a s)"
    using assms(2) by (simp_all add: writer_alone_def notify_readers_def notify_writers_def)
  show "writers_queued (notify_readers s)" "writers_queued (notify_writers a s)"
    using assms(3) by (simp_all add: writers_queued_def notify_readers_def notify_writers_def wait_kinds)
qed

lemma unlockShared_inv:
  assumes "sl_inv s" "sl_wait s t = Running"
  shows "sl_inv (unlockShared a t s)"
proof (cases "sl_threadedReaders s t \<le> 0")
  case True
  then show ?thesis using assms(1) by (simp add: unlockShared_def)
next
  case False
  have inv: "readers_counted s" "writer_alone s" "writers_queued s" "none_lost s" using assms(1) by (simp_all add: sl_inv_def)
  have r: "finite {t. sl_threadedReaders s t \<noteq> 0}" using inv(1) by (simp add: readers_counted_def)
  let ?s = "s\<lparr>sl_threadedReaders := (sl_threadedReaders s)(t := sl_threadedReaders s t - 1), sl_readers := sl_readers s - 1\<rparr>"
  have rc: "readers_counted ?s"
    using inv(1) False total_of_update [OF r, of t "sl_threadedReaders s t - 1"] by (auto simp: readers_counted_def waiting_readers_def)
  have "sl_locking s = Some u \<Longrightarrow> u = t" for u using inv(2) False by (force simp: writer_alone_def)
  then have wa: "writer_alone ?s" using inv(2) by (auto simp: writer_alone_def)
  have wq: "writers_queued ?s" using inv(3) assms(2) by (auto simp: writers_queued_def)
  note n = notify_inv [OF rc wa wq]
  have pos: "0 \<le> sl_writers s" "0 \<le> sl_readers ?s" using inv(2) readers_nonneg [OF rc] by (simp_all add: writer_alone_def)
  show ?thesis
  proof (cases "sl_readers ?s = 0 \<and> sl_writers ?s = 0 \<and> sl_pendingWriters ?s \<noteq> []")
    case True
    have "hd (sl_pendingWriters s) \<in> set (sl_pendingWriters s)" using True by simp
    then obtain m where "sl_wait s (hd (sl_pendingWriters s)) = Wait_Writers m" using inv(3) by (auto simp: writers_queued_def)
    then have "none_lost (notify_writers a ?s)" using True by (auto simp: none_lost_def notify_writers_def)
    then show ?thesis using n True False by (simp add: sl_inv_def unlockShared_def)
  next
    case rest: False
    then have "none_lost ?s" using inv(4) pos by (auto simp: none_lost_def)
    then show ?thesis using rc wa wq rest False by (auto simp: sl_inv_def unlockShared_def Let_def)
  qed
qed

lemma lock_woken_inv:
  assumes "readers_counted s" "writer_alone s" "distinct (sl_pendingWriters s)" "t \<in> set (sl_pendingWriters s)" "t \<notin> waiting_readers s"
    "\<forall>u. u \<noteq> t \<longrightarrow> (u \<in> set (sl_pendingWriters s) \<longleftrightarrow> (\<exists>n. sl_wait s u = Wait_Writers n)) \<and>
       (sl_wait s u \<noteq> Running \<longrightarrow> sl_threadedReaders s u = 0 \<and> sl_locking s \<noteq> Some u)"
    "sl_threadedReaders s t = 0" "sl_locking s \<noteq> Some t"
    "hd (sl_pendingWriters s) \<noteq> t \<longrightarrow> none_lost s"
  shows "sl_inv (lock_woken t s)"
proof (cases "sl_readers s > 0 \<or> sl_writers s > 0 \<or> hd (sl_pendingWriters s) \<noteq> t")
  case True
  let ?s = "sl_stand t (Wait_Writers False) s"
  have wr: "waiting_readers ?s = waiting_readers s" using assms(5) by simp
  have "readers_counted ?s" using assms(1) unfolding readers_counted_def wr by (simp add: sl_stand_def)
  moreover have "writer_alone ?s" using assms(2) by (simp add: writer_alone_def sl_stand_def)
  moreover have "writers_queued ?s" using assms(3,4,6-8) by (auto simp: writers_queued_def sl_stand_def)
  moreover have "none_lost ?s" using assms(4,9) True by (auto simp: none_lost_def sl_stand_def)
  ultimately show ?thesis using True by (simp add: sl_inv_def lock_woken_def)
next
  case False
  let ?s = "sl_acquire t (sl_stand t Running (s\<lparr>sl_pendingWriters := tl (sl_pendingWriters s)\<rparr>))"
  obtain ws where ws: "sl_pendingWriters s = t # ws" using False assms(4) by (cases "sl_pendingWriters s") auto
  have zero: "sl_readers s = 0" "sl_writers s = 0"
    using False readers_nonneg [OF assms(1)] assms(2) by (simp_all add: writer_alone_def)
  note tr = none_reading [OF assms(1) zero(1)]
  have "waiting_readers ?s = waiting_readers s" using assms(5) by (auto simp: sl_acquire_def waiting_readers_def sl_stand_def)
  then have "readers_counted ?s" using assms(1) unfolding readers_counted_def by (simp add: sl_stand_def sl_acquire_def)
  moreover have "writer_alone ?s" using assms(2) tr zero by (simp add: writer_alone_def sl_stand_def sl_acquire_def)
  moreover have "writers_queued ?s" using assms(3,6) ws tr by (auto simp: writers_queued_def sl_stand_def sl_acquire_def)
  moreover have "none_lost ?s" using zero by (simp add: none_lost_def sl_stand_def sl_acquire_def)
  ultimately show ?thesis using False by (simp add: sl_inv_def lock_woken_def)
qed

lemma writer_woken_inv:
  assumes "sl_inv s" "sl_wait s t = Wait_Writers n"
  shows "sl_inv (lock_woken t s)"
  by (rule lock_woken_inv) (use assms in \<open>auto simp: sl_inv_def writers_queued_def waiting_readers_def\<close>)

lemma lock_inv:
  assumes "sl_inv s" "sl_wait s t = Running"
  shows "sl_inv (lock t s)"
proof -
  have inv: "readers_counted s" "writer_alone s" "writers_queued s" "none_lost s" using assms(1) by (simp_all add: sl_inv_def)
  consider "sl_threadedReaders s t \<noteq> 0" | "sl_threadedReaders s t = 0" "sl_locking s = Some t" | "sl_threadedReaders s t = 0" "sl_locking s \<noteq> Some t" by blast
  then show ?thesis
  proof cases
    case 1
    then show ?thesis using assms(1) by (simp add: lock_def)
  next
    case 2
    have "sl_inv (sl_acquire t s)" using assms 2
      by (auto simp: sl_inv_def sl_acquire_def readers_counted_def writer_alone_def writers_queued_def none_lost_def waiting_readers_def)
    then show ?thesis using 2 by (simp add: lock_def)
  next
    case 3
    let ?s = "s\<lparr>sl_pendingWriters := sl_pendingWriters s @ [t]\<rparr>"
    have new: "t \<notin> set (sl_pendingWriters s)" using inv(3) assms(2) by (auto simp: writers_queued_def)
    have "sl_inv (lock_woken t ?s)"
    proof (rule lock_woken_inv)
      show "readers_counted ?s" using inv(1) by (simp add: readers_counted_def waiting_readers_def)
      show "writer_alone ?s" using inv(2) by (simp add: writer_alone_def)
      show "t \<notin> waiting_readers ?s" using assms(2) by (simp add: waiting_readers_def)
      show "hd (sl_pendingWriters ?s) \<noteq> t \<longrightarrow> none_lost ?s" using inv(4) by (cases "sl_pendingWriters s") (auto simp: none_lost_def)
    qed (use inv(3) 3 new in \<open>auto simp: writers_queued_def\<close>)
    then show ?thesis using 3 by (simp add: lock_def)
  qed
qed

lemma unlock_inv:
  assumes "sl_inv s" "sl_wait s t = Running"
  shows "sl_inv (unlock a t s)"
proof -
  have inv: "readers_counted s" "writer_alone s" "writers_queued s" "none_lost s" using assms(1) by (simp_all add: sl_inv_def)
  show ?thesis
  proof (cases "sl_threadedReaders s t \<noteq> 0 \<or> sl_locking s \<noteq> Some t")
    case True
    then show ?thesis using assms(1) by (auto simp: unlock_def)
  next
    case False
    then have held: "sl_threadedReaders s t = 0" "sl_locking s = Some t" "sl_writers s > 0" using inv(2) by (auto simp: writer_alone_def)
    show ?thesis
    proof (cases "sl_writers s = 1")
      case one: True
      let ?s = "s\<lparr>sl_writers := 0, sl_locking := None\<rparr>"
      have rc: "readers_counted ?s" using inv(1) by (simp add: readers_counted_def waiting_readers_def)
      have wa: "writer_alone ?s" by (simp add: writer_alone_def)
      have wq: "writers_queued ?s" using inv(3) by (auto simp: writers_queued_def)
      note n = notify_inv [OF rc wa wq]
      consider "sl_pendingWriters s \<noteq> []" | "sl_pendingWriters s = []" "sl_pendingReaders s > 0" | "sl_pendingWriters s = []" "\<not> sl_pendingReaders s > 0" by blast
      then show ?thesis
      proof cases
        case 1
        have "hd (sl_pendingWriters s) \<in> set (sl_pendingWriters s)" using 1 by simp
        then obtain m where "sl_wait s (hd (sl_pendingWriters s)) = Wait_Writers m" using inv(3) by (auto simp: writers_queued_def)
        then have "none_lost (notify_writers a ?s)" using 1 by (auto simp: none_lost_def notify_writers_def)
        then show ?thesis using n 1 one held by (simp add: sl_inv_def unlock_def)
      next
        case 2
        have "none_lost (notify_readers ?s)" using 2 by (auto simp: none_lost_def notify_readers_def split: wait.splits)
        then show ?thesis using n 2 one held by (simp add: sl_inv_def unlock_def)
      next
        case 3
        have "waiting_readers s = {}" using inv(1) 3 by (auto simp: readers_counted_def)
        then have "none_lost ?s" using 3 by (auto simp: none_lost_def waiting_readers_def)
        then show ?thesis using rc wa wq 3 one held by (simp add: sl_inv_def unlock_def)
      qed
    next
      case False
      then have "sl_inv (s\<lparr>sl_writers := sl_writers s - 1\<rparr>)" using inv held
        by (auto simp: sl_inv_def readers_counted_def writer_alone_def writers_queued_def none_lost_def waiting_readers_def)
      then show ?thesis using False held by (simp add: unlock_def)
    qed
  qed
qed

lemma sl_step_inv: "sl_step a s s' \<Longrightarrow> sl_inv s \<Longrightarrow> sl_inv s'"
  by (induction rule: sl_step.induct) (auto intro: lockShared_inv unlockShared_inv lock_inv unlock_inv lockShared_woken_inv writer_woken_inv)

lemma sl_reachable_inv: "sl_reachable a s \<Longrightarrow> sl_inv s"
  by (induction rule: sl_reachable.induct) (auto intro: sl_init_inv sl_step_inv)

section \<open>Properties\<close>

text \<open>
  C9: In every state that the threads can reach by any interleaving of calls and wakeups, paired
  or not, a thread that has the write lock is alone: no other thread has the lock at any level,
  and every shared lock that is counted is its own.
\<close>

theorem sharedLock_exclusive:
  assumes "sl_reachable apple s" "writeSafety t s" "u \<noteq> t"
  shows "\<not> readSafety u s \<and> isLocked s \<and> sl_readers s = sl_threadedReaders s t"
proof -
  have inv: "readers_counted s" "writer_alone s" using sl_reachable_inv [OF assms(1)] by (simp_all add: sl_inv_def)
  have l: "sl_locking s = Some t" using assms(2) by (simp add: writeSafety_def sl_level_def split: if_splits)
  then have zero: "\<forall>u. u \<noteq> t \<longrightarrow> sl_threadedReaders s u = 0" "sl_writers s > 0" using inv(2) by (auto simp: writer_alone_def)
  have "total_of (sl_threadedReaders s) = sl_threadedReaders s t"
  proof (cases "sl_threadedReaders s t = 0")
    case True
    then have "{t. sl_threadedReaders s t \<noteq> 0} = {}" using zero(1) by auto
    then show ?thesis using True by (simp add: total_of_def)
  next
    case False
    then have "{t. sl_threadedReaders s t \<noteq> 0} = {t}" using zero(1) by auto
    then show ?thesis by (simp add: total_of_def)
  qed
  then show ?thesis using inv(1) zero l assms(3) by (simp add: readers_counted_def readSafety_def sl_level_def isLocked_def)
qed

text \<open>
  C10: No wakeup is lost.  When nobody has the lock and some thread waits for it, a waiting thread
  has been notified that gets the lock when it wakes, with the notification of all writers as
  well as with that of the first one.
\<close>

theorem sharedLock_wakes:
  assumes "sl_reachable apple s" "sl_readers s = 0" "\<not> isLocked s" "sl_wait s t \<noteq> Running"
  shows "\<exists>u. sl_wait s u = Wait_Readers True \<and> readSafety u (lockShared_woken u s) \<or>
    sl_wait s u = Wait_Writers True \<and> writeSafety u (lock_woken u s)"
proof -
  have inv: "readers_counted s" "writer_alone s" "writers_queued s" "none_lost s" using sl_reachable_inv [OF assms(1)] by (simp_all add: sl_inv_def)
  have w: "sl_writers s = 0" "sl_locking s = None" using assms(3) inv(2) by (auto simp: isLocked_def writer_alone_def)
  show ?thesis
  proof (cases "sl_pendingWriters s")
    case Nil
    then have "sl_wait s t \<noteq> Wait_Writers n" for n using inv(3) by (auto simp: writers_queued_def)
    then obtain n where n: "sl_wait s t = Wait_Readers n" using assms(4) by (cases "sl_wait s t") auto
    then have "n" using inv(4) Nil w(1) by (cases n) (auto simp: none_lost_def)
    moreover have "0 \<le> sl_threadedReaders s t" using inv(1) by (simp add: readers_counted_def)
    then have "readSafety t (lockShared_woken t s)"
      using Nil w by (simp add: lockShared_woken_def readSafety_def sl_level_def sl_share_def sl_stand_def)
    ultimately show ?thesis using n by auto
  next
    case (Cons u ws)
    then obtain n where n: "sl_wait s u = Wait_Writers n" using inv(3) by (auto simp: writers_queued_def)
    then have "n" using inv(4) Cons w(1) assms(2) by (cases n) (auto simp: none_lost_def)
    moreover have "writeSafety u (lock_woken u s)"
      using Cons w assms(2) by (simp add: lock_woken_def sl_acquire_def writeSafety_def sl_level_def)
    ultimately show ?thesis using n by auto
  qed
qed

theorem sharedLock_exclusive_witness: "sl_readers (lockShared 0 (lock 0 sl_init)) = 1"
proof -
  have 1: "sl_reachable False (lock 0 sl_init)" by (rule next_step [OF start], rule sl_step.lock) (simp add: sl_init_def)
  have "sl_wait (lock 0 sl_init) 0 = Running" by (simp add: lock_def lock_woken_def sl_init_def sl_acquire_def sl_stand_def)
  then have 2: "sl_reachable False (lockShared 0 (lock 0 sl_init))" by (rule next_step [OF 1 sl_step.lockShared])
  have 3: "writeSafety 0 (lockShared 0 (lock 0 sl_init))" "sl_threadedReaders (lockShared 0 (lock 0 sl_init)) 0 = 1"
    by (simp_all add: lockShared_def lock_def lock_woken_def sl_init_def sl_acquire_def sl_stand_def sl_share_def writeSafety_def sl_level_def)
  show ?thesis using sharedLock_exclusive [OF 2 3(1), of 1] 3(2) by simp
qed

theorem sharedLock_wakes_witness:
  "\<exists>u. let s = unlockShared True 0 (lock 1 (lockShared 0 sl_init))
       in sl_wait s u = Wait_Readers True \<and> readSafety u (lockShared_woken u s) \<or> sl_wait s u = Wait_Writers True \<and> writeSafety u (lock_woken u s)"
proof -
  let ?a = "lockShared 0 sl_init" and ?b = "lock 1 (lockShared 0 sl_init)" and ?c = "unlockShared True 0 (lock 1 (lockShared 0 sl_init))"
  note defs = lockShared_def lock_def lock_woken_def sl_init_def sl_acquire_def sl_stand_def sl_share_def unlockShared_def notify_writers_def
  have "sl_wait sl_init 0 = Running" "sl_wait ?a 1 = Running" "sl_wait ?b 0 = Running" by (simp_all add: defs)
  then have "sl_reachable True ?c"
    by (meson start next_step sl_step.lockShared sl_step.lock sl_step.unlockShared)
  moreover have "sl_readers ?c = 0" "\<not> isLocked ?c" "sl_wait ?c 1 \<noteq> Running" by (simp_all add: defs isLocked_def Let_def)
  ultimately show ?thesis using sharedLock_wakes [of True ?c 1] by (simp add: Let_def)
qed

end
